(* ===== verification/Go_Prelude.thy ===== *)
theory Go_Prelude
  imports Main "HOL-Library.Word" "HOL-Library.List_Lexorder" "HOL-Library.Monad_Syntax"
begin

text \<open>
  The fragment of Go that StunDB is written in, shared by every component.

  \<^item> A \<^verbatim>\<open>[]byte\<close> is a \<open>slice\<close>: Go tells the nil slice from an empty one
    (\<^verbatim>\<open>deletedkey != nil\<close>, \<^verbatim>\<open>indexKey == nil\<close>), while
    \<^verbatim>\<open>bytes.Compare\<close> and \<^verbatim>\<open>bytes.Equal\<close> look at the contents only.
  \<^item> A run-time panic (an index out of range, a division by zero) is the value
    \<open>None\<close> of an \<open>option\<close>; code that may panic is written in the option monad.
  \<^item> A returned \<^verbatim>\<open>error\<close> is the left side of a sum, \<open>go_error + 'a\<close>.

  The order on byte strings is the library's lexicographic order on lists of words;
  \<open>bytes_Compare\<close> is proved to decide it.
\<close>

section \<open>Byte slices\<close>

type_synonym byte = "8 word"

type_synonym bytes = "byte list"

datatype slice = NilSlice | Bytes bytes

type_synonym Keytype = slice
type_synonym Valuetype = slice

primrec bytes_of :: "slice \<Rightarrow> bytes" where
  "bytes_of NilSlice = []"
| "bytes_of (Bytes bs) = bs"

text \<open>Slices compare by contents: a preorder in which nil and the empty slice are equivalent.\<close>

instantiation slice :: preorder
begin

definition less_eq_slice :: "slice \<Rightarrow> slice \<Rightarrow> bool" where
  "less_eq_slice s t \<longleftrightarrow> bytes_of s \<le> bytes_of t"

definition less_slice :: "slice \<Rightarrow> slice \<Rightarrow> bool" where
  "less_slice s t \<longleftrightarrow> bytes_of s < bytes_of t"

instance
  by standard (auto simp: less_eq_slice_def less_slice_def)

end

text \<open>
  \<^verbatim>\<open>make([]byte, len(v)); copy(valueCopy, v)\<close>: the copy of a slice is never nil.
\<close>

definition slice_copy :: "slice \<Rightarrow> slice" where
  "slice_copy s = Bytes (bytes_of s)"

text \<open>Go's \<^verbatim>\<open>bytes.Compare\<close> and \<^verbatim>\<open>bytes.Equal\<close>.\<close>

fun compare_bytes :: "bytes \<Rightarrow> bytes \<Rightarrow> int" where
  "compare_bytes [] [] = 0"
| "compare_bytes [] (_ # _) = - 1"
| "compare_bytes (_ # _) [] = 1"
| "compare_bytes (x # xs) (y # ys) =
     (if x < y then - 1 else if y < x then 1 else compare_bytes xs ys)"

definition bytes_Compare :: "slice \<Rightarrow> slice \<Rightarrow> int" where
  "bytes_Compare a b = compare_bytes (bytes_of a) (bytes_of b)"

definition bytes_Equal :: "slice \<Rightarrow> slice \<Rightarrow> bool" where
  "bytes_Equal a b \<longleftrightarrow> bytes_of a = bytes_of b"

section \<open>Errors and panics\<close>

text \<open>
  An error is its cause: one constructor for each sentinel or message of the sources.  The
  context that wrapping messages add (an index name, a sequence number) is not kept.
\<close>

datatype go_error =
    ErrKeyNotFound
  | ErrInvalidTree
  | ErrInvalidRange
  | ErrLengthMismatch
  | ErrPathRequired
  | ErrEOF
  | ErrUnexpectedEOF
  | ErrChecksum
  | ErrBadMagic
  | ErrBadVersion
  | ErrIO
  | ErrDuplicateKey
  | ErrUniqueViolation
  | ErrNotUnique
  | ErrIndexExists
  | ErrIndexNotFound
  | ErrCallback

text \<open>
  Reading and writing a slice element panics out of range, and so does slicing past
  the length.
\<close>

definition at_ix :: "'a list \<Rightarrow> nat \<Rightarrow> 'a option" where
  "at_ix xs i = (if i < length xs then Some (xs ! i) else None)"

definition set_at :: "'a list \<Rightarrow> nat \<Rightarrow> 'a \<Rightarrow> 'a list option" where
  "set_at xs i x = (if i < length xs then Some (xs[i := x]) else None)"

definition upto_ix :: "'a list \<Rightarrow> nat \<Rightarrow> 'a list option" where
  "upto_ix xs i = (if i \<le> length xs then Some (take i xs) else None)"

definition from_ix :: "'a list \<Rightarrow> nat \<Rightarrow> 'a list option" where
  "from_ix xs i = (if i \<le> length xs then Some (drop i xs) else None)"

text \<open>The idiom "grow by one, shift right, store": insertion at an index.\<close>

definition insert_at :: "'a list \<Rightarrow> nat \<Rightarrow> 'a \<Rightarrow> 'a list" where
  "insert_at xs i x = take i xs @ x # drop i xs"

text \<open>
  The idiom "append \<^verbatim>\<open>xs[:i]\<close>, then \<open>x\<close>, then \<^verbatim>\<open>xs[i:]\<close>" into a
  fresh array: it panics when \<open>i\<close> is out of range.
\<close>

definition splice_at :: "'a list \<Rightarrow> nat \<Rightarrow> 'a \<Rightarrow> 'a list option" where
  "splice_at xs i x =
     do {
       front \<leftarrow> upto_ix xs i;
       back \<leftarrow> from_ix xs i;
       Some (front @ [x] @ back)
     }"

text \<open>The idiom \<^verbatim>\<open>append(xs[:i], xs[i+1:]...)\<close>: removal at an index.\<close>

definition remove_at :: "'a list \<Rightarrow> nat \<Rightarrow> 'a list" where
  "remove_at xs i = take i xs @ drop (Suc i) xs"

section \<open>Shared lemmas\<close>

named_theorems go_simps \<open>evaluation of in-range slice accesses\<close>

lemma compare_bytes_cases:
  "(compare_bytes a b < 0 \<longleftrightarrow> a < b) \<and> (compare_bytes a b = 0 \<longleftrightarrow> a = b) \<and>
   (0 < compare_bytes a b \<longleftrightarrow> b < a)"
  by (induction a b rule: compare_bytes.induct) (auto simp: not_less_iff_gr_or_eq)

lemma bytes_Compare_neg [simp]: "bytes_Compare a b < 0 \<longleftrightarrow> bytes_of a < bytes_of b"
  and bytes_Compare_zero [simp]: "bytes_Compare a b = 0 \<longleftrightarrow> bytes_of a = bytes_of b"
  and bytes_Compare_pos [simp]: "0 < bytes_Compare a b \<longleftrightarrow> bytes_of b < bytes_of a"
  by (simp_all add: bytes_Compare_def compare_bytes_cases)

lemma bytes_Compare_nonneg [simp]: "0 \<le> bytes_Compare a b \<longleftrightarrow> bytes_of b \<le> bytes_of a"
  and bytes_Compare_nonpos [simp]: "bytes_Compare a b \<le> 0 \<longleftrightarrow> bytes_of a \<le> bytes_of b"
  using bytes_Compare_neg [of a b] bytes_Compare_pos [of a b]
  by (simp_all only: not_less [symmetric])

lemma bytes_Equal_iff [simp]: "bytes_Equal a b \<longleftrightarrow> bytes_of a = bytes_of b"
  by (simp add: bytes_Equal_def)

lemma bytes_of_slice_copy [simp]: "bytes_of (slice_copy s) = bytes_of s"
  by (simp add: slice_copy_def)

lemma slice_copy_not_nil [simp]: "slice_copy s \<noteq> NilSlice"
  by (simp add: slice_copy_def)

lemma slice_copy_copy [simp]: "slice_copy (slice_copy s) = slice_copy s"
  by (simp add: slice_copy_def)

lemma slice_copy_Bytes [simp]: "slice_copy (Bytes bs) = Bytes bs"
  by (simp add: slice_copy_def)

lemma slice_copy_id: "s \<noteq> NilSlice \<Longrightarrow> slice_copy s = s"
  by (cases s) auto

lemma at_ix_in [go_simps]: "i < length xs \<Longrightarrow> at_ix xs i = Some (xs ! i)"
  by (simp add: at_ix_def)

lemma at_ix_SomeD: "at_ix xs i = Some x \<Longrightarrow> i < length xs \<and> x = xs ! i"
  by (simp add: at_ix_def split: if_splits)

lemma at_ix_mem: "at_ix xs i = Some x \<Longrightarrow> x \<in> set xs"
  by (auto dest: at_ix_SomeD)

lemma set_at_in [go_simps]: "i < length xs \<Longrightarrow> set_at xs i x = Some (xs[i := x])"
  by (simp add: set_at_def)

lemma upto_ix_in [go_simps]: "i \<le> length xs \<Longrightarrow> upto_ix xs i = Some (take i xs)"
  by (simp add: upto_ix_def)

lemma from_ix_in [go_simps]: "i \<le> length xs \<Longrightarrow> from_ix xs i = Some (drop i xs)"
  by (simp add: from_ix_def)

lemma splice_at_in [go_simps]: "i \<le> length xs \<Longrightarrow> splice_at xs i x = Some (insert_at xs i x)"
  by (simp add: splice_at_def go_simps insert_at_def)

lemma length_insert_at [simp]: "length (insert_at xs i x) = Suc (length xs)"
  by (simp add: insert_at_def min_def)

lemma set_insert_at [simp]: "set (insert_at xs i x) = insert x (set xs)"
  by (metis Un_insert_right append_take_drop_id insert_at_def list.set(2) set_append)

lemma length_remove_at [simp]: "i < length xs \<Longrightarrow> length (remove_at xs i) = length xs - 1"
  by (simp add: remove_at_def min_def)

lemma zip_insert_at:
  "length xs = length ys \<Longrightarrow> zip (insert_at xs i x) (insert_at ys i y) = insert_at (zip xs ys) i (x, y)"
  by (simp add: insert_at_def take_zip drop_zip)

lemma zip_remove_at:
  "length xs = length ys \<Longrightarrow> zip (remove_at xs i) (remove_at ys i) = remove_at (zip xs ys) i"
  by (simp add: remove_at_def take_zip drop_zip)

lemma zip_list_update_both:
  "zip (xs[i := x]) (ys[i := y]) = (zip xs ys)[i := (x, y)]"
  by (simp add: update_zip)

lemma map_insert_at: "map f (insert_at xs i x) = insert_at (map f xs) i (f x)"
  by (simp add: insert_at_def take_map drop_map)

end
