(* ===== verification/Node_Ops.thy ===== *)
theory Node_Ops
  imports Go_Prelude
begin

text \<open>
  The node component, \<^verbatim>\<open>src/bptree/node.go\<close>, with the two predicates on nodes
  that \<^verbatim>\<open>btree.go\<close> adds (\<open>isSafe\<close>, \<open>getHighKey\<close>).

  A \<open>Node\<close> carries the source's four data fields.  The tree owns its nodes: no two
  parents share a child and no two nodes share a backing array (splits copy, merges
  append into the left node's own array), so a child is held by value and an update
  through a pointer is an update of the value in its parent.  The field
  \<^verbatim>\<open>rightSibling\<close> is never read or written by the source and the mutex
  \<^verbatim>\<open>mu\<close> guards nothing (all locking is by \<^verbatim>\<open>treeLock\<close>); neither is data of
  the model.  No operation stores a nil child pointer, and the type has none.
\<close>

section \<open>Nodes\<close>

datatype Node =
  Node (keys: "Keytype list") (vals: "Valuetype list") (children: "Node list") (isleaf: bool)

definition MaxKeys :: nat where
  "MaxKeys = 4"

definition MinKeys :: nat where
  "MinKeys = MaxKeys div 2"

text \<open>\<open>findindex\<close>: the scan for the first key that is not below \<open>key\<close>.\<close>

primrec findindex_keys :: "Keytype list \<Rightarrow> slice \<Rightarrow> nat" where
  "findindex_keys [] key = 0"
| "findindex_keys (k # ks) key =
     (if bytes_Compare k key \<ge> 0 then 0 else Suc (findindex_keys ks key))"

definition findindex :: "Node \<Rightarrow> slice \<Rightarrow> nat" where
  "findindex node key = findindex_keys (keys node) key"

primrec alreadyExists_keys :: "Keytype list \<Rightarrow> slice \<Rightarrow> bool" where
  "alreadyExists_keys [] key = False"
| "alreadyExists_keys (k # ks) key = (if bytes_Equal k key then True else alreadyExists_keys ks key)"

definition alreadyExists :: "Node \<Rightarrow> slice \<Rightarrow> bool" where
  "alreadyExists node key = alreadyExists_keys (keys node) key"

definition NewNode :: "bool \<Rightarrow> Node" where
  "NewNode leaf = Node [] [] [] leaf"

text \<open>
  \<open>insertAt\<close> grows both arrays by one, shifts the tail right and stores the pair; the
  source slices \<^verbatim>\<open>[index+1:]\<close> of the grown array, which panics past its end.
\<close>

definition insertAt :: "Node \<Rightarrow> nat \<Rightarrow> Keytype \<Rightarrow> Valuetype \<Rightarrow> Node option" where
  "insertAt node index key value =
     (if index \<le> length (keys node) \<and> index \<le> length (vals node)
      then Some (Node (insert_at (keys node) index key) (insert_at (vals node) index value)
                   (children node) (isleaf node))
      else None)"

definition insertChildAt :: "Node \<Rightarrow> nat \<Rightarrow> Node \<Rightarrow> Node option" where
  "insertChildAt node index child =
     (if index \<le> length (children node)
      then Some (Node (keys node) (vals node) (insert_at (children node) index child) (isleaf node))
      else None)"

definition removeAt :: "Node \<Rightarrow> nat \<Rightarrow> (Keytype \<times> Valuetype \<times> Node) option" where
  "removeAt node index =
     do {
       removedKey \<leftarrow> at_ix (keys node) index;
       removedValue \<leftarrow> at_ix (vals node) index;
       Some (removedKey, removedValue,
             Node (remove_at (keys node) index) (remove_at (vals node) index)
               (children node) (isleaf node))
     }"

definition isSafe :: "Node \<Rightarrow> bool" where
  "isSafe n \<longleftrightarrow> length (keys n) < MaxKeys"

definition getHighKey :: "Node \<Rightarrow> Keytype option" where
  "getHighKey n =
     (if length (keys n) = 0 then Some NilSlice else at_ix (keys n) (length (keys n) - 1))"

text \<open>
  Writing one field of a node through its pointer: the child slot, the value slot and
  the key-value slot.
\<close>

definition set_child :: "Node \<Rightarrow> nat \<Rightarrow> Node \<Rightarrow> Node" where
  "set_child n i c = Node (keys n) (vals n) ((children n)[i := c]) (isleaf n)"

definition set_value :: "Node \<Rightarrow> nat \<Rightarrow> Valuetype \<Rightarrow> Node option" where
  "set_value n i v =
     do { vs \<leftarrow> set_at (vals n) i v; Some (Node (keys n) vs (children n) (isleaf n)) }"

definition set_kv :: "Node \<Rightarrow> nat \<Rightarrow> Keytype \<Rightarrow> Valuetype \<Rightarrow> Node option" where
  "set_kv n i k v =
     do {
       ks \<leftarrow> set_at (keys n) i k;
       vs \<leftarrow> set_at (vals n) i v;
       Some (Node ks vs (children n) (isleaf n))
     }"

section \<open>What the operations do\<close>

lemma MaxKeys_4 [simp]: "MaxKeys = 4"
  by (simp add: MaxKeys_def)

lemma MinKeys_2 [simp]: "MinKeys = 2"
  by (simp add: MinKeys_def)

lemma findindex_keys_le: "findindex_keys ks key \<le> length ks"
  by (induction ks) auto

lemma findindex_le [simp]: "findindex n key \<le> length (keys n)"
  by (simp add: findindex_def findindex_keys_le)

lemma findindex_keys_below:
  "i < findindex_keys ks key \<Longrightarrow> bytes_of (ks ! i) < bytes_of key"
  by (induction ks arbitrary: i) (auto simp: nth_Cons not_le split: if_splits nat.splits)

lemma findindex_keys_at:
  "findindex_keys ks key < length ks \<Longrightarrow> bytes_of key \<le> bytes_of (ks ! findindex_keys ks key)"
  by (induction ks) auto

lemma findindex_keys_take_drop:
  assumes "\<forall>k \<in> set (take i ks). bytes_of k < bytes_of key"
    and "\<forall>k \<in> set (drop i ks). bytes_of key \<le> bytes_of k"
    and "i \<le> length ks"
  shows "findindex_keys ks key = i"
  using assms
proof (induction ks arbitrary: i)
  case (Cons k ks)
  then show ?case by (cases i) (auto simp: not_le)
qed simp

lemma alreadyExists_iff: "alreadyExists n key \<longleftrightarrow> bytes_of key \<in> bytes_of ` set (keys n)"
proof -
  have "alreadyExists_keys ks key \<longleftrightarrow> bytes_of key \<in> bytes_of ` set ks" for ks
    by (induction ks) auto
  then show ?thesis by (simp add: alreadyExists_def)
qed

lemma set_child_simps [simp]:
  "keys (set_child n i c) = keys n" "vals (set_child n i c) = vals n"
  "children (set_child n i c) = (children n)[i := c]" "isleaf (set_child n i c) = isleaf n"
  by (simp_all add: set_child_def)

lemma findindex_set_child [simp]: "findindex (set_child n i c) k = findindex n k"
  by (simp add: findindex_def)

end
