(* ===== verification/Btree_Model.thy ===== *)
theory Btree_Model
  imports Node_Ops
begin

text \<open>
  The B-tree component: the operations of \<^verbatim>\<open>src/bptree/btree.go\<close>, and the
  vocabulary its properties are stated in.

  An operation that mutates the tree takes it and returns the new one; \<open>None\<close> is a
  run-time panic.  \<open>Insert\<close> walks down with a stack of parents and walks that stack
  back up while nodes split: the recursion \<open>insertNode\<close> makes the same descent, and
  the return from a call is one turn of the source's upward loop.

  \<open>entries\<close> is the in-order content of a subtree, \<open>shape\<close> the structural
  invariant (fill of every node, equal depth of all leaves) and \<open>strict\<close> the order
  invariant.
\<close>

section \<open>State\<close>

record Btree =
  root :: "Node option"

definition empty_Btree :: Btree where
  "empty_Btree = \<lparr>root = None\<rparr>"

section \<open>Splitting a full node\<close>

text \<open>
  \<^verbatim>\<open>make([]T, len(xs), c)\<close> followed by \<^verbatim>\<open>copy\<close>: it panics when the length
  exceeds the capacity.
\<close>

definition make_copy :: "nat \<Rightarrow> 'a list \<Rightarrow> 'a list option" where
  "make_copy c xs = (if length xs \<le> c then Some xs else None)"

text \<open>
  The pair of arguments \<^verbatim>\<open>insertChildPos, insertChild\<close> is one option: the call with
  \<^verbatim>\<open>-1, nil\<close> is \<open>None\<close>.  The result is the promoted pair, the node as it is
  left behind and the new right node.
\<close>

definition splitNodeSimple ::
  "Node \<Rightarrow> Keytype \<Rightarrow> Valuetype \<Rightarrow> (nat \<times> Node) option \<Rightarrow> (Keytype \<times> Valuetype \<times> Node \<times> Node) option" where
  "splitNodeSimple node insertKey insertValue insertChild =
     do {
       let insertPos = findindex node insertKey;
       tempKeys \<leftarrow> splice_at (keys node) insertPos insertKey;
       tempValues \<leftarrow> splice_at (vals node) insertPos insertValue;
       let mid = length tempKeys div 2;
       midKey \<leftarrow> at_ix tempKeys mid;
       midValue \<leftarrow> at_ix tempValues mid;
       rightKeys \<leftarrow> Option.bind (from_ix tempKeys (mid + 1)) (make_copy MaxKeys);
       rightValues \<leftarrow> Option.bind (from_ix tempValues (mid + 1)) (make_copy MaxKeys);
       (leftChildren, rightChildren) \<leftarrow>
         (if \<not> isleaf node then
            do {
              tempChildren \<leftarrow>
                (case insertChild of
                   Some (insertChildPos, child) \<Rightarrow> splice_at (children node) insertChildPos child
                 | None \<Rightarrow> Some (children node));
              rc \<leftarrow> Option.bind (from_ix tempChildren (mid + 1)) (make_copy (MaxKeys + 1));
              lc \<leftarrow> Option.bind (upto_ix tempChildren (mid + 1)) (make_copy (MaxKeys + 1));
              Some (lc, rc)
            }
          else Some (children node, []));
       leftKeys \<leftarrow> Option.bind (upto_ix tempKeys mid) (make_copy MaxKeys);
       leftValues \<leftarrow> Option.bind (upto_ix tempValues mid) (make_copy MaxKeys);
       Some (midKey, midValue,
             Node leftKeys leftValues leftChildren (isleaf node),
             Node rightKeys rightValues rightChildren (isleaf node))
     }"

text \<open>
  The older \<open>splitNodeWithInsert\<close>, kept in the source beside it: it appends instead of
  copying to a fixed capacity, and always inserts a child into an internal node.
\<close>

definition splitNodeWithInsert ::
  "Node \<Rightarrow> Keytype \<Rightarrow> Valuetype \<Rightarrow> nat \<Rightarrow> Node \<Rightarrow> (Keytype \<times> Valuetype \<times> Node \<times> Node) option" where
  "splitNodeWithInsert node insertKey insertValue insertChildPos insertChild =
     do {
       let insertPos = findindex node insertKey;
       tempKeys \<leftarrow> splice_at (keys node) insertPos insertKey;
       tempValues \<leftarrow> splice_at (vals node) insertPos insertValue;
       let mid = length tempKeys div 2;
       midKey \<leftarrow> at_ix tempKeys mid;
       midValue \<leftarrow> at_ix tempValues mid;
       rightKeys \<leftarrow> from_ix tempKeys (mid + 1);
       rightValues \<leftarrow> from_ix tempValues (mid + 1);
       (leftChildren, rightChildren) \<leftarrow>
         (if \<not> isleaf node then
            do {
              tempChildren \<leftarrow> splice_at (children node) insertChildPos insertChild;
              rc \<leftarrow> from_ix tempChildren (mid + 1);
              lc \<leftarrow> upto_ix tempChildren (mid + 1);
              Some (lc, rc)
            }
          else Some (children node, []));
       leftKeys \<leftarrow> upto_ix tempKeys mid;
       leftValues \<leftarrow> upto_ix tempValues mid;
       Some (midKey, midValue,
             Node leftKeys leftValues leftChildren (isleaf node),
             Node rightKeys rightValues rightChildren (isleaf node))
     }"

section \<open>Insert\<close>

text \<open>What a level of the descent hands to its parent: the node is done, or it split.\<close>

datatype insert_result =
    Done Node
  | Split Node Keytype Valuetype Node

definition insertLeaf :: "Keytype \<Rightarrow> Valuetype \<Rightarrow> Node \<Rightarrow> insert_result option" where
  "insertLeaf key value node =
     (let idx = findindex node key in
      if idx < length (keys node) \<and> bytes_Equal (keys node ! idx) key
      then map_option Done (set_value node idx value)
      else if length (keys node) < MaxKeys
      then map_option Done (insertAt node idx key value)
      else do {
        (midKey, midValue, node', newNode) \<leftarrow> splitNodeSimple node key value None;
        Some (Split node' midKey midValue newNode)
      })"

text \<open>One turn of the upward loop: the parent takes the promoted pair and the new node.\<close>

definition insertUp :: "Node \<Rightarrow> Keytype \<Rightarrow> Valuetype \<Rightarrow> Node \<Rightarrow> insert_result option" where
  "insertUp parent midKey midValue newNode =
     (let childIdx = findindex parent midKey in
      if length (keys parent) < MaxKeys
      then do {
        parent' \<leftarrow> insertAt parent childIdx midKey midValue;
        parent'' \<leftarrow> insertChildAt parent' (childIdx + 1) newNode;
        Some (Done parent'')
      }
      else do {
        (mk, mv, parent', nn) \<leftarrow>
          splitNodeSimple parent midKey midValue (Some (childIdx + 1, newNode));
        Some (Split parent' mk mv nn)
      })"

function (sequential) insertNode :: "Keytype \<Rightarrow> Valuetype \<Rightarrow> Node \<Rightarrow> insert_result option" where
  "insertNode key value (Node ks vs cs leaf) =
     (let node = Node ks vs cs leaf in
      if leaf then insertLeaf key value node
      else do {
        let idx = findindex node key;
        child \<leftarrow> at_ix cs idx;
        r \<leftarrow> insertNode key value child;
        (case r of
           Done child' \<Rightarrow> Some (Done (set_child node idx child'))
         | Split child' midKey midValue newNode \<Rightarrow>
             insertUp (set_child node idx child') midKey midValue newNode)
      })"
  by pat_completeness auto
termination
  by (relation "measure (\<lambda>(k, v, n). size n)")
    (auto dest!: at_ix_mem size_list_estimation' [OF _ order.refl, where f = size])

definition Btree_Insert :: "Btree \<Rightarrow> Keytype \<Rightarrow> Valuetype \<Rightarrow> Btree option" where
  "Btree_Insert tree key value =
     (case root tree of
        None \<Rightarrow>
          do {
            r \<leftarrow> insertAt (NewNode True) 0 key value;
            Some (tree\<lparr>root := Some r\<rparr>)
          }
      | Some node \<Rightarrow>
          do {
            r \<leftarrow> insertNode key value node;
            (case r of
               Done node' \<Rightarrow> Some (tree\<lparr>root := Some node'\<rparr>)
             | Split node' midKey midValue newNode \<Rightarrow>
                 Some (tree\<lparr>root := Some (Node [midKey] [midValue] [node', newNode] False)\<rparr>))
          })"

definition Btree_Put :: "Btree \<Rightarrow> Keytype \<Rightarrow> Valuetype \<Rightarrow> Btree option" where
  "Btree_Put t key value = Btree_Insert t key value"

section \<open>Find\<close>

function (sequential) findNode :: "slice \<Rightarrow> Node \<Rightarrow> (go_error + slice) option" where
  "findNode key (Node ks vs cs leaf) =
     (let pos = findindex (Node ks vs cs leaf) key in
      if pos < length ks \<and> bytes_Equal (ks ! pos) key
      then do { v \<leftarrow> at_ix vs pos; Some (Inr (slice_copy v)) }
      else if leaf then Some (Inl ErrKeyNotFound)
      else if pos \<ge> length cs then Some (Inl ErrInvalidTree)
      else findNode key (cs ! pos))"
  by pat_completeness auto
termination
  by (relation "measure (\<lambda>(k, n). size n)")
    (auto dest!: nth_mem size_list_estimation' [OF _ order.refl, where f = size] simp: not_le)

definition Btree_Find :: "Btree \<Rightarrow> slice \<Rightarrow> (go_error + slice) option" where
  "Btree_Find t key =
     (case root t of
        None \<Rightarrow> Some (Inl ErrKeyNotFound)
      | Some current \<Rightarrow> findNode key current)"

definition Btree_Get :: "Btree \<Rightarrow> slice \<Rightarrow> (go_error + slice) option" where
  "Btree_Get t key = Btree_Find t key"

section \<open>Delete\<close>

text \<open>
  \<open>fillChildAt\<close> refills the child at \<open>pos\<close>: it borrows from the left sibling, else
  from the right sibling, else merges two siblings.
\<close>

definition borrowFromLeft :: "Node \<Rightarrow> nat \<Rightarrow> Node option" where
  "borrowFromLeft n pos =
     do {
       left \<leftarrow> at_ix (children n) (pos - 1);
       right \<leftarrow> at_ix (children n) pos;
       k \<leftarrow> at_ix (keys n) (pos - 1);
       v \<leftarrow> at_ix (vals n) (pos - 1);
       (leftChildren, rightChildren) \<leftarrow>
         (if \<not> isleaf right then
            do {
              c \<leftarrow> at_ix (children left) (length (children left) - 1);
              Some (take (length (children left) - 1) (children left), [c] @ children right)
            }
          else Some (children left, children right));
       lk \<leftarrow> at_ix (keys left) (length (keys left) - 1);
       lv \<leftarrow> at_ix (vals left) (length (vals left) - 1);
       let left' = Node (take (length (keys left) - 1) (keys left))
                     (take (length (vals left) - 1) (vals left)) leftChildren (isleaf left);
       let right' = Node ([k] @ keys right) ([v] @ vals right) rightChildren (isleaf right);
       set_kv (set_child (set_child n (pos - 1) left') pos right') (pos - 1) lk lv
     }"

definition borrowFromRight :: "Node \<Rightarrow> nat \<Rightarrow> Node option" where
  "borrowFromRight n pos =
     do {
       left \<leftarrow> at_ix (children n) pos;
       right \<leftarrow> at_ix (children n) (pos + 1);
       k \<leftarrow> at_ix (keys n) pos;
       v \<leftarrow> at_ix (vals n) pos;
       (leftChildren, rightChildren) \<leftarrow>
         (if \<not> isleaf left then
            do {
              c \<leftarrow> at_ix (children right) 0;
              Some (children left @ [c], drop 1 (children right))
            }
          else Some (children left, children right));
       rk \<leftarrow> at_ix (keys right) 0;
       rv \<leftarrow> at_ix (vals right) 0;
       let left' = Node (keys left @ [k]) (vals left @ [v]) leftChildren (isleaf left);
       let right' = Node (drop 1 (keys right)) (drop 1 (vals right)) rightChildren (isleaf right);
       set_kv (set_child (set_child n pos left') (pos + 1) right') pos rk rv
     }"

definition mergeChildren :: "Node \<Rightarrow> nat \<Rightarrow> Node option" where
  "mergeChildren n pos0 =
     do {
       pos \<leftarrow> (if pos0 \<ge> length (keys n)
                then (if length (keys n) = 0 then None else Some (length (keys n) - 1))
                else Some pos0);
       left \<leftarrow> at_ix (children n) pos;
       right \<leftarrow> at_ix (children n) (pos + 1);
       k \<leftarrow> at_ix (keys n) pos;
       v \<leftarrow> at_ix (vals n) pos;
       let left' = Node (keys left @ [k] @ keys right) (vals left @ [v] @ vals right)
                     (if \<not> isleaf left then children left @ children right else children left)
                     (isleaf left);
       Some (Node (remove_at (keys n) pos) (remove_at (vals n) pos)
               (remove_at ((children n)[pos := left']) (pos + 1)) (isleaf n))
     }"

definition fillChildAt :: "Node \<Rightarrow> nat \<Rightarrow> Node option" where
  "fillChildAt n pos =
     do {
       fromLeft \<leftarrow>
         (if pos > 0
          then map_option (\<lambda>c. length (keys c) > MinKeys) (at_ix (children n) (pos - 1))
          else Some False);
       if fromLeft then borrowFromLeft n pos
       else do {
         fromRight \<leftarrow>
           (if Suc pos < length (children n)
            then map_option (\<lambda>c. length (keys c) > MinKeys) (at_ix (children n) (pos + 1))
            else Some False);
         if fromRight then borrowFromRight n pos
         else mergeChildren n pos
       }
     }"

text \<open>
  The node method \<open>delete\<close>: the returned pair is \<^verbatim>\<open>nil, nil\<close> when nothing was
  deleted, and the caller takes a nil \<^emph>\<open>key\<close> for that.
\<close>

function (sequential) deleteNode ::
  "slice \<Rightarrow> bool \<Rightarrow> Node \<Rightarrow> (Keytype \<times> Valuetype \<times> Node) option" where
  "deleteNode key seek (Node ks vs cs leaf) =
     (let n = Node ks vs cs leaf;
          pos = findindex n key in
      if leaf \<and> seek then removeAt n 0
      else
        let found = (pos < length ks \<and> bytes_Equal (ks ! pos) key) in
        if \<not> found \<and> leaf then Some (NilSlice, NilSlice, n)
        else if found \<and> leaf then removeAt n pos
        else if \<not> found \<and> pos \<ge> length cs then Some (NilSlice, NilSlice, n)
        else do {
          let seek' = (if found then True else seek);
          let idx = (if found then pos + 1 else pos);
          child \<leftarrow> at_ix cs idx;
          (deletedkey, deletedvalue, child') \<leftarrow> deleteNode key seek' child;
          let n1 = set_child n idx child';
          if deletedkey = NilSlice then Some (NilSlice, NilSlice, n1)
          else do {
            n2 \<leftarrow> (if found \<and> seek' then set_kv n1 pos deletedkey deletedvalue else Some n1);
            n3 \<leftarrow> (if length (keys child') < MinKeys
                   then (if found \<and> seek' then fillChildAt n2 (pos + 1) else fillChildAt n2 pos)
                   else Some n2);
            Some (deletedkey, deletedvalue, n3)
          }
        })"
  by pat_completeness auto
termination
  by (relation "measure (\<lambda>(k, s, n). size n)")
    (auto dest!: at_ix_mem size_list_estimation' [OF _ order.refl, where f = size])

definition Btree_Delete :: "Btree \<Rightarrow> slice \<Rightarrow> (bool \<times> Btree) option" where
  "Btree_Delete t key =
     (case root t of
        None \<Rightarrow> Some (False, t)
      | Some r \<Rightarrow>
          do {
            (deletedkey, _, r') \<leftarrow> deleteNode key False r;
            let newRoot =
              (if length (keys r') = 0
               then (if isleaf r' then None
                     else if length (children r') > 0 then Some (children r' ! 0)
                     else Some r')
               else Some r');
            Some (deletedkey \<noteq> NilSlice, t\<lparr>root := newRoot\<rparr>)
          })"

section \<open>Contents, shape and order\<close>

text \<open>In-order traversal of children and keys: child, key, child, key, \dots, child.\<close>

fun interleave :: "'a list list \<Rightarrow> 'a list \<Rightarrow> 'a list" where
  "interleave [] kvs = []"
| "interleave (c # cs) [] = c @ interleave cs []"
| "interleave (c # cs) (kv # kvs) = c @ kv # interleave cs kvs"

fun entries :: "Node \<Rightarrow> (Keytype \<times> Valuetype) list" where
  "entries (Node ks vs cs leaf) =
     (if leaf then zip ks vs else interleave (map entries cs) (zip ks vs))"

text \<open>
  \<open>shape h lo n\<close>: all leaves are \<open>h\<close> levels below, this node has at least \<open>lo\<close>
  keys, every node below it at least \<open>MinKeys\<close>, none more than \<open>MaxKeys\<close>, and an
  internal node has one child more than it has keys.
\<close>

primrec shape :: "nat \<Rightarrow> nat \<Rightarrow> Node \<Rightarrow> bool" where
  "shape 0 lo n \<longleftrightarrow>
     isleaf n \<and> children n = [] \<and> length (vals n) = length (keys n) \<and>
     lo \<le> length (keys n) \<and> length (keys n) \<le> MaxKeys"
| "shape (Suc h) lo n \<longleftrightarrow>
     \<not> isleaf n \<and> length (children n) = Suc (length (keys n)) \<and>
     length (vals n) = length (keys n) \<and>
     lo \<le> length (keys n) \<and> length (keys n) \<le> MaxKeys \<and>
     (\<forall>c \<in> set (children n). shape h MinKeys c)"

abbreviation ekey :: "Keytype \<times> Valuetype \<Rightarrow> bytes" where
  "ekey p \<equiv> bytes_of (fst p)"

definition strict :: "(Keytype \<times> Valuetype) list \<Rightarrow> bool" where
  "strict es \<longleftrightarrow> sorted_wrt (<) (map ekey es)"

text \<open>The keys held by internal nodes.\<close>

fun internal_keys :: "Node \<Rightarrow> Keytype list" where
  "internal_keys (Node ks vs cs leaf) = (if leaf then [] else ks @ concat (map internal_keys cs))"

fun height :: "Node \<Rightarrow> nat" where
  "height (Node ks vs [] leaf) = 0"
| "height (Node ks vs (c # cs) leaf) = (if leaf then 0 else Suc (height c))"

definition tree_entries :: "Btree \<Rightarrow> (Keytype \<times> Valuetype) list" where
  "tree_entries t = (case root t of None \<Rightarrow> [] | Some n \<Rightarrow> entries n)"

definition tree_shape :: "Btree \<Rightarrow> bool" where
  "tree_shape t \<longleftrightarrow> (case root t of None \<Rightarrow> True | Some n \<Rightarrow> shape (height n) 1 n)"

definition tree_internal :: "Btree \<Rightarrow> bytes set" where
  "tree_internal t = (case root t of None \<Rightarrow> {} | Some n \<Rightarrow> bytes_of ` set (internal_keys n))"

definition tree_strict :: "Btree \<Rightarrow> bool" where
  "tree_strict t \<longleftrightarrow> strict (tree_entries t)"

definition tree_keys :: "Btree \<Rightarrow> Keytype set" where
  "tree_keys t = fst ` set (tree_entries t)"

text \<open>The finite map a tree stands for, on key contents.\<close>

definition content :: "(Keytype \<times> Valuetype) list \<Rightarrow> bytes \<Rightarrow> Valuetype option" where
  "content es = map_of (map (\<lambda>p. (ekey p, snd p)) es)"

definition tree_map :: "Btree \<Rightarrow> bytes \<Rightarrow> Valuetype option" where
  "tree_map t = content (tree_entries t)"

end
