(* ===== verification/Btree_Shape.thy ===== *)
theory Btree_Shape
  imports Btree_Model
begin

text \<open>
  Facts on the in-order content, the shape and the order of nodes that the proofs about
  \<open>Find\<close>, \<open>Insert\<close>, \<open>Delete\<close> and \<open>GetRange\<close> share: a node seen from one of
  its children (\<open>before\<close>, \<open>after\<close>) and the search position in a strictly
  ordered node.
\<close>

section \<open>Interleaving children and keys\<close>

abbreviation kvs :: "Node \<Rightarrow> (Keytype \<times> Valuetype) list" where
  "kvs n \<equiv> zip (keys n) (vals n)"

lemma interleave_append:
  "length cs1 = length ks1 \<Longrightarrow>
   interleave (cs1 @ cs2) (ks1 @ ks2) = interleave cs1 ks1 @ interleave cs2 ks2"
  by (induction cs1 ks1 rule: list_induct2) auto

lemma interleave_mid:
  "length cs1 = Suc (length ks1) \<Longrightarrow>
   interleave (cs1 @ cs2) (ks1 @ kv # ks2) = interleave cs1 ks1 @ kv # interleave cs2 ks2"
proof (induction ks1 arbitrary: cs1)
  case Nil
  then show ?case by (cases cs1) auto
next
  case (Cons k ks1)
  then obtain c cs where "cs1 = c # cs" by (cases cs1) auto
  with Cons show ?case by simp
qed

lemma interleave_Cons_left: "interleave ((x @ c) # cs) ks = x @ interleave (c # cs) ks"
  by (cases ks) auto

lemma interleave_Cons_Nil: "interleave (c # cs) ks = c @ interleave ([] # cs) ks"
  using interleave_Cons_left [of c "[]" cs ks] by simp

lemma set_interleave:
  "length ks \<le> length cs \<Longrightarrow> set (interleave cs ks) = (\<Union>c \<in> set cs. set c) \<union> set ks"
  by (induction cs ks rule: interleave.induct) auto

lemma last_interleave:
  "length cs = length ks \<Longrightarrow> ks \<noteq> [] \<Longrightarrow>
   interleave cs ks \<noteq> [] \<and> last (interleave cs ks) = last ks"
  by (induction cs ks rule: list_induct2) (auto simp: neq_Nil_conv)

lemma length_interleave:
  "length ks \<le> length cs \<Longrightarrow> length (interleave cs ks) = sum_list (map length cs) + length ks"
  by (induction cs ks rule: interleave.induct) auto

section \<open>A node seen from one child\<close>

lemma entries_leaf: "isleaf n \<Longrightarrow> entries n = kvs n"
  by (cases n) simp

lemma entries_internal: "\<not> isleaf n \<Longrightarrow> entries n = interleave (map entries (children n)) (kvs n)"
  by (cases n) simp

definition before :: "Node \<Rightarrow> nat \<Rightarrow> (Keytype \<times> Valuetype) list" where
  "before n i = interleave (map entries (take i (children n))) (take i (kvs n))"

definition after :: "Node \<Rightarrow> nat \<Rightarrow> (Keytype \<times> Valuetype) list" where
  "after n i = interleave ([] # map entries (drop (Suc i) (children n))) (drop i (kvs n))"

lemma shape_lens:
  assumes "shape h lo n"
  shows "length (vals n) = length (keys n)" "length (keys n) \<le> 4" "lo \<le> length (keys n)"
  using assms by (cases h; simp)+

lemma shape_child: "shape (Suc h) lo n \<Longrightarrow> i \<le> length (keys n) \<Longrightarrow> shape h 2 (children n ! i)"
  by simp

lemma shape_mono: "shape h lo n \<Longrightarrow> lo' \<le> lo \<Longrightarrow> shape h lo' n"
  by (cases h) auto

lemma shape_lo: "shape h lo n \<Longrightarrow> lo' \<le> length (keys n) \<Longrightarrow> shape h lo' n"
  by (cases h) auto

lemma shape_height: "shape h lo n \<Longrightarrow> height n = h"
proof (induction h arbitrary: lo n)
  case 0
  then show ?case by (cases n) auto
next
  case (Suc h)
  then obtain c cs where "children n = c # cs" by (cases "children n") auto
  with Suc show ?case by (cases n) auto
qed

lemma entries_split:
  assumes "\<not> isleaf n" "length (children n) = Suc (length (keys n))"
    "length (vals n) = length (keys n)" "i \<le> length (keys n)"
  shows "entries (set_child n i c) = before n i @ entries c @ after n i"
proof -
  have cs: "(children n)[i := c] = take i (children n) @ c # drop (Suc i) (children n)"
    using assms by (simp add: upd_conv_take_nth_drop)
  have "entries (set_child n i c) =
      interleave (map entries (take i (children n)) @ map entries (c # drop (Suc i) (children n)))
        (take i (kvs n) @ drop i (kvs n))"
    using assms by (simp only: entries_internal set_child_simps cs map_append append_take_drop_id not_False_eq_True)
  also have "\<dots> = before n i @ interleave (entries c # map entries (drop (Suc i) (children n))) (drop i (kvs n))"
    using assms by (subst interleave_append) (auto simp: before_def)
  finally show ?thesis
    by (simp add: after_def interleave_Cons_Nil [of "entries c"])
qed

lemma set_child_same: "i < length (children n) \<Longrightarrow> set_child n i (children n ! i) = n"
  by (cases n) (simp add: set_child_def)

lemma entries_at:
  assumes "shape (Suc h) lo n" "i \<le> length (keys n)"
  shows "entries n = before n i @ entries (children n ! i) @ after n i"
  using entries_split [of n i "children n ! i"] assms by (simp add: set_child_same)

lemma entries_set_child:
  assumes "shape (Suc h) lo n" "i \<le> length (keys n)"
  shows "entries (set_child n i c) = before n i @ entries c @ after n i"
  using entries_split [of n i c] assms by simp

lemma after_at:
  assumes "i < length (keys n)" "length (vals n) = length (keys n)"
  shows "after n i = (keys n ! i, vals n ! i) #
    interleave (map entries (drop (Suc i) (children n))) (drop (Suc i) (kvs n))"
proof -
  have "drop i (kvs n) = (keys n ! i, vals n ! i) # drop (Suc i) (kvs n)"
    using assms Cons_nth_drop_Suc [of i "kvs n"] by simp
  then show ?thesis by (simp add: after_def)
qed

lemma after_end:
  assumes "shape (Suc h) lo n" "length (keys n) \<le> i"
  shows "after n i = []"
  using assms by (simp add: after_def)

lemma take_keys_before:
  assumes "shape (Suc h) lo n" "i \<le> length (keys n)" "k \<in> set (take i (keys n))"
  shows "\<exists>p \<in> set (before n i). fst p = k"
proof -
  have "map fst (take i (kvs n)) = take i (keys n)"
    using shape_lens(1) [OF assms(1)] by (simp add: take_map [symmetric])
  then have "k \<in> fst ` set (take i (kvs n))"
    using assms(3) by (metis set_map)
  moreover have "set (take i (kvs n)) \<subseteq> set (before n i)"
    using assms by (simp add: before_def set_interleave)
  ultimately show ?thesis by blast
qed

lemma drop_keys_after:
  assumes "shape (Suc h) lo n" "i \<le> length (keys n)" "k \<in> set (drop i (keys n))"
  shows "\<exists>p \<in> set (after n i). fst p = k"
proof -
  have "map fst (drop i (kvs n)) = drop i (keys n)"
    using shape_lens(1) [OF assms(1)] by (simp add: drop_map [symmetric])
  then have "k \<in> fst ` set (drop i (kvs n))"
    using assms(3) by (metis set_map)
  moreover have "set (drop i (kvs n)) \<subseteq> set (after n i)"
    using assms by (simp add: after_def set_interleave)
  ultimately show ?thesis by blast
qed

section \<open>Order\<close>

lemma strict_append:
  "strict (xs @ ys) \<longleftrightarrow> strict xs \<and> strict ys \<and> (\<forall>x \<in> set xs. \<forall>y \<in> set ys. ekey x < ekey y)"
  by (simp add: strict_def sorted_wrt_append)

lemma strict_Cons: "strict (x # xs) \<longleftrightarrow> strict xs \<and> (\<forall>y \<in> set xs. ekey x < ekey y)"
  by (auto simp: strict_def)

lemma strict_Nil [simp]: "strict []"
  by (simp add: strict_def)

lemmas strict_simps = strict_append strict_Cons

lemma strict_last: "strict xs \<Longrightarrow> p \<in> set xs \<Longrightarrow> ekey p \<le> ekey (last xs)"
proof (induction xs rule: rev_induct)
  case (snoc x xs)
  then show ?case by (auto simp: strict_append intro: less_imp_le)
qed simp

lemma strict_distinct: "strict es \<Longrightarrow> distinct (map ekey es)"
  by (simp add: strict_def strict_sorted_iff)

lemma strict_filter: "strict es \<Longrightarrow> strict (filter P es)"
  by (induction es) (auto simp: strict_Cons)

lemma before_less:
  assumes sh: "shape (Suc h) lo n" and st: "strict (entries n)"
    and i: "i = findindex n key" and p: "p \<in> set (before n i)"
  shows "ekey p < bytes_of key"
proof -
  have le: "i \<le> length (keys n)" using i by simp
  have len: "length (kvs n) = length (keys n)" using sh by simp
  have pos: "0 < i"
    using p by (cases i) (auto simp: before_def)
  then have ne: "take i (kvs n) \<noteq> []"
    using le len by auto
  have "last (before n i) = last (take i (kvs n))"
    unfolding before_def using sh le ne len by (intro last_interleave [THEN conjunct2]) auto
  also have "\<dots> = kvs n ! (i - 1)"
    using le len ne pos by (simp add: last_conv_nth)
  finally have last: "ekey (last (before n i)) = bytes_of (keys n ! (i - 1))"
    using le len pos by simp
  have "strict (before n i)"
    using st entries_at [OF sh le] by (simp add: strict_append)
  then have "ekey p \<le> ekey (last (before n i))" using p by (rule strict_last)
  also have "\<dots> < bytes_of key"
    using last findindex_keys_below [of "i - 1" "keys n" key] pos i by (simp add: findindex_def)
  finally show ?thesis .
qed

lemma after_ge:
  assumes sh: "shape (Suc h) lo n" and st: "strict (entries n)"
    and i: "i = findindex n key" and p: "p \<in> set (after n i)"
  shows "bytes_of key \<le> bytes_of (keys n ! i) \<and> bytes_of (keys n ! i) \<le> ekey p \<and> i < length (keys n)"
proof -
  have le: "i \<le> length (keys n)" using i by simp
  have lt: "i < length (keys n)"
    using p after_end [OF sh, of i] le by (cases "i = length (keys n)") auto
  have "strict (after n i)"
    using st entries_at [OF sh le] by (simp add: strict_append)
  then have "bytes_of (keys n ! i) \<le> ekey p"
    using p after_at [OF lt] sh by (auto simp: strict_Cons intro: less_imp_le)
  moreover have "bytes_of key \<le> bytes_of (keys n ! i)"
    using lt i findindex_keys_at [of "keys n" key] by (simp add: findindex_def)
  ultimately show ?thesis using lt by simp
qed

lemma strict_child:
  assumes "shape (Suc h) lo n" "strict (entries n)" "i \<le> length (keys n)"
  shows "strict (entries (children n ! i))"
  using assms entries_at [OF assms(1,3)] by (simp add: strict_append)


lemma child_bounds:
  assumes sh: "shape (Suc h) lo n" and st: "strict (entries n)" and le: "i \<le> length (keys n)"
    and p: "p \<in> set (entries (children n ! i))"
  shows "k \<in> set (take i (keys n)) \<Longrightarrow> bytes_of k < ekey p"
    and "k \<in> set (drop i (keys n)) \<Longrightarrow> ekey p < bytes_of k"
proof -
  have "strict (before n i @ entries (children n ! i) @ after n i)"
    using st entries_at [OF sh le] by metis
  then have *: "\<forall>x \<in> set (before n i). ekey x < ekey p" "\<forall>y \<in> set (after n i). ekey p < ekey y"
    using p by (simp_all add: strict_append)
  show "bytes_of k < ekey p" if "k \<in> set (take i (keys n))"
    using take_keys_before [OF sh le that] *(1) by metis
  show "ekey p < bytes_of k" if "k \<in> set (drop i (keys n))"
    using drop_keys_after [OF sh le that] *(2) by metis
qed

lemma key_bounds:
  assumes sh: "shape (Suc h) lo n" and st: "strict (entries n)" and i: "i = findindex n key"
  shows "k \<in> set (take i (keys n)) \<Longrightarrow> bytes_of k < bytes_of key"
    and "k \<in> set (drop i (keys n)) \<Longrightarrow> bytes_of key \<le> bytes_of (keys n ! i) \<and> bytes_of (keys n ! i) \<le> bytes_of k"
proof -
  have le: "i \<le> length (keys n)" using i by simp
  show "bytes_of k < bytes_of key" if "k \<in> set (take i (keys n))"
    using take_keys_before [OF sh le that] before_less [OF sh st i] by metis
  show "bytes_of key \<le> bytes_of (keys n ! i) \<and> bytes_of (keys n ! i) \<le> bytes_of k"
    if "k \<in> set (drop i (keys n))"
    using drop_keys_after [OF sh le that] after_ge [OF sh st i] by metis
qed

end
