(* ===== verification/Store_Interface.thy ===== *)
theory Store_Interface
  imports Go_Prelude
begin

text \<open>
  The contract of a key-value store, as the layers above a tree rely on it.

  \<open>lookup\<close> is the map a state stands for, on key contents.  \<open>upd_ok s k\<close> names the
  keys at which an insert is an insert-or-update; a provider promises it at least for every
  absent key.  The clients proved here are runs of inserts and deletes, and the idiom
  "delete, then insert", which updates at every key.

  \<open>range_store\<close> adds range queries and range deletes.
\<close>

section \<open>Answers and commands\<close>

text \<open>What \<open>Find\<close> answers for a value or its absence: a fresh copy, or the error.\<close>

definition find_result :: "Valuetype option \<Rightarrow> go_error + slice" where
  "find_result r = (case r of None \<Rightarrow> Inl ErrKeyNotFound | Some v \<Rightarrow> Inr (slice_copy v))"

lemma find_result_simps [simp]:
  "find_result None = Inl ErrKeyNotFound" "find_result (Some v) = Inr (slice_copy v)"
  by (simp_all add: find_result_def)

datatype cmd = CInsert Keytype Valuetype | CDelete Keytype

text \<open>The map after a run of commands.\<close>

primrec map_cmd :: "cmd \<Rightarrow> (bytes \<rightharpoonup> Valuetype) \<Rightarrow> (bytes \<rightharpoonup> Valuetype)" where
  "map_cmd (CInsert k v) m = m(bytes_of k \<mapsto> v)"
| "map_cmd (CDelete k) m = m(bytes_of k := None)"

definition map_cmds :: "cmd list \<Rightarrow> (bytes \<rightharpoonup> Valuetype) \<Rightarrow> (bytes \<rightharpoonup> Valuetype)" where
  "map_cmds cs m = fold map_cmd cs m"

lemma map_cmds_simps [simp]:
  "map_cmds [] m = m" "map_cmds (c # cs) m = map_cmds cs (map_cmd c m)"
  "map_cmds (cs @ ds) m = map_cmds ds (map_cmds cs m)"
  by (simp_all add: map_cmds_def)

text \<open>Every insert of the run adds a key that is absent when its turn comes.\<close>

primrec fresh_cmds :: "(bytes \<rightharpoonup> Valuetype) \<Rightarrow> cmd list \<Rightarrow> bool" where
  "fresh_cmds m [] \<longleftrightarrow> True"
| "fresh_cmds m (c # cs) \<longleftrightarrow>
     (case c of CInsert k v \<Rightarrow> k \<noteq> NilSlice \<and> m (bytes_of k) = None | CDelete k \<Rightarrow> True) \<and>
     fresh_cmds (map_cmd c m) cs"

text \<open>Running the commands on a store given by its insert and delete.\<close>

primrec run_cmd ::
  "('s \<Rightarrow> Keytype \<Rightarrow> Valuetype \<Rightarrow> 's option) \<Rightarrow> ('s \<Rightarrow> Keytype \<Rightarrow> (bool \<times> 's) option) \<Rightarrow> cmd \<Rightarrow> 's \<Rightarrow> 's option" where
  "run_cmd ins del (CInsert k v) s = ins s k v"
| "run_cmd ins del (CDelete k) s = map_option snd (del s k)"

primrec run_cmds ::
  "('s \<Rightarrow> Keytype \<Rightarrow> Valuetype \<Rightarrow> 's option) \<Rightarrow> ('s \<Rightarrow> Keytype \<Rightarrow> (bool \<times> 's) option) \<Rightarrow> cmd list \<Rightarrow> 's \<Rightarrow> 's option" where
  "run_cmds ins del [] s = Some s"
| "run_cmds ins del (c # cs) s = do { s' \<leftarrow> run_cmd ins del c s; run_cmds ins del cs s' }"

text \<open>
  The loop of the range deletes: \<^verbatim>\<open>for _, key := range keys { if Delete(key) { deletedCount++ } }\<close>.
\<close>

primrec delete_each ::
  "('s \<Rightarrow> Keytype \<Rightarrow> (bool \<times> 's) option) \<Rightarrow> 's \<Rightarrow> Keytype list \<Rightarrow> nat \<Rightarrow> (nat \<times> 's) option" where
  "delete_each del s [] deletedCount = Some (deletedCount, s)"
| "delete_each del s (key # rest) deletedCount =
     do {
       (deleted, s') \<leftarrow> del s key;
       delete_each del s' rest (if deleted then deletedCount + 1 else deletedCount)
     }"

section \<open>The store\<close>

locale kv_store =
  fixes inv :: "'s \<Rightarrow> bool"
    and lookup :: "'s \<Rightarrow> bytes \<Rightarrow> Valuetype option"
    and upd_ok :: "'s \<Rightarrow> bytes \<Rightarrow> bool"
    and ins :: "'s \<Rightarrow> Keytype \<Rightarrow> Valuetype \<Rightarrow> 's option"
    and del :: "'s \<Rightarrow> Keytype \<Rightarrow> (bool \<times> 's) option"
    and fnd :: "'s \<Rightarrow> Keytype \<Rightarrow> ((go_error + Valuetype) \<times> 's) option"
  assumes find_law: "inv s \<Longrightarrow>
      \<exists>s'. fnd s k = Some (find_result (lookup s (bytes_of k)), s') \<and> inv s' \<and> lookup s' = lookup s"
    and insert_law: "inv s \<Longrightarrow> k \<noteq> NilSlice \<Longrightarrow> upd_ok s (bytes_of k) \<Longrightarrow>
      \<exists>s'. ins s k v = Some s' \<and> inv s' \<and> lookup s' = (lookup s)(bytes_of k \<mapsto> v)"
    and fresh_ok: "inv s \<Longrightarrow> lookup s b = None \<Longrightarrow> upd_ok s b"
    and delete_law: "inv s \<Longrightarrow>
      \<exists>s'. del s k = Some (lookup s (bytes_of k) \<noteq> None, s') \<and> inv s' \<and>
           lookup s' = (lookup s)(bytes_of k := None)"
begin

lemma insert_fresh:
  assumes "inv s" "k \<noteq> NilSlice" "lookup s (bytes_of k) = None"
  shows "\<exists>s'. ins s k v = Some s' \<and> inv s' \<and> lookup s' = (lookup s)(bytes_of k \<mapsto> v)"
  using assms by (intro insert_law fresh_ok)

lemma run_cmd_fresh:
  assumes "inv s" "fresh_cmds (lookup s) [c]"
  shows "\<exists>s'. run_cmd ins del c s = Some s' \<and> inv s' \<and> lookup s' = map_cmd c (lookup s)"
proof (cases c)
  case (CInsert k v)
  with assms show ?thesis using insert_fresh [of s k v] by auto
next
  case (CDelete k)
  with assms show ?thesis using delete_law [of s k] by auto
qed

lemma run_cmds_fresh:
  "inv s \<Longrightarrow> fresh_cmds (lookup s) cs \<Longrightarrow>
   \<exists>s'. run_cmds ins del cs s = Some s' \<and> inv s' \<and> lookup s' = map_cmds cs (lookup s)"
proof (induction cs arbitrary: s)
  case (Cons c cs)
  from Cons.prems obtain s1 where
    s1: "run_cmd ins del c s = Some s1" "inv s1" "lookup s1 = map_cmd c (lookup s)"
    using run_cmd_fresh [of s c] by auto
  with Cons.prems obtain s' where "run_cmds ins del cs s1 = Some s'" "inv s'"
      "lookup s' = map_cmds cs (lookup s1)"
    using Cons.IH [of s1] by auto
  with s1 show ?case by simp
qed simp

lemma replace_any:
  assumes "inv s" "k \<noteq> NilSlice"
  shows "\<exists>s'. run_cmds ins del [CDelete k, CInsert k v] s = Some s' \<and> inv s' \<and>
    lookup s' = (lookup s)(bytes_of k \<mapsto> v)"
  using run_cmds_fresh [of s "[CDelete k, CInsert k v]"] assms by simp

lemma find_after_run:
  assumes "inv s" "fresh_cmds (lookup s) cs"
  shows "\<exists>s1 s2. run_cmds ins del cs s = Some s1 \<and>
    fnd s1 k = Some (find_result (map_cmds cs (lookup s) (bytes_of k)), s2)"
  using run_cmds_fresh [OF assms] find_law by metis

end

section \<open>Range queries\<close>

text \<open>The part of a map between two bounds, both included.\<close>

definition map_range :: "slice \<Rightarrow> slice \<Rightarrow> (bytes \<rightharpoonup> Valuetype) \<Rightarrow> (bytes \<rightharpoonup> Valuetype)" where
  "map_range lo hi m = (\<lambda>k. if bytes_of lo \<le> k \<and> k \<le> bytes_of hi then m k else None)"

definition map_outside :: "slice \<Rightarrow> slice \<Rightarrow> (bytes \<rightharpoonup> Valuetype) \<Rightarrow> (bytes \<rightharpoonup> Valuetype)" where
  "map_outside lo hi m = (\<lambda>k. if bytes_of lo \<le> k \<and> k \<le> bytes_of hi then None else m k)"

text \<open>
  \<open>lists_map ks vs m\<close>: the two parallel output slices list the map \<open>m\<close> in strictly
  increasing key order, each pair once, with fresh copies of the values.
\<close>

definition lists_map :: "Keytype list \<Rightarrow> Valuetype list \<Rightarrow> (bytes \<rightharpoonup> Valuetype) \<Rightarrow> bool" where
  "lists_map ks vs m \<longleftrightarrow>
     length ks = length vs \<and> sorted_wrt (<) (map bytes_of ks) \<and>
     NilSlice \<notin> set ks \<and> map_of (zip (map bytes_of ks) vs) = map_option slice_copy \<circ> m"

lemma lists_map_dom:
  assumes "lists_map ks vs m"
  shows "set (map bytes_of ks) = dom m"
proof -
  have "dom m = dom (map_option slice_copy \<circ> m)" by (auto simp: dom_def)
  also have "\<dots> = dom (map_of (zip (map bytes_of ks) vs))"
    using assms by (simp only: lists_map_def)
  also have "\<dots> = set (map bytes_of ks)"
    by (intro dom_map_of_zip) (use assms in \<open>simp add: lists_map_def\<close>)
  finally show ?thesis ..
qed

text \<open>There is one such listing.\<close>

lemma lists_map_unique:
  assumes "lists_map ks vs m" "lists_map ks' vs' m"
  shows "ks = ks' \<and> vs = vs'"
proof -
  have b: "map bytes_of ks = map bytes_of ks'"
    using assms lists_map_dom [OF assms(1)] lists_map_dom [OF assms(2)]
    by (intro strict_sorted_equal) (simp_all add: lists_map_def)
  have eq: "ks = map Bytes (map bytes_of ks)" if "lists_map ks vs m" for ks vs
    using that by (auto simp: lists_map_def intro!: map_idI [symmetric]) (metis bytes_of.simps(2) slice.exhaust)
  have "ks = ks'" using eq [OF assms(1)] eq [OF assms(2)] b by simp
  moreover have "vs = vs'"
  proof (rule map_of_zip_inject)
    show "map_of (zip (map bytes_of ks) vs) = map_of (zip (map bytes_of ks) vs')"
      using assms b by (simp add: lists_map_def)
    show "distinct (map bytes_of ks)" using assms(1) by (simp add: lists_map_def strict_sorted_iff)
  qed (use assms b in \<open>auto simp: lists_map_def dest: arg_cong [where f = length]\<close>)
  ultimately show ?thesis ..
qed

lemma lists_map_length:
  assumes "lists_map ks vs m"
  shows "length ks = card (dom m)"
proof -
  have "card (set (map bytes_of ks)) = length (map bytes_of ks)"
    using assms by (intro distinct_card) (simp add: lists_map_def strict_sorted_iff)
  then show ?thesis using lists_map_dom [OF assms] by simp
qed

locale range_store = kv_store inv lookup upd_ok ins del fnd
  for inv :: "'s \<Rightarrow> bool" and lookup upd_ok ins del fnd +
  fixes rng :: "'s \<Rightarrow> slice \<Rightarrow> slice \<Rightarrow> (go_error + Keytype list \<times> Valuetype list) option"
  assumes range_law: "inv s \<Longrightarrow> bytes_of lo \<le> bytes_of hi \<Longrightarrow>
      \<exists>ks vs. rng s lo hi = Some (Inr (ks, vs)) \<and> lists_map ks vs (map_range lo hi (lookup s))"
begin

text \<open>Two states that stand for the same map answer every range query alike.\<close>

lemma range_determined:
  assumes "inv s" "inv s'" "lookup s = lookup s'" "bytes_of lo \<le> bytes_of hi"
  shows "rng s lo hi = rng s' lo hi"
  using range_law [OF assms(1,4)] range_law [OF assms(2,4)] assms(3) lists_map_unique by metis

lemma range_after_run:
  assumes "inv s" "fresh_cmds (lookup s) cs" "bytes_of lo \<le> bytes_of hi"
  shows "\<exists>s1 ks vs. run_cmds ins del cs s = Some s1 \<and> rng s1 lo hi = Some (Inr (ks, vs)) \<and>
    lists_map ks vs (map_range lo hi (map_cmds cs (lookup s)))"
  using run_cmds_fresh [OF assms(1,2)] range_law [OF _ assms(3)] by metis

text \<open>Deleting, one after the other, keys that are present and differ from each other.\<close>

lemma delete_each_listed:
  assumes "inv s" "distinct (map bytes_of ks)" "set (map bytes_of ks) \<subseteq> dom (lookup s)"
  shows "\<exists>s'. delete_each del s ks n = Some (n + length ks, s') \<and> inv s' \<and>
    lookup s' = (\<lambda>k. if k \<in> set (map bytes_of ks) then None else lookup s k)"
  using assms
proof (induction ks arbitrary: s n)
  case (Cons k ks)
  obtain s1 where s1: "del s k = Some (True, s1)" "inv s1" "lookup s1 = (lookup s)(bytes_of k := None)"
    using delete_law [OF Cons.prems(1), of k] Cons.prems(3) by auto
  have "set (map bytes_of ks) \<subseteq> dom (lookup s1)"
    using Cons.prems(2,3) s1(3) by (auto simp: image_iff)
  with Cons.IH [of s1 "n + 1"] Cons.prems(2) s1(2) obtain s' where
    "delete_each del s1 ks (n + 1) = Some (n + 1 + length ks, s')" "inv s'"
    "lookup s' = (\<lambda>k. if k \<in> set (map bytes_of ks) then None else lookup s1 k)" by auto
  with s1 show ?case by (auto simp: fun_eq_iff)
qed simp

text \<open>A range delete: query the range, then delete what the query returned.\<close>

lemma delete_range:
  assumes "inv s" "bytes_of lo \<le> bytes_of hi"
  shows "\<exists>ks vs s'. rng s lo hi = Some (Inr (ks, vs)) \<and>
    delete_each del s ks 0 = Some (card (dom (map_range lo hi (lookup s))), s') \<and> inv s' \<and>
    lookup s' = map_outside lo hi (lookup s)"
proof -
  obtain ks vs where r: "rng s lo hi = Some (Inr (ks, vs))" "lists_map ks vs (map_range lo hi (lookup s))"
    using range_law [OF assms] by blast
  note dom = lists_map_dom [OF r(2)]
  have "distinct (map bytes_of ks)" using r(2) by (simp add: lists_map_def strict_sorted_iff)
  moreover have "set (map bytes_of ks) \<subseteq> dom (lookup s)"
    unfolding dom by (auto simp: map_range_def split: if_splits)
  ultimately obtain s' where s': "delete_each del s ks 0 = Some (0 + length ks, s')" "inv s'"
    "lookup s' = (\<lambda>k. if k \<in> set (map bytes_of ks) then None else lookup s k)"
    using delete_each_listed [OF assms(1)] by blast
  have "lookup s' = map_outside lo hi (lookup s)"
    unfolding s'(3) dom by (auto simp: fun_eq_iff map_range_def map_outside_def dom_def)
  with r(1) s' lists_map_length [OF r(2)] show ?thesis by auto
qed

end

end
