(* ===== verification/Btree_Find.thy ===== *)
theory Btree_Find
  imports Btree_Shape Store_Interface
begin

text \<open>
  \<open>Find\<close> is total on every well-shaped tree, and on a strictly ordered one it is the
  lookup of the map the tree stands for.
\<close>

section \<open>The content map\<close>

lemma content_Nil [simp]: "content [] = Map.empty"
  by (simp add: content_def)

lemma content_Cons: "content (p # es) = (content es)(ekey p \<mapsto> snd p)"
  by (simp add: content_def)

lemma content_append: "content (xs @ ys) = content ys ++ content xs"
  by (simp add: content_def)

lemma content_None_iff: "content es k = None \<longleftrightarrow> k \<notin> ekey ` set es"
  by (simp add: content_def map_of_eq_None_iff image_image)

lemma dom_content: "dom (content es) = ekey ` set es"
  by (auto simp: dom_def content_None_iff)

lemma content_absent: "(\<And>p. p \<in> set es \<Longrightarrow> ekey p \<noteq> k) \<Longrightarrow> content es k = None"
  by (auto simp: content_None_iff)

lemma content_filter: "content (filter (\<lambda>p. P (ekey p)) es) k = (if P k then content es k else None)"
  by (induction es) (auto simp: content_Cons)

lemma content_in: "strict es \<Longrightarrow> content es k = Some v \<longleftrightarrow> (\<exists>s. (s, v) \<in> set es \<and> bytes_of s = k)"
  using strict_distinct [of es]
  by (force simp: content_def map_of_eq_Some_iff [of "map (\<lambda>p. (ekey p, snd p)) es"] comp_def)

section \<open>Find\<close>

lemma findNode_unfold:
  "findNode key n =
     (let pos = findindex n key in
      if pos < length (keys n) \<and> bytes_Equal (keys n ! pos) key
      then do { v \<leftarrow> at_ix (vals n) pos; Some (Inr (slice_copy v)) }
      else if isleaf n then Some (Inl ErrKeyNotFound)
      else if pos \<ge> length (children n) then Some (Inl ErrInvalidTree)
      else findNode key (children n ! pos))"
  by (cases n) (simp add: Let_def)

lemma leaf_content_at:
  assumes "strict (entries n)" "shape 0 lo n" "pos = findindex n key"
  shows "content (entries n) (bytes_of key) =
    (if pos < length (keys n) \<and> bytes_of (keys n ! pos) = bytes_of key then Some (vals n ! pos) else None)"
proof -
  have n: "entries n = kvs n" "length (vals n) = length (keys n)"
    using assms(2) by (simp_all add: entries_leaf)
  show ?thesis
  proof (cases "pos < length (keys n) \<and> bytes_of (keys n ! pos) = bytes_of key")
    case True
    then have "(keys n ! pos, vals n ! pos) \<in> set (entries n)"
      using n by (auto simp: in_set_zip)
    then show ?thesis using True content_in [OF assms(1)] by auto
  next
    case False
    have "ekey p \<noteq> bytes_of key" if "p \<in> set (entries n)" for p
    proof -
      from that n obtain i where i: "i < length (keys n)" "p = kvs n ! i"
        by (metis in_set_conv_nth length_zip min.idem)
      show ?thesis
      proof (cases "i < pos")
        case True
        then show ?thesis
          using i n findindex_keys_below [of i "keys n" key] assms(3) by (auto simp: findindex_def)
      next
        case ge: False
        then have "ekey (kvs n ! pos) \<le> ekey (kvs n ! i)"
          using assms(1) i n sorted_wrt_nth_less [of "(<)" "map ekey (kvs n)" pos i]
          by (cases "pos = i") (auto simp: strict_def intro: less_imp_le)
        moreover have "bytes_of key < bytes_of (keys n ! pos)"
          using False ge i findindex_keys_at [of "keys n" key] assms(3)
          by (auto simp: findindex_def order.strict_iff_order)
        ultimately show ?thesis using ge i n by auto
      qed
    qed
    then have "content (entries n) (bytes_of key) = None" by (rule content_absent)
    then show ?thesis using False by simp
  qed
qed

lemma internal_content_at:
  assumes sh: "shape (Suc h) lo n" and st: "strict (entries n)" and pos: "pos = findindex n key"
  shows "content (entries n) (bytes_of key) =
    (if pos < length (keys n) \<and> bytes_of (keys n ! pos) = bytes_of key then Some (vals n ! pos)
     else content (entries (children n ! pos)) (bytes_of key))"
proof -
  have le: "pos \<le> length (keys n)" using pos by simp
  note E = entries_at [OF sh le]
  have b: "content (before n pos) (bytes_of key) = None"
    by (rule content_absent) (use before_less [OF sh st pos] in force)
  show ?thesis
  proof (cases "pos < length (keys n) \<and> bytes_of (keys n ! pos) = bytes_of key")
    case True
    have c: "content (entries (children n ! pos)) (bytes_of key) = None"
      by (rule content_absent) (use st E after_at [of pos n] sh True in \<open>force simp: strict_simps\<close>)
    have a: "content (after n pos) (bytes_of key) = Some (vals n ! pos)"
      using True sh by (simp add: after_at content_Cons)
    show ?thesis using True a b c by (simp add: E content_append map_add_def)
  next
    case False
    have a: "content (after n pos) (bytes_of key) = None"
      by (rule content_absent) (use after_ge [OF sh st pos] False in force)
    show ?thesis using False a b by (auto simp: E content_append map_add_def split: option.splits)
  qed
qed

lemma findNode_content:
  "shape h lo n \<Longrightarrow> strict (entries n) \<Longrightarrow>
   findNode key n = Some (find_result (content (entries n) (bytes_of key)))"
proof (induction h arbitrary: lo n)
  case 0
  then show ?case
    using leaf_content_at [OF 0(2,1) refl, of key]
    by (subst findNode_unfold) (auto simp: Let_def go_simps)
next
  case (Suc h)
  let ?pos = "findindex n key"
  have IH: "findNode key (children n ! ?pos) =
      Some (find_result (content (entries (children n ! ?pos)) (bytes_of key)))"
    by (rule Suc.IH [OF shape_child [OF Suc.prems(1)] strict_child [OF Suc.prems]]) simp_all
  show ?case
    using Suc.prems(1) IH internal_content_at [OF Suc.prems refl, of key] findindex_le [of n key]
    by (subst findNode_unfold) (auto simp: Let_def go_simps simp del: findindex_le)
qed

lemma findNode_total:
  "shape h lo n \<Longrightarrow> \<exists>r. findNode key n = Some r \<and> r \<noteq> Inl ErrInvalidTree"
proof (induction h arbitrary: lo n)
  case 0
  then show ?case by (subst findNode_unfold) (auto simp: Let_def go_simps)
next
  case (Suc h)
  have "\<exists>r. findNode key (children n ! findindex n key) = Some r \<and> r \<noteq> Inl ErrInvalidTree"
    by (rule Suc.IH [OF shape_child [OF Suc.prems]]) simp
  then show ?case
    using Suc.prems findindex_le [of n key]
    by (subst findNode_unfold) (auto simp: Let_def go_simps simp del: findindex_le)
qed

lemma Btree_Find_map:
  assumes "tree_shape t" "tree_strict t"
  shows "Btree_Find t key = Some (find_result (tree_map t (bytes_of key)))"
  using assms findNode_content
  by (auto simp: Btree_Find_def tree_shape_def tree_strict_def tree_map_def tree_entries_def
      split: option.splits)

lemma Btree_Find_total:
  "tree_shape t \<Longrightarrow> \<exists>r. Btree_Find t key = Some r \<and> r \<noteq> Inl ErrInvalidTree"
  using findNode_total
  by (fastforce simp: Btree_Find_def tree_shape_def split: option.splits)

end
