(* ===== verification/Btree_Insert.thy ===== *)
theory Btree_Insert
  imports Btree_Find
begin

text \<open>
  \<open>Insert\<close>: it never panics on a well-shaped tree and keeps the shape, whatever the keys
  are.  On a strictly ordered tree it is an upsert when the key is not held by an internal
  node, and stores a second copy of the key when it is.
\<close>

section \<open>The node operations, evaluated\<close>

definition split_up :: "Keytype list \<Rightarrow> Valuetype list \<Rightarrow> Node list \<Rightarrow> bool \<Rightarrow> insert_result" where
  "split_up ks vs cs leaf =
     Split (Node (take 2 ks) (take 2 vs) (take 3 cs) leaf) (ks ! 2) (vs ! 2)
       (Node (drop 3 ks) (drop 3 vs) (drop 3 cs) leaf)"

definition finish :: "Keytype list \<Rightarrow> Valuetype list \<Rightarrow> Node list \<Rightarrow> bool \<Rightarrow> insert_result" where
  "finish ks vs cs leaf = (if length ks \<le> 4 then Done (Node ks vs cs leaf) else split_up ks vs cs leaf)"

lemma insertAt_in:
  "i \<le> length (keys n) \<Longrightarrow> length (vals n) = length (keys n) \<Longrightarrow>
   insertAt n i k v = Some (Node (insert_at (keys n) i k) (insert_at (vals n) i v) (children n) (isleaf n))"
  by (simp add: insertAt_def)

lemma splitNodeSimple_leaf:
  assumes "length (keys n) = 4" "length (vals n) = 4" "isleaf n" "children n = []"
  shows "splitNodeSimple n k v None = Some
    ((insert_at (keys n) (findindex n k) k) ! 2, (insert_at (vals n) (findindex n k) v) ! 2,
     Node (take 2 (insert_at (keys n) (findindex n k) k)) (take 2 (insert_at (vals n) (findindex n k) v)) [] True,
     Node (drop 3 (insert_at (keys n) (findindex n k) k)) (drop 3 (insert_at (vals n) (findindex n k) v)) [] True)"
  using assms findindex_le [of n k]
  by (simp add: splitNodeSimple_def Let_def go_simps make_copy_def)

lemma splitNodeSimple_internal:
  assumes "length (keys n) = 4" "length (vals n) = 4" "\<not> isleaf n" "length (children n) = 5" "p \<le> 5"
  shows "splitNodeSimple n k v (Some (p, c)) = Some
    ((insert_at (keys n) (findindex n k) k) ! 2, (insert_at (vals n) (findindex n k) v) ! 2,
     Node (take 2 (insert_at (keys n) (findindex n k) k)) (take 2 (insert_at (vals n) (findindex n k) v))
       (take 3 (insert_at (children n) p c)) False,
     Node (drop 3 (insert_at (keys n) (findindex n k) k)) (drop 3 (insert_at (vals n) (findindex n k) v))
       (drop 3 (insert_at (children n) p c)) False)"
  using assms findindex_le [of n k]
  by (simp add: splitNodeSimple_def Let_def go_simps make_copy_def)

lemma insertLeaf_eq:
  assumes "shape 0 lo n" "i = findindex n k"
  shows "insertLeaf k v n = Some
    (if i < length (keys n) \<and> bytes_of (keys n ! i) = bytes_of k
     then Done (Node (keys n) ((vals n)[i := v]) [] True)
     else finish (insert_at (keys n) i k) (insert_at (vals n) i v) [] True)"
  using assms shape_lens(2) [OF assms(1)] splitNodeSimple_leaf [of n k v]
  by (auto simp: insertLeaf_def Let_def set_value_def go_simps insertAt_in finish_def split_up_def)

lemma insertUp_eq:
  assumes "\<not> isleaf n" "length (vals n) = length (keys n)" "length (keys n) \<le> 4"
    "length (children n) = Suc (length (keys n))" "i = findindex n k"
  shows "insertUp n k v c = Some
    (finish (insert_at (keys n) i k) (insert_at (vals n) i v) (insert_at (children n) (Suc i) c) False)"
  using assms splitNodeSimple_internal [of n "Suc i" k v c] findindex_le [of n k]
  by (auto simp: insertUp_def Let_def insertAt_in insertChildAt_def finish_def split_up_def
      simp del: findindex_le)

lemma insertNode_unfold:
  "insertNode key value n =
     (if isleaf n then insertLeaf key value n
      else do {
        let idx = findindex n key;
        child \<leftarrow> at_ix (children n) idx;
        r \<leftarrow> insertNode key value child;
        (case r of
           Done child' \<Rightarrow> Some (Done (set_child n idx child'))
         | Split child' midKey midValue newNode \<Rightarrow>
             insertUp (set_child n idx child') midKey midValue newNode)
      })"
  by (cases n) (simp add: Let_def)

section \<open>Shape is kept, whatever the keys\<close>

primrec rshape :: "nat \<Rightarrow> nat \<Rightarrow> insert_result \<Rightarrow> bool" where
  "rshape h lo (Done n) \<longleftrightarrow> shape h lo n"
| "rshape h lo (Split l k v r) \<longleftrightarrow> shape h 2 l \<and> shape h 2 r"

lemma finish_shape_leaf:
  "length vs = length ks \<Longrightarrow> lo \<le> length ks \<Longrightarrow> length ks \<le> 5 \<Longrightarrow> rshape 0 lo (finish ks vs [] True)"
  by (auto simp: finish_def split_up_def)

lemma finish_shape_internal:
  assumes "length vs = length ks" "lo \<le> length ks" "length ks \<le> 5"
    "length cs = Suc (length ks)" "\<forall>c \<in> set cs. shape h 2 c"
  shows "rshape (Suc h) lo (finish ks vs cs False)"
  using assms by (auto simp: finish_def split_up_def dest!: in_set_takeD in_set_dropD)

lemma insertNode_shape:
  "shape h lo n \<Longrightarrow> \<exists>r. insertNode k v n = Some r \<and> rshape h lo r"
proof (induction h arbitrary: lo n)
  case 0
  then show ?case
    using insertLeaf_eq [OF 0 refl, of k v]
    by (subst insertNode_unfold) (auto intro!: finish_shape_leaf)
next
  case (Suc h)
  let ?i = "findindex n k"
  have i: "?i < length (children n)" using Suc.prems by (simp add: le_imp_less_Suc)
  from Suc.IH [OF shape_child [OF Suc.prems findindex_le]] obtain r where
    r: "insertNode k v (children n ! ?i) = Some r" "rshape h 2 r" by blast
  show ?case
  proof (cases r)
    case (Done c)
    with r have "shape h 2 c" by simp
    then have "shape (Suc h) lo (set_child n ?i c)"
      using Suc.prems by (auto dest: set_update_subset_insert [THEN subsetD])
    then show ?thesis
      using Done r(1) Suc.prems i by (subst insertNode_unfold) (simp add: go_simps)
  next
    case (Split l mk mv nn)
    let ?p = "set_child n ?i l"
    let ?cs = "insert_at (children ?p) (Suc (findindex ?p mk)) nn"
    have cs: "\<forall>c \<in> set ?cs. shape h 2 c"
      using r(2) Split Suc.prems by (auto dest: set_update_subset_insert [THEN subsetD])
    have "rshape (Suc h) lo (finish (insert_at (keys ?p) (findindex ?p mk) mk)
        (insert_at (vals ?p) (findindex ?p mk) mv) ?cs False)"
      by (rule finish_shape_internal) (use Suc.prems cs in auto)
    moreover have "insertUp ?p mk mv nn = Some (finish (insert_at (keys ?p) (findindex ?p mk) mk)
        (insert_at (vals ?p) (findindex ?p mk) mv) ?cs False)"
      by (rule insertUp_eq) (use Suc.prems in auto)
    ultimately show ?thesis
      using Split r(1) Suc.prems i by (subst insertNode_unfold) (simp add: go_simps)
  qed
qed

lemma Btree_Insert_shape:
  assumes "tree_shape t"
  shows "\<exists>t'. Btree_Insert t k v = Some t' \<and> tree_shape t'"
proof (cases "root t")
  case None
  then show ?thesis
    by (simp add: Btree_Insert_def NewNode_def insertAt_def tree_shape_def insert_at_def)
next
  case (Some n)
  with assms have sh: "shape (height n) 1 n" by (simp add: tree_shape_def)
  from insertNode_shape [OF this, of k v] obtain r where
    r: "insertNode k v n = Some r" "rshape (height n) 1 r" by blast
  show ?thesis
  proof (cases r)
    case (Done n')
    with r show ?thesis
      using Some shape_height [of "height n" 1 n'] by (simp add: Btree_Insert_def tree_shape_def)
  next
    case (Split l mk mv nn)
    with r have "shape (Suc (height n)) 1 (Node [mk] [mv] [l, nn] False)" by simp
    then show ?thesis
      using Some Split r shape_height by (fastforce simp: Btree_Insert_def tree_shape_def)
  qed
qed


section \<open>Content on a strictly ordered tree\<close>

primrec flat :: "insert_result \<Rightarrow> (Keytype \<times> Valuetype) list" where
  "flat (Done n) = entries n"
| "flat (Split l k v r) = entries l @ (k, v) # entries r"

lemma interleave_take_drop:
  assumes "length cs = Suc (length ks)" "m < length ks"
  shows "interleave cs ks =
    interleave (take (Suc m) cs) (take m ks) @ ks ! m # interleave (drop (Suc m) cs) (drop (Suc m) ks)"
proof -
  have "interleave cs ks =
      interleave (take (Suc m) cs @ drop (Suc m) cs) (take m ks @ ks ! m # drop (Suc m) ks)"
    using assms by (simp add: id_take_nth_drop [symmetric])
  then show ?thesis using assms by (simp only: interleave_mid length_take length_append)
qed

lemma finish_flat_leaf:
  assumes "length vs = length ks" "length ks \<le> 5"
  shows "flat (finish ks vs [] True) = zip ks vs"
proof (cases "length ks \<le> 4")
  case False
  then have "2 < length (zip ks vs)" using assms by simp
  then have "zip ks vs = take 2 (zip ks vs) @ zip ks vs ! 2 # drop 3 (zip ks vs)"
    using id_take_nth_drop [of 2 "zip ks vs"] by simp
  then show ?thesis using assms False by (simp add: finish_def split_up_def take_zip drop_zip)
qed (simp add: finish_def)

lemma finish_flat_internal:
  assumes "length vs = length ks" "length ks \<le> 5" "length cs = Suc (length ks)"
  shows "flat (finish ks vs cs False) = interleave (map entries cs) (zip ks vs)"
proof (cases "length ks \<le> 4")
  case False
  then have "interleave (map entries cs) (zip ks vs) =
      interleave (take 3 (map entries cs)) (take 2 (zip ks vs)) @
      zip ks vs ! 2 # interleave (drop 3 (map entries cs)) (drop 3 (zip ks vs))"
    using interleave_take_drop [of "map entries cs" "zip ks vs" 2] assms by simp
  then show ?thesis
    using assms False by (simp add: finish_def split_up_def take_zip drop_zip take_map drop_map)
qed (simp add: finish_def)

text \<open>Splicing a promoted pair and the new node next to the child that split.\<close>

lemma interleave_splice:
  assumes "length cs = Suc (length ks)" "i \<le> length ks"
  shows "interleave (insert_at (cs[i := l]) (Suc i) r) (insert_at ks i kv) =
    interleave (take i cs) (take i ks) @ l @ kv # r @ interleave ([] # drop (Suc i) cs) (drop i ks)"
proof -
  have cs: "insert_at (cs[i := l]) (Suc i) r = take i cs @ l # r # drop (Suc i) cs"
    using assms by (simp add: insert_at_def upd_conv_take_nth_drop)
  have ks: "insert_at ks i kv = take i ks @ kv # drop i ks" by (simp add: insert_at_def)
  show ?thesis
    unfolding cs ks using assms by (simp add: interleave_append interleave_Cons_Nil [of r])
qed

text \<open>The specification: upsert, and the insertion of a second copy before the first.\<close>

definition upsert :: "Keytype \<Rightarrow> Valuetype \<Rightarrow> (Keytype \<times> Valuetype) list \<Rightarrow> (Keytype \<times> Valuetype) list" where
  "upsert key v es =
     filter (\<lambda>p. ekey p < bytes_of key) es @
     (case find (\<lambda>p. ekey p = bytes_of key) es of None \<Rightarrow> (key, v) | Some p \<Rightarrow> (fst p, v)) #
     filter (\<lambda>p. bytes_of key < ekey p) es"

definition insert_copy :: "Keytype \<Rightarrow> Valuetype \<Rightarrow> (Keytype \<times> Valuetype) list \<Rightarrow> (Keytype \<times> Valuetype) list" where
  "insert_copy key v es =
     filter (\<lambda>p. ekey p < bytes_of key) es @ (key, v) # filter (\<lambda>p. bytes_of key \<le> ekey p) es"

lemma find_append: "find P (xs @ ys) = (case find P xs of None \<Rightarrow> find P ys | Some x \<Rightarrow> Some x)"
  by (induction xs) auto

lemma upsert_context:
  assumes "\<And>p. p \<in> set xs \<Longrightarrow> ekey p < bytes_of key" "\<And>p. p \<in> set zs \<Longrightarrow> bytes_of key < ekey p"
  shows "upsert key v (xs @ ys @ zs) = xs @ upsert key v ys @ zs"
proof -
  have "find (\<lambda>p. ekey p = bytes_of key) xs = None" "find (\<lambda>p. ekey p = bytes_of key) zs = None"
    using assms by (force simp: find_None_iff)+
  moreover have "filter (\<lambda>p. ekey p < bytes_of key) zs = []" "filter (\<lambda>p. bytes_of key < ekey p) xs = []"
    using assms by (force simp: filter_empty_conv)+
  moreover have "filter (\<lambda>p. ekey p < bytes_of key) xs = xs" "filter (\<lambda>p. bytes_of key < ekey p) zs = zs"
    using assms by (force simp: filter_id_conv)+
  ultimately show ?thesis by (auto simp: upsert_def find_append split: option.splits)
qed

lemma upsert_below:
  assumes "\<And>p. p \<in> set xs \<Longrightarrow> ekey p < bytes_of key"
  shows "upsert key v xs = xs @ [(key, v)]"
  using upsert_context [of xs key "[]" v "[]"] assms by (simp add: upsert_def)

lemma insert_copy_context:
  assumes "\<And>p. p \<in> set xs \<Longrightarrow> ekey p < bytes_of key" "\<And>p. p \<in> set zs \<Longrightarrow> bytes_of key \<le> ekey p"
  shows "insert_copy key v (xs @ ys @ zs) = xs @ insert_copy key v ys @ zs"
proof -
  have "filter (\<lambda>p. ekey p < bytes_of key) zs = []" "filter (\<lambda>p. bytes_of key \<le> ekey p) xs = []"
    using assms by (force simp: filter_empty_conv)+
  moreover have "filter (\<lambda>p. ekey p < bytes_of key) xs = xs" "filter (\<lambda>p. bytes_of key \<le> ekey p) zs = zs"
    using assms by (force simp: filter_id_conv)+
  ultimately show ?thesis by (simp add: insert_copy_def)
qed

lemma insert_copy_below:
  assumes "\<And>p. p \<in> set xs \<Longrightarrow> ekey p < bytes_of key"
  shows "insert_copy key v xs = xs @ [(key, v)]"
  using insert_copy_context [of xs key "[]" v "[]"] assms by (simp add: insert_copy_def)

lemma set_upsert: "p \<in> set (upsert key v es) \<Longrightarrow> ekey p = bytes_of key \<or> p \<in> set es"
  by (auto simp: upsert_def find_Some_iff split: option.splits)

lemma set_insert_copy: "p \<in> set (insert_copy key v es) \<Longrightarrow> ekey p = bytes_of key \<or> p \<in> set es"
  by (auto simp: insert_copy_def)


lemma leaf_take_less:
  assumes "i = findindex n key" "p \<in> set (take i (kvs n))"
  shows "ekey p < bytes_of key"
proof -
  from assms(2) obtain j where "j < i" "j < length (kvs n)" "p = kvs n ! j"
    by (auto simp: in_set_conv_nth)
  then show ?thesis
    using findindex_keys_below [of j "keys n" key] assms(1) by (simp add: findindex_def)
qed

lemma leaf_drop_ge:
  assumes "i = findindex n key" "strict (kvs n)" "length (vals n) = length (keys n)"
    "i < length (keys n)"
  shows "take i (kvs n) @ [(keys n ! i, vals n ! i)] @ drop (Suc i) (kvs n) = kvs n"
    and "bytes_of key \<le> bytes_of (keys n ! i)"
    and "p \<in> set (drop (Suc i) (kvs n)) \<Longrightarrow> bytes_of (keys n ! i) < ekey p"
proof -
  have eq: "kvs n = take i (kvs n) @ (keys n ! i, vals n ! i) # drop (Suc i) (kvs n)"
    using assms id_take_nth_drop [of i "kvs n"] by simp
  then show "take i (kvs n) @ [(keys n ! i, vals n ! i)] @ drop (Suc i) (kvs n) = kvs n"
    by (simp only: append_Cons append_Nil)
  show "bytes_of key \<le> bytes_of (keys n ! i)"
    using assms findindex_keys_at [of "keys n" key] by (simp add: findindex_def)
  show "p \<in> set (drop (Suc i) (kvs n)) \<Longrightarrow> bytes_of (keys n ! i) < ekey p"
    using assms(2) by (subst (asm) (2) eq) (simp add: strict_simps)
qed

lemma insertLeaf_flat:
  assumes sh: "shape 0 lo n" and st: "strict (entries n)"
  shows "\<exists>r. insertLeaf key v n = Some r \<and> flat r = upsert key v (entries n)"
proof -
  let ?i = "findindex n key"
  have E: "entries n = kvs n" and len: "length (vals n) = length (keys n)"
    using sh by (simp_all add: entries_leaf)
  have stk: "strict (kvs n)" using st E by simp
  note less = leaf_take_less [of ?i n key, OF refl]
  show ?thesis
  proof (cases "?i < length (keys n) \<and> bytes_of (keys n ! ?i) = bytes_of key")
    case True
    then have i: "?i < length (keys n)" by simp
    note D = leaf_drop_ge [OF refl stk len i]
    have gt: "bytes_of key < ekey p" if "p \<in> set (drop (Suc ?i) (kvs n))" for p
      using D(3) [OF that] True by simp
    have "upsert key v (entries n) =
        upsert key v (take ?i (kvs n) @ [(keys n ! ?i, vals n ! ?i)] @ drop (Suc ?i) (kvs n))"
      by (simp only: D(1) E)
    also have "\<dots> = take ?i (kvs n) @ upsert key v [(keys n ! ?i, vals n ! ?i)] @ drop (Suc ?i) (kvs n)"
      by (rule upsert_context) (use less gt in auto)
    also have "\<dots> = (kvs n)[?i := (keys n ! ?i, v)]"
      using True len by (simp add: upsert_def upd_conv_take_nth_drop)
    also have "\<dots> = zip (keys n) ((vals n)[?i := v])"
      by (simp flip: zip_list_update_both)
    finally show ?thesis
      using insertLeaf_eq [OF sh refl, of key v] True by simp
  next
    case False
    have gt: "bytes_of key < ekey p" if p: "p \<in> set (drop ?i (kvs n))" for p
    proof -
      from p have i: "?i < length (keys n)" using len by (cases "?i < length (keys n)") auto
      note D = leaf_drop_ge [OF refl stk len i]
      have "drop ?i (kvs n) = (keys n ! ?i, vals n ! ?i) # drop (Suc ?i) (kvs n)"
        using i len Cons_nth_drop_Suc [of ?i "kvs n"] by simp
      then show ?thesis using p D(2) D(3) [of p] False i by (auto simp: order.strict_iff_order)
    qed
    have "upsert key v (entries n) = upsert key v (take ?i (kvs n) @ [] @ drop ?i (kvs n))"
      using E by simp
    also have "\<dots> = take ?i (kvs n) @ upsert key v [] @ drop ?i (kvs n)"
      by (rule upsert_context) (use less gt in auto)
    also have "\<dots> = zip (insert_at (keys n) ?i key) (insert_at (vals n) ?i v)"
      using len by (simp add: zip_insert_at upsert_def) (simp add: insert_at_def)
    also have "\<dots> = flat (finish (insert_at (keys n) ?i key) (insert_at (vals n) ?i v) [] True)"
      using len shape_lens(2) [OF sh] by (simp add: finish_flat_leaf)
    finally show ?thesis
      using insertLeaf_eq [OF sh refl, of key v] False by auto
  qed
qed

lemma internal_keys_internal:
  "\<not> isleaf n \<Longrightarrow> set (internal_keys n) = set (keys n) \<union> (\<Union>c \<in> set (children n). set (internal_keys c))"
  by (cases n) simp

lemma keys_kvs: "length (vals n) = length (keys n) \<Longrightarrow> set (keys n) = fst ` set (kvs n)"
  by (simp flip: set_map)

lemma internal_keys_entries: "shape h lo n \<Longrightarrow> set (internal_keys n) \<subseteq> fst ` set (entries n)"
proof (induction h arbitrary: lo n)
  case 0
  then show ?case by (cases n) simp
next
  case (Suc h)
  have sub: "set (internal_keys c) \<subseteq> fst ` set (entries c)" if "c \<in> set (children n)" for c
    by (rule Suc.IH [of 2]) (use that Suc.prems in simp)
  have E: "set (entries n) = (\<Union>c \<in> set (children n). set (entries c)) \<union> set (kvs n)"
    using Suc.prems by (simp add: entries_internal set_interleave)
  have K: "set (keys n) = fst ` set (kvs n)"
    using Suc.prems by (intro keys_kvs) simp
  have I: "set (internal_keys n) = set (keys n) \<union> (\<Union>c \<in> set (children n). set (internal_keys c))"
    using Suc.prems by (intro internal_keys_internal) simp
  show ?case unfolding E I K using sub by blast
qed

lemma internal_keys_split:
  assumes sh: "shape (Suc h) lo n" and i: "i \<le> length (keys n)" and s: "s \<in> set (internal_keys n)"
  shows "s \<in> fst ` set (before n i) \<or> s \<in> fst ` set (after n i) \<or> s \<in> set (internal_keys (children n ! i))"
proof -
  let ?cs = "children n"
  have B: "set (before n i) = (\<Union>c \<in> set (take i ?cs). set (entries c)) \<union> set (take i (kvs n))"
    using sh i by (simp add: before_def set_interleave)
  have A: "set (after n i) = (\<Union>c \<in> set (drop (Suc i) ?cs). set (entries c)) \<union> set (drop i (kvs n))"
    using sh i by (simp add: after_def set_interleave)
  have cs: "?cs = take i ?cs @ ?cs ! i # drop (Suc i) ?cs"
    by (rule id_take_nth_drop) (use sh i in simp)
  have kv: "set (kvs n) = set (take i (kvs n)) \<union> set (drop i (kvs n))"
    by (metis append_take_drop_id set_append)
  have "s \<in> set (keys n) \<or> (\<exists>c \<in> set ?cs. s \<in> set (internal_keys c))"
    using s internal_keys_internal [of n] sh by simp
  then show ?thesis
  proof
    assume "s \<in> set (keys n)"
    then have "s \<in> fst ` set (kvs n)" using sh keys_kvs by auto
    then show ?thesis unfolding A B kv by blast
  next
    assume "\<exists>c \<in> set ?cs. s \<in> set (internal_keys c)"
    then obtain c where c: "c \<in> set ?cs" "s \<in> set (internal_keys c)" by blast
    then have "s \<in> fst ` set (entries c)"
      using internal_keys_entries [of h 2 c] sh by auto
    moreover have "c \<in> set (take i ?cs) \<or> c = ?cs ! i \<or> c \<in> set (drop (Suc i) ?cs)"
      using c(1) by (subst (asm) cs) auto
    ultimately show ?thesis unfolding A B using c(2) by blast
  qed
qed

lemma internal_keys_at:
  assumes sh: "shape (Suc h) lo n" and st: "strict (entries n)" and i: "i = findindex n key"
    and ne: "\<not> (i < length (keys n) \<and> bytes_of (keys n ! i) = bytes_of key)"
  shows "bytes_of key \<in> bytes_of ` set (internal_keys n) \<longleftrightarrow>
    bytes_of key \<in> bytes_of ` set (internal_keys (children n ! i))"
proof -
  have le: "i \<le> length (keys n)" using i by simp
  have mem: "children n ! i \<in> set (children n)" using le sh by simp
  have a: "bytes_of key < ekey p" if "p \<in> set (after n i)" for p
    using after_ge [OF sh st i that] ne by auto
  note b = before_less [OF sh st i]
  have I: "set (internal_keys n) = set (keys n) \<union> (\<Union>c \<in> set (children n). set (internal_keys c))"
    using sh by (intro internal_keys_internal) simp
  show ?thesis
  proof
    assume "bytes_of key \<in> bytes_of ` set (internal_keys n)"
    then obtain s where s: "s \<in> set (internal_keys n)" "bytes_of s = bytes_of key" by force
    have "s \<notin> fst ` set (before n i)" "s \<notin> fst ` set (after n i)"
      using a b s(2) by (metis imageE less_irrefl)+
    with internal_keys_split [OF sh le s(1)]
    have "s \<in> set (internal_keys (children n ! i))" by blast
    then show "bytes_of key \<in> bytes_of ` set (internal_keys (children n ! i))"
      using s(2) by (metis imageI)
  next
    assume "bytes_of key \<in> bytes_of ` set (internal_keys (children n ! i))"
    then show "bytes_of key \<in> bytes_of ` set (internal_keys n)" unfolding I using mem by blast
  qed
qed


text \<open>
  The upward step lands next to the child that split: the search position of the promoted
  key in the parent is the child's own index.
\<close>

lemma promoted_position:
  assumes sh: "shape (Suc h) lo n" and st: "strict (entries n)" and i: "i = findindex n key"
    and mk: "bytes_of mk = bytes_of key \<or> (\<exists>p \<in> set (entries (children n ! i)). ekey p = bytes_of mk)"
  shows "findindex n mk = i"
proof -
  have le: "i \<le> length (keys n)" using i by simp
  have b: "bytes_of k < bytes_of mk" if "k \<in> set (take i (keys n))" for k
    using mk child_bounds(1) [OF sh st le _ that] key_bounds(1) [OF sh st i that] by metis
  have a: "bytes_of mk \<le> bytes_of k" if "k \<in> set (drop i (keys n))" for k
    using mk child_bounds(2) [OF sh st le _ that] key_bounds(2) [OF sh st i that]
    by (metis order.trans order.strict_implies_order)
  show ?thesis
    unfolding findindex_def by (rule findindex_keys_take_drop) (use a b le in auto)
qed

lemma insertUp_flat:
  assumes sh: "shape (Suc h) lo n" and st: "strict (entries n)" and i: "i = findindex n key"
    and mk: "bytes_of mk = bytes_of key \<or> (\<exists>p \<in> set (entries (children n ! i)). ekey p = bytes_of mk)"
  shows "\<exists>r. insertUp (set_child n i l) mk mv nn = Some r \<and>
    flat r = before n i @ flat (Split l mk mv nn) @ after n i"
proof -
  have le: "i \<le> length (keys n)" using i by simp
  let ?r = "finish (insert_at (keys n) i mk) (insert_at (vals n) i mv)
    (insert_at ((children n)[i := l]) (Suc i) nn) False"
  have "insertUp (set_child n i l) mk mv nn = Some ?r"
    using insertUp_eq [of "set_child n i l" i mk mv nn] promoted_position [OF assms] sh by simp
  moreover have "flat ?r = interleave (insert_at ((map entries (children n))[i := entries l]) (Suc i) (entries nn))
      (insert_at (kvs n) i (mk, mv))"
    using sh by (subst finish_flat_internal) (auto simp: map_insert_at map_update zip_insert_at)
  moreover have "\<dots> = before n i @ flat (Split l mk mv nn) @ after n i"
    using sh le by (subst interleave_splice) (auto simp: before_def after_def take_map drop_map)
  ultimately show ?thesis by simp
qed

definition insert_spec :: "bool \<Rightarrow> Keytype \<Rightarrow> Valuetype \<Rightarrow> (Keytype \<times> Valuetype) list \<Rightarrow> (Keytype \<times> Valuetype) list" where
  "insert_spec copy key v es = (if copy then insert_copy key v es else upsert key v es)"

lemma set_insert_spec: "p \<in> set (insert_spec b key v es) \<Longrightarrow> ekey p = bytes_of key \<or> p \<in> set es"
  by (auto simp: insert_spec_def dest: set_upsert set_insert_copy split: if_splits)

lemma insert_spec_context:
  assumes "\<And>p. p \<in> set xs \<Longrightarrow> ekey p < bytes_of key" "\<And>p. p \<in> set zs \<Longrightarrow> bytes_of key < ekey p"
  shows "insert_spec b key v (xs @ ys @ zs) = xs @ insert_spec b key v ys @ zs"
  using upsert_context [of xs key zs v ys] insert_copy_context [of xs key zs v ys] assms
  by (simp add: insert_spec_def less_imp_le)

lemma insert_spec_below:
  "(\<And>p. p \<in> set xs \<Longrightarrow> ekey p < bytes_of key) \<Longrightarrow> insert_spec b key v xs = xs @ [(key, v)]"
  by (simp add: insert_spec_def upsert_below insert_copy_below)

lemma insertNode_flat:
  "shape h lo n \<Longrightarrow> strict (entries n) \<Longrightarrow>
   \<exists>r. insertNode key v n = Some r \<and>
     flat r = insert_spec (bytes_of key \<in> bytes_of ` set (internal_keys n)) key v (entries n)"
proof (induction h arbitrary: lo n)
  case 0
  then have "internal_keys n = []" by (cases n) simp
  then show ?case
    using insertLeaf_flat [OF 0, of key v] 0(1) by (subst insertNode_unfold) (simp add: insert_spec_def)
next
  case (Suc h)
  note sh = Suc.prems(1) and st = Suc.prems(2)
  let ?i = "findindex n key" and ?c = "children n ! findindex n key"
  let ?b = "bytes_of key \<in> bytes_of ` set (internal_keys n)"
    and ?b' = "bytes_of key \<in> bytes_of ` set (internal_keys ?c)"
  note E = entries_at [OF sh findindex_le [of n key]]
  from Suc.IH [OF shape_child [OF sh findindex_le] strict_child [OF sh st findindex_le]]
  obtain r where r: "insertNode key v ?c = Some r" "flat r = insert_spec ?b' key v (entries ?c)"
    by blast
  have target: "before n ?i @ flat r @ after n ?i = insert_spec ?b key v (entries n)"
  proof (cases "?i < length (keys n) \<and> bytes_of (keys n ! ?i) = bytes_of key")
    case True
    have c: "ekey p < bytes_of key" if "p \<in> set (entries ?c)" for p
      using that st E after_at [of ?i n] True sh by (simp add: strict_simps)
    have "keys n ! ?i \<in> set (internal_keys n)"
      using True sh internal_keys_internal [of n] by simp
    with True have "?b" by (metis imageI)
    moreover have "insert_copy key v (before n ?i @ entries ?c @ after n ?i) =
        before n ?i @ insert_copy key v (entries ?c) @ after n ?i"
      by (rule insert_copy_context)
        (use before_less [where key = key, OF sh st refl] after_ge [where key = key, OF sh st refl] True in auto)
    ultimately show ?thesis
      using c r(2) by (simp add: E insert_spec_below insert_copy_below) (simp add: insert_spec_def insert_copy_below)
  next
    case False
    have "?b = ?b'" by (rule internal_keys_at [OF sh st refl False])
    moreover have "insert_spec ?b' key v (before n ?i @ entries ?c @ after n ?i) =
        before n ?i @ insert_spec ?b' key v (entries ?c) @ after n ?i"
      by (rule insert_spec_context)
        (use before_less [OF sh st refl] after_ge [OF sh st refl] False in force)+
    ultimately show ?thesis using r(2) by (simp add: E)
  qed
  show ?case
  proof (cases r)
    case (Done c')
    have "entries (set_child n ?i c') = before n ?i @ entries c' @ after n ?i"
      by (rule entries_set_child [OF sh findindex_le])
    then show ?thesis
      using Done r(1) target sh by (subst insertNode_unfold) (simp add: go_simps le_imp_less_Suc)
  next
    case (Split l mk mv nn)
    then have "(mk, mv) \<in> set (flat r)" by simp
    then have "bytes_of mk = bytes_of key \<or> (\<exists>p \<in> set (entries ?c). ekey p = bytes_of mk)"
      using r(2) set_insert_spec by fastforce
    from insertUp_flat [OF sh st refl this, of l mv nn] obtain r' where
      "insertUp (set_child n ?i l) mk mv nn = Some r'"
      "flat r' = before n ?i @ flat r @ after n ?i" using Split by auto
    then show ?thesis
      using Split r(1) target sh by (subst insertNode_unfold) (simp add: go_simps le_imp_less_Suc)
  qed
qed

lemma Btree_Insert_entries:
  assumes "tree_shape t" "tree_strict t"
  shows "\<exists>t'. Btree_Insert t key v = Some t' \<and>
    tree_entries t' = insert_spec (bytes_of key \<in> tree_internal t) key v (tree_entries t)"
proof (cases "root t")
  case None
  then show ?thesis
    by (simp add: Btree_Insert_def NewNode_def insertAt_def insert_at_def tree_entries_def
        tree_internal_def insert_spec_def upsert_def)
next
  case (Some n)
  with assms have "shape (height n) 1 n" "strict (entries n)"
    by (simp_all add: tree_shape_def tree_strict_def tree_entries_def)
  from insertNode_flat [OF this, of key v] obtain r where
    r: "insertNode key v n = Some r"
    "flat r = insert_spec (bytes_of key \<in> tree_internal t) key v (tree_entries t)"
    using Some by (auto simp: tree_internal_def tree_entries_def)
  then show ?thesis
    using Some by (cases r) (auto simp: Btree_Insert_def tree_entries_def)
qed

end
