(* ===== verification/Btree_Fill.thy ===== *)
theory Btree_Fill
  imports Btree_Find
begin

text \<open>
  Rebalancing after a deletion: the two rotations and the merge of \<open>fillChildAt\<close> keep
  the content of the node and restore its shape.
\<close>

section \<open>Two adjacent children around their separator\<close>

lemma pair_split:
  assumes "length (children n) = Suc (length (keys n))" "length (vals n) = length (keys n)"
    "p < length (keys n)"
  obtains ks1 k ks2 vs1 v vs2 cs1 l r cs2 where
    "n = Node (ks1 @ k # ks2) (vs1 @ v # vs2) (cs1 @ l # r # cs2) (isleaf n)"
    "length ks1 = p" "length vs1 = p" "length cs1 = p"
    "length vs2 = length ks2" "length cs2 = length ks2"
proof -
  have ks: "keys n = take p (keys n) @ keys n ! p # drop (Suc p) (keys n)"
    by (rule id_take_nth_drop) (use assms in simp)
  have vs: "vals n = take p (vals n) @ vals n ! p # drop (Suc p) (vals n)"
    by (rule id_take_nth_drop) (use assms in simp)
  have "drop p (children n) = children n ! p # children n ! Suc p # drop (Suc (Suc p)) (children n)"
    using assms by (simp add: Cons_nth_drop_Suc)
  then have cs: "children n = take p (children n) @ children n ! p # children n ! Suc p # drop (Suc (Suc p)) (children n)"
    by (metis append_take_drop_id)
  show ?thesis
    by (rule that [of "take p (keys n)" "keys n ! p" "drop (Suc p) (keys n)"
          "take p (vals n)" "vals n ! p" "drop (Suc p) (vals n)"
          "take p (children n)" "children n ! p" "children n ! Suc p" "drop (Suc (Suc p)) (children n)"])
      (use assms ks vs cs in \<open>auto simp: min_def intro: Node.expand\<close>)
qed

lemma entries_pair:
  assumes "length vs1 = length ks1" "length cs1 = length ks1" "length vs2 = length ks2" "length cs2 = length ks2"
  shows "entries (Node (ks1 @ k # ks2) (vs1 @ v # vs2) (cs1 @ l # r # cs2) False) =
    interleave (map entries cs1) (zip ks1 vs1) @ (entries l @ (k, v) # entries r) @
    interleave ([] # map entries cs2) (zip ks2 vs2)"
  using assms by (simp add: interleave_append interleave_Cons_Nil [of "entries r"])

lemma entries_one:
  assumes "length vs1 = length ks1" "length cs1 = length ks1" "length vs2 = length ks2" "length cs2 = length ks2"
  shows "entries (Node (ks1 @ ks2) (vs1 @ vs2) (cs1 @ l # cs2) False) =
    interleave (map entries cs1) (zip ks1 vs1) @ entries l @ interleave ([] # map entries cs2) (zip ks2 vs2)"
  using assms by (simp add: interleave_append interleave_Cons_Nil [of "entries l"])

section \<open>Rotations and merges\<close>

lemma rotate_right:
  assumes l: "shape h lo l" "l = Node (lks @ [lk]) (lvs @ [lv]) lcs leaf" and r: "shape h lo' r"
  obtains lcs' rcs' where
    "(if \<not> isleaf r
      then do { c \<leftarrow> at_ix (children l) (length (children l) - 1);
                Some (take (length (children l) - 1) (children l), [c] @ children r) }
      else Some (children l, children r)) = Some (lcs', rcs')"
    "shape h (lo - 1) (Node lks lvs lcs' (isleaf l))"
    "length (keys r) < 4 \<longrightarrow> shape h (Suc lo') (Node (k # keys r) (v # vals r) rcs' (isleaf r))"
    "entries (Node lks lvs lcs' (isleaf l)) @ (lk, lv) # entries (Node (k # keys r) (v # vals r) rcs' (isleaf r)) =
     entries l @ (k, v) # entries r"
proof (cases h)
  case 0
  show ?thesis
    by (rule that [of "children l" "children r"]) (use 0 l r in \<open>auto simp: entries_leaf\<close>)
next
  case (Suc h')
  with l obtain cs c where cs: "lcs = cs @ [c]" by (cases lcs rule: rev_cases) auto
  have len: "length cs = length lks + 1" "length lvs = length lks" using Suc l cs by auto
  have e1: "entries l = interleave (map entries cs) (zip lks lvs) @ (lk, lv) # entries c"
    using Suc l cs len interleave_mid [of "map entries cs" "zip lks lvs" "[entries c]" "(lk, lv)" "[]"] by simp
  have e2: "entries (Node (k # keys r) (v # vals r) (c # children r) (isleaf r)) = entries c @ (k, v) # entries r"
    using Suc r by (simp add: entries_internal [of r])
  show ?thesis
    by (rule that [of cs "c # children r"])
      (use Suc l r cs len e1 e2 in \<open>auto simp: at_ix_def entries_internal [of r] nth_append\<close>)
qed

lemma rotate_left:
  assumes r: "shape h lo r" "r = Node (rk # rks) (rv # rvs) rcs leaf" and l: "shape h lo' l"
  obtains lcs' rcs' where
    "(if \<not> isleaf l
      then do { c \<leftarrow> at_ix (children r) 0; Some (children l @ [c], drop 1 (children r)) }
      else Some (children l, children r)) = Some (lcs', rcs')"
    "shape h (lo - 1) (Node rks rvs rcs' (isleaf r))"
    "length (keys l) < 4 \<longrightarrow> shape h (Suc lo') (Node (keys l @ [k]) (vals l @ [v]) lcs' (isleaf l))"
    "entries (Node (keys l @ [k]) (vals l @ [v]) lcs' (isleaf l)) @ (rk, rv) # entries (Node rks rvs rcs' (isleaf r)) =
     entries l @ (k, v) # entries r"
proof (cases h)
  case 0
  show ?thesis
    by (rule that [of "children l" "children r"]) (use 0 l r in \<open>auto simp: entries_leaf\<close>)
next
  case (Suc h')
  with r obtain c cs where cs: "rcs = c # cs" by (cases rcs) auto
  have e1: "entries r = entries c @ (rk, rv) # interleave (map entries cs) (zip rks rvs)"
    using Suc r cs by simp
  have e2: "entries (Node (keys l @ [k]) (vals l @ [v]) (children l @ [c]) (isleaf l)) =
      entries l @ (k, v) # entries c"
    using Suc l interleave_mid [of "map entries (children l)" "kvs l" "[entries c]" "(k, v)" "[]"]
    by (simp add: entries_internal [of l])
  show ?thesis
    by (rule that [of "children l @ [c]" cs])
      (use Suc l r cs e1 e2 in \<open>auto simp: at_ix_def entries_internal [of l]\<close>)
qed

lemma merge_pair:
  fixes k :: Keytype and v :: Valuetype
  assumes l: "shape h lo l" and r: "shape h lo' r"
  defines "m \<equiv> Node (keys l @ [k] @ keys r) (vals l @ [v] @ vals r)
    (if \<not> isleaf l then children l @ children r else children l) (isleaf l)"
  shows "entries m = entries l @ (k, v) # entries r"
    and "length (keys l) + length (keys r) \<le> 3 \<Longrightarrow> shape h (Suc (lo + lo')) m"
proof -
  show "entries m = entries l @ (k, v) # entries r"
  proof (cases h)
    case 0
    then show ?thesis using l r by (simp add: m_def entries_leaf)
  next
    case (Suc h')
    then show ?thesis
      using l r interleave_mid [of "map entries (children l)" "kvs l" "map entries (children r)" "(k, v)" "kvs r"]
      by (simp add: m_def entries_internal [of l] entries_internal [of r])
  qed
  show "shape h (Suc (lo + lo')) m" if "length (keys l) + length (keys r) \<le> 3"
    using that l r by (cases h) (auto simp: m_def)
qed


section \<open>Refilling a child\<close>

text \<open>A node whose child at \<open>pos\<close> has one key too few.\<close>

definition needs_fill :: "nat \<Rightarrow> Node \<Rightarrow> nat \<Rightarrow> bool" where
  "needs_fill h n pos \<longleftrightarrow>
     \<not> isleaf n \<and> length (children n) = Suc (length (keys n)) \<and> length (vals n) = length (keys n) \<and>
     1 \<le> length (keys n) \<and> length (keys n) \<le> 4 \<and> pos \<le> length (keys n) \<and>
     shape h 1 (children n ! pos) \<and> length (keys (children n ! pos)) = 1 \<and>
     (\<forall>j. j \<le> length (keys n) \<longrightarrow> j \<noteq> pos \<longrightarrow> shape h 2 (children n ! j))"

lemma needs_fill_pair:
  assumes "needs_fill h n pos" "p < length (keys n)" "pos = p \<or> pos = Suc p"
  obtains ks1 k ks2 vs1 v vs2 cs1 l r cs2 where
    "n = Node (ks1 @ k # ks2) (vs1 @ v # vs2) (cs1 @ l # r # cs2) False"
    "length ks1 = p" "length vs1 = p" "length cs1 = p"
    "length vs2 = length ks2" "length cs2 = length ks2" "p + length ks2 \<le> 3"
    "\<forall>c \<in> set cs1 \<union> set cs2. shape h 2 c"
    "shape h (if pos = p then 1 else 2) l" "shape h (if pos = p then 2 else 1) r"
    "pos = p \<longrightarrow> length (keys l) = 1" "pos = Suc p \<longrightarrow> length (keys r) = 1"
proof -
  obtain ks1 k ks2 vs1 v vs2 cs1 l r cs2 where
    n: "n = Node (ks1 @ k # ks2) (vs1 @ v # vs2) (cs1 @ l # r # cs2) (isleaf n)"
    and len: "length ks1 = p" "length vs1 = p" "length cs1 = p"
      "length vs2 = length ks2" "length cs2 = length ks2"
    by (rule pair_split [of n p]) (use assms in \<open>simp_all add: needs_fill_def\<close>)
  have nl: "isleaf n = False" using assms by (simp add: needs_fill_def)
  have ch: "children n = cs1 @ l # r # cs2" and ks: "length (keys n) = Suc (p + length ks2)"
    using n len by (metis Node.sel(3), metis Node.sel(1) length_append length_Cons add_Suc_right)
  have sh: "shape h 2 (children n ! j)" if "j \<le> length (keys n)" "j \<noteq> pos" for j
    using assms that by (simp add: needs_fill_def)
  have "shape h 2 c" if c: "c \<in> set cs1" for c
  proof -
    from c obtain j where "j < p" "c = cs1 ! j" using len by (auto simp: in_set_conv_nth)
    then show ?thesis using sh [of j] ch ks assms(3) len by (auto simp: nth_append)
  qed
  moreover have "shape h 2 c" if c: "c \<in> set cs2" for c
  proof -
    from c obtain j where "j < length ks2" "c = cs2 ! j" using len by (auto simp: in_set_conv_nth)
    then show ?thesis using sh [of "p + 2 + j"] ch ks assms(3) len by (auto simp: nth_append)
  qed
  ultimately show ?thesis
    by (intro that [OF n [unfolded nl] len])
      (use assms sh [of p] sh [of "Suc p"] ch ks len in \<open>auto simp: needs_fill_def nth_append\<close>)
qed

lemma borrowFromLeft_fill:
  assumes nf: "needs_fill h n pos" and pos: "0 < pos" and rich: "2 < length (keys (children n ! (pos - 1)))"
  shows "\<exists>n'. borrowFromLeft n pos = Some n' \<and> shape (Suc h) (length (keys n)) n' \<and> entries n' = entries n"
proof -
  obtain p where p: "pos = Suc p" using pos by (cases pos) auto
  with nf have pk: "p < length (keys n)" by (simp add: needs_fill_def)
  obtain ks1 k ks2 vs1 v vs2 cs1 l r cs2 where
    n: "n = Node (ks1 @ k # ks2) (vs1 @ v # vs2) (cs1 @ l # r # cs2) False"
    and len: "length ks1 = p" "length vs1 = p" "length cs1 = p"
      "length vs2 = length ks2" "length cs2 = length ks2" "p + length ks2 \<le> 3"
    and sh': "\<forall>c \<in> set cs1 \<union> set cs2. shape h 2 c"
      "shape h (if pos = p then 1 else 2) l" "shape h (if pos = p then 2 else 1) r"
      "pos = p \<longrightarrow> length (keys l) = 1" "pos = Suc p \<longrightarrow> length (keys r) = 1"
    by (rule needs_fill_pair [OF nf pk disjI2 [OF p]])
  have sh: "\<forall>c \<in> set cs1 \<union> set cs2. shape h 2 c" "shape h 2 l" "shape h 1 r" "length (keys r) = 1"
    using sh' p by simp_all
  have l3: "2 < length (keys l)" using rich n len p by (simp add: nth_append)
  obtain lks lk lvs lv lcs leaf where l: "l = Node (lks @ [lk]) (lvs @ [lv]) lcs leaf"
    using l3 shape_lens(1) [OF sh(2)] by (cases l) (metis Node.sel(1,2) append_butlast_last_id list.size(3) not_less_zero)
  have shl: "shape h 3 l" by (rule shape_lo [OF sh(2)]) (use l3 in simp)
  obtain lcs' rcs' where rot:
    "(if \<not> isleaf r
      then do { c \<leftarrow> at_ix (children l) (length (children l) - 1);
                Some (take (length (children l) - 1) (children l), [c] @ children r) }
      else Some (children l, children r)) = Some (lcs', rcs')"
    "shape h (3 - 1) (Node lks lvs lcs' (isleaf l))"
    "length (keys r) < 4 \<longrightarrow> shape h (Suc 1) (Node (k # keys r) (v # vals r) rcs' (isleaf r))"
    "entries (Node lks lvs lcs' (isleaf l)) @ (lk, lv) # entries (Node (k # keys r) (v # vals r) rcs' (isleaf r)) =
     entries l @ (k, v) # entries r"
    by (rule rotate_right [where k = k and v = v, OF shl l sh(3)])
  let ?n = "Node (ks1 @ lk # ks2) (vs1 @ lv # vs2)
    (cs1 @ Node lks lvs lcs' (isleaf l) # Node (k # keys r) (v # vals r) rcs' (isleaf r) # cs2) False"
  have "borrowFromLeft n pos = Some ?n"
    using n l len p rot(1)
    by (auto simp: borrowFromLeft_def go_simps nth_append set_kv_def set_child_def list_update_append
        bind_eq_Some_conv split: if_splits)
  moreover have "shape (Suc h) (length (keys n)) ?n"
    using n len sh rot(2,3) by (auto simp: numeral_2_eq_2)
  moreover have "entries ?n = entries n"
    using n len rot(4) by (simp only: entries_pair)
  ultimately show ?thesis by blast
qed

lemma borrowFromRight_fill:
  assumes nf: "needs_fill h n pos" and pos: "pos < length (keys n)"
    and rich: "2 < length (keys (children n ! Suc pos))"
  shows "\<exists>n'. borrowFromRight n pos = Some n' \<and> shape (Suc h) (length (keys n)) n' \<and> entries n' = entries n"
proof -
  obtain ks1 k ks2 vs1 v vs2 cs1 l r cs2 where
    n: "n = Node (ks1 @ k # ks2) (vs1 @ v # vs2) (cs1 @ l # r # cs2) False"
    and len: "length ks1 = pos" "length vs1 = pos" "length cs1 = pos"
      "length vs2 = length ks2" "length cs2 = length ks2" "pos + length ks2 \<le> 3"
    and sh': "\<forall>c \<in> set cs1 \<union> set cs2. shape h 2 c"
      "shape h (if pos = pos then 1 else 2) l" "shape h (if pos = pos then 2 else 1) r"
      "pos = pos \<longrightarrow> length (keys l) = 1" "pos = Suc pos \<longrightarrow> length (keys r) = 1"
    by (rule needs_fill_pair [OF nf pos disjI1 [OF refl]])
  have sh: "\<forall>c \<in> set cs1 \<union> set cs2. shape h 2 c" "shape h 1 l" "shape h 2 r" "length (keys l) = 1"
    using sh' by simp_all
  have r3: "2 < length (keys r)" using rich n len by (simp add: nth_append)
  obtain rk rks rv rvs rcs leaf where r: "r = Node (rk # rks) (rv # rvs) rcs leaf"
    using r3 shape_lens(1) [OF sh(3)] by (cases r) (auto simp: length_Suc_conv neq_Nil_conv Suc_le_eq dest!: less_imp_Suc_add)
  have shr: "shape h 3 r" by (rule shape_lo [OF sh(3)]) (use r3 in simp)
  obtain lcs' rcs' where rot:
    "(if \<not> isleaf l
      then do { c \<leftarrow> at_ix (children r) 0; Some (children l @ [c], drop 1 (children r)) }
      else Some (children l, children r)) = Some (lcs', rcs')"
    "shape h (3 - 1) (Node rks rvs rcs' (isleaf r))"
    "length (keys l) < 4 \<longrightarrow> shape h (Suc 1) (Node (keys l @ [k]) (vals l @ [v]) lcs' (isleaf l))"
    "entries (Node (keys l @ [k]) (vals l @ [v]) lcs' (isleaf l)) @ (rk, rv) # entries (Node rks rvs rcs' (isleaf r)) =
     entries l @ (k, v) # entries r"
    by (rule rotate_left [where k = k and v = v, OF shr r sh(2)])
  let ?n = "Node (ks1 @ rk # ks2) (vs1 @ rv # vs2)
    (cs1 @ Node (keys l @ [k]) (vals l @ [v]) lcs' (isleaf l) # Node rks rvs rcs' (isleaf r) # cs2) False"
  have "borrowFromRight n pos = Some ?n"
    using n r len rot(1)
    by (auto simp: borrowFromRight_def go_simps nth_append set_kv_def set_child_def list_update_append
        bind_eq_Some_conv split: if_splits)
  moreover have "shape (Suc h) (length (keys n)) ?n"
    using n len sh rot(2,3) by (auto simp: numeral_2_eq_2)
  moreover have "entries ?n = entries n"
    using n len rot(4) by (simp only: entries_pair)
  ultimately show ?thesis by blast
qed


lemma mergeChildren_fill:
  assumes nf: "needs_fill h n pos"
    and poor: "0 < pos \<Longrightarrow> length (keys (children n ! (pos - 1))) \<le> 2"
      "pos < length (keys n) \<Longrightarrow> length (keys (children n ! Suc pos)) \<le> 2"
  shows "\<exists>n'. mergeChildren n pos = Some n' \<and> shape (Suc h) (length (keys n) - 1) n' \<and> entries n' = entries n"
proof -
  define p where "p = (if pos \<ge> length (keys n) then length (keys n) - 1 else pos)"
  have k1: "1 \<le> length (keys n)" "pos \<le> length (keys n)" using nf by (simp_all add: needs_fill_def)
  then have pk: "p < length (keys n)" and pp: "pos = p \<or> pos = Suc p" by (auto simp: p_def)
  obtain ks1 k ks2 vs1 v vs2 cs1 l r cs2 where
    n: "n = Node (ks1 @ k # ks2) (vs1 @ v # vs2) (cs1 @ l # r # cs2) False"
    and len: "length ks1 = p" "length vs1 = p" "length cs1 = p"
      "length vs2 = length ks2" "length cs2 = length ks2" "p + length ks2 \<le> 3"
    and sh: "\<forall>c \<in> set cs1 \<union> set cs2. shape h 2 c"
      "shape h (if pos = p then 1 else 2) l" "shape h (if pos = p then 2 else 1) r"
      "pos = p \<longrightarrow> length (keys l) = 1" "pos = Suc p \<longrightarrow> length (keys r) = 1"
    by (rule needs_fill_pair [OF nf pk pp])
  have sum: "length (keys l) + length (keys r) \<le> 3"
    using pp poor sh(4,5) pk n len by (auto simp: nth_append)
  let ?m = "Node (keys l @ [k] @ keys r) (vals l @ [v] @ vals r)
    (if \<not> isleaf l then children l @ children r else children l) (isleaf l)"
  let ?n = "Node (ks1 @ ks2) (vs1 @ vs2) (cs1 @ ?m # cs2) False"
  have m: "entries ?m = entries l @ (k, v) # entries r" "shape h 2 ?m"
    using merge_pair [OF sh(2,3), of k v] sum by (auto intro: shape_mono split: if_splits)
  have mp: "(if pos \<ge> length (keys n) then (if length (keys n) = 0 then None else Some (length (keys n) - 1))
      else Some pos) = Some p"
    using k1 by (auto simp: p_def)
  have "mergeChildren n pos = Some ?n"
    unfolding mergeChildren_def mp
    using n len by (simp add: go_simps nth_append remove_at_def list_update_append)
  moreover have "shape (Suc h) (length (keys n) - 1) ?n"
    using n len sh(1) m(2) by auto
  moreover have "entries ?n = entries n"
    using n len m(1) by (simp only: entries_pair entries_one)
  ultimately show ?thesis by blast
qed

lemma fillChildAt_fill:
  assumes nf: "needs_fill h n pos"
  shows "\<exists>n'. fillChildAt n pos = Some n' \<and> shape (Suc h) (length (keys n) - 1) n' \<and> entries n' = entries n"
proof -
  have len: "length (children n) = Suc (length (keys n))" "pos \<le> length (keys n)"
    using nf by (simp_all add: needs_fill_def)
  show ?thesis
  proof (cases "0 < pos \<and> 2 < length (keys (children n ! (pos - 1)))")
    case True
    then have "fillChildAt n pos = borrowFromLeft n pos"
      using len by (simp add: fillChildAt_def go_simps)
    then show ?thesis using borrowFromLeft_fill [OF nf] True by (auto intro: shape_mono)
  next
    case noleft: False
    show ?thesis
    proof (cases "pos < length (keys n) \<and> 2 < length (keys (children n ! Suc pos))")
      case True
      then have "fillChildAt n pos = borrowFromRight n pos"
        using len noleft by (auto simp: fillChildAt_def go_simps)
      then show ?thesis using borrowFromRight_fill [OF nf] True by (auto intro: shape_mono)
    next
      case False
      then have "fillChildAt n pos = mergeChildren n pos"
        using len noleft by (auto simp: fillChildAt_def go_simps)
      then show ?thesis using mergeChildren_fill [OF nf] noleft False by auto
    qed
  qed
qed


end
