(* ===== verification/Btree_Delete.thy ===== *)
theory Btree_Delete
  imports Btree_Fill
begin

text \<open>
  \<open>Delete\<close>: a tree without a nil key stays well-shaped, whatever the order of its keys,
  and on a strictly ordered tree exactly the deleted key goes.
\<close>

section \<open>One level of delete\<close>

definition hit :: "Node \<Rightarrow> slice \<Rightarrow> bool" where
  "hit n key \<longleftrightarrow> findindex n key < length (keys n) \<and> bytes_of (keys n ! findindex n key) = bytes_of key"

definition del_idx :: "Node \<Rightarrow> slice \<Rightarrow> nat" where
  "del_idx n key = (if hit n key then Suc (findindex n key) else findindex n key)"

text \<open>The node after the child's deletion and before rebalancing.\<close>

definition del_node :: "Node \<Rightarrow> slice \<Rightarrow> Keytype \<Rightarrow> Valuetype \<Rightarrow> Node \<Rightarrow> Node" where
  "del_node n key dk dv c =
     (if hit n key
      then Node ((keys n)[findindex n key := dk]) ((vals n)[findindex n key := dv])
             ((children n)[del_idx n key := c]) (isleaf n)
      else set_child n (del_idx n key) c)"

lemma deleteNode_leaf:
  assumes "shape 0 lo n"
  shows "deleteNode key seek n =
    (if seek then removeAt n 0
     else if hit n key then removeAt n (findindex n key)
     else Some (NilSlice, NilSlice, n))"
  using assms by (cases n) (auto simp: hit_def Let_def)

lemma del_idx_le: "del_idx n key \<le> length (keys n)"
  by (auto simp: del_idx_def hit_def)

lemma deleteNode_internal:
  assumes sh: "shape (Suc h) lo n"
    and rec: "deleteNode key (hit n key \<or> seek) (children n ! del_idx n key) = Some (dk, dv, c)"
  shows "deleteNode key seek n =
    (if dk = NilSlice then Some (NilSlice, NilSlice, set_child n (del_idx n key) c)
     else map_option (\<lambda>n'. (dk, dv, n'))
            (if length (keys c) < 2 then fillChildAt (del_node n key dk dv c) (del_idx n key)
             else Some (del_node n key dk dv c)))"
proof -
  obtain ks vs cs where n: "n = Node ks vs cs False" using sh by (cases n) auto
  have len: "length cs = Suc (length ks)" "length vs = length ks" using sh n by auto
  have le: "findindex n key \<le> length ks" using findindex_le [of n key] n by simp
  show ?thesis
  proof (cases "hit n key")
    case True
    then have h: "findindex n key < length ks" "bytes_of (ks ! findindex n key) = bytes_of key"
      using n by (simp_all add: hit_def)
    show ?thesis
      using True h rec len n
      by (auto simp: Let_def go_simps del_idx_def del_node_def set_kv_def set_child_def
          Option.map_conv_bind_option comp_def)
  next
    case False
    then have h: "\<not> (findindex n key < length ks \<and> bytes_of (ks ! findindex n key) = bytes_of key)"
      using n by (simp add: hit_def)
    show ?thesis
      using False h rec len n le
      by (auto simp: Let_def go_simps del_idx_def del_node_def Option.map_conv_bind_option comp_def)
  qed
qed

lemma needs_fill_del_node:
  assumes sh: "shape (Suc h) lo n" and lo: "1 \<le> lo" and c: "shape h 1 c" "length (keys c) < 2"
  shows "needs_fill h (del_node n key dk dv c) (del_idx n key)"
proof -
  have "length (keys c) = 1" using c shape_lens(3) [OF c(1)] by simp
  moreover have "shape h 2 (children n ! j)" if "j \<le> length (keys n)" for j
    using sh that by (rule shape_child)
  ultimately show ?thesis
    using sh lo c(1) del_idx_le [of n key]
    by (auto simp: needs_fill_def del_node_def hit_def)
qed

lemma shape_del_node:
  assumes sh: "shape (Suc h) lo n" and c: "shape h 2 c"
  shows "shape (Suc h) lo (del_node n key dk dv c)"
  using assms by (auto simp: del_node_def dest: set_update_subset_insert [THEN subsetD])

lemma deleteNode_step:
  assumes sh: "shape (Suc h) lo n" and lo: "1 \<le> lo"
    and rec: "deleteNode key (hit n key \<or> seek) (children n ! del_idx n key) = Some (dk, dv, c)"
    and c: "shape h 1 c" and dk: "dk \<noteq> NilSlice"
  shows "\<exists>n'. deleteNode key seek n = Some (dk, dv, n') \<and> shape (Suc h) (lo - 1) n' \<and>
    entries n' = entries (del_node n key dk dv c)"
proof (cases "length (keys c) < 2")
  case True
  have len: "length (keys (del_node n key dk dv c)) = length (keys n)" by (simp add: del_node_def)
  from fillChildAt_fill [OF needs_fill_del_node [OF sh lo c True]]
  obtain n' where n': "fillChildAt (del_node n key dk dv c) (del_idx n key) = Some n'"
    "shape (Suc h) (length (keys n) - 1) n'" "entries n' = entries (del_node n key dk dv c)"
    using len by metis
  moreover have "lo - 1 \<le> length (keys n) - 1" using shape_lens(3) [OF sh] by simp
  ultimately show ?thesis
    using deleteNode_internal [OF sh rec] dk True by (auto intro: shape_mono)
next
  case False
  then have "shape h 2 c" by (intro shape_lo [OF c]) simp
  from shape_mono [OF shape_del_node [OF sh this], of "lo - 1"] show ?thesis
    using deleteNode_internal [OF sh rec] dk False by auto
qed

section \<open>Shape is kept when no key is nil\<close>

definition no_nil :: "(Keytype \<times> Valuetype) list \<Rightarrow> bool" where
  "no_nil es \<longleftrightarrow> NilSlice \<notin> fst ` set es"

lemma entries_child_subset:
  assumes "shape (Suc h) lo n" "i \<le> length (keys n)"
  shows "set (entries (children n ! i)) \<subseteq> set (entries n)"
  using entries_at [OF assms] by auto

lemma set_entries_internal:
  assumes "\<not> isleaf n" "length (keys n) \<le> length (children n)"
  shows "set (entries n) = (\<Union>c \<in> set (children n). set (entries c)) \<union> set (kvs n)"
  using assms by (simp add: entries_internal set_interleave)

lemma del_node_subset:
  assumes sh: "shape (Suc h) lo n"
    and c: "set (entries c) \<subseteq> set (entries n)" "(dk, dv) \<in> set (entries n)"
  shows "set (entries (del_node n key dk dv c)) \<subseteq> set (entries n)"
proof -
  have E: "set (entries n) = (\<Union>c \<in> set (children n). set (entries c)) \<union> set (kvs n)"
    using sh by (intro set_entries_internal) auto
  have E': "set (entries (del_node n key dk dv c)) =
      (\<Union>x \<in> set ((children n)[del_idx n key := c]). set (entries x)) \<union> set (kvs (del_node n key dk dv c))"
    using sh by (subst set_entries_internal) (auto simp: del_node_def)
  have "set (kvs (del_node n key dk dv c)) \<subseteq> insert (dk, dv) (set (kvs n))"
    by (auto simp: del_node_def zip_list_update_both dest!: set_update_subset_insert [THEN subsetD])
  moreover have "(\<Union>x \<in> set ((children n)[del_idx n key := c]). set (entries x)) \<subseteq> set (entries n)"
    using c(1) E by (auto dest!: set_update_subset_insert [THEN subsetD])
  ultimately show ?thesis using E E' c(2) by blast
qed

lemma removeAt_leaf:
  assumes "shape 0 lo n" "i < length (keys n)"
  shows "\<exists>n'. removeAt n i = Some (keys n ! i, vals n ! i, n') \<and> shape 0 (lo - 1) n' \<and>
    entries n' = remove_at (entries n) i"
  using assms
  by (auto simp: removeAt_def go_simps entries_leaf zip_remove_at)

lemma set_remove_at: "set (remove_at xs i) \<subseteq> set xs"
  by (auto simp: remove_at_def dest: in_set_takeD in_set_dropD)

text \<open>
  The deleted pair comes from the node; a nil answer leaves the node as it was; and the
  node loses at most one key.
\<close>

lemma deleteNode_shape:
  assumes "shape h lo n" "1 \<le> lo" "no_nil (entries n)"
  shows "\<exists>dk dv n'. deleteNode key seek n = Some (dk, dv, n') \<and> shape h (lo - 1) n' \<and>
    set (entries n') \<subseteq> set (entries n) \<and>
    (if dk = NilSlice then n' = n else (dk, dv) \<in> set (entries n))"
  using assms
proof (induction h arbitrary: lo n seek)
  case 0
  show ?case
  proof (cases "seek \<or> hit n key")
    case True
    define i where "i = (if seek then 0 else findindex n key)"
    have i: "i < length (keys n)" using True 0 by (auto simp: i_def hit_def)
    have mem: "(keys n ! i, vals n ! i) \<in> set (entries n)"
      using i 0 by (auto simp: entries_leaf in_set_zip)
    have "keys n ! i \<noteq> NilSlice" using mem 0(3) by (force simp: no_nil_def)
    moreover obtain n' where "removeAt n i = Some (keys n ! i, vals n ! i, n')" "shape 0 (lo - 1) n'"
      "entries n' = remove_at (entries n) i"
      using removeAt_leaf [OF 0(1) i] by blast
    moreover have "deleteNode key seek n = removeAt n i"
      using deleteNode_leaf [OF 0(1), of key seek] True by (auto simp: i_def)
    ultimately show ?thesis using mem set_remove_at by fastforce
  next
    case False
    then show ?thesis
      using deleteNode_leaf [OF 0(1), of key seek] 0 by (auto intro: shape_mono)
  qed
next
  case (Suc h)
  note sh = Suc.prems(1)
  let ?c = "children n ! del_idx n key"
  have sub: "set (entries ?c) \<subseteq> set (entries n)" by (rule entries_child_subset [OF sh del_idx_le])
  have "no_nil (entries ?c)" using Suc.prems(3) sub by (auto simp: no_nil_def)
  with Suc.IH [OF shape_child [OF sh del_idx_le [of n key]], where seek = "hit n key \<or> seek"]
  obtain dk dv c where rec: "deleteNode key (hit n key \<or> seek) ?c = Some (dk, dv, c)"
    and c': "shape h (2 - 1) c" "set (entries c) \<subseteq> set (entries ?c)"
      "if dk = NilSlice then c = ?c else (dk, dv) \<in> set (entries ?c)"
    by (metis one_le_numeral)
  from c' have c: "shape h 1 c" "set (entries c) \<subseteq> set (entries ?c)"
      "if dk = NilSlice then c = ?c else (dk, dv) \<in> set (entries ?c)" by simp_all
  show ?case
  proof (cases "dk = NilSlice")
    case True
    then have "deleteNode key seek n = Some (NilSlice, NilSlice, n)"
      using deleteNode_internal [OF sh rec] c(3) del_idx_le [of n key] sh
      by (simp add: set_child_same le_imp_less_Suc)
    then show ?thesis using sh by (auto intro: shape_mono simp del: shape.simps)
  next
    case False
    from deleteNode_step [OF sh Suc.prems(2) rec c(1) False] obtain n' where
      "deleteNode key seek n = Some (dk, dv, n')" "shape (Suc h) (lo - 1) n'"
      "entries n' = entries (del_node n key dk dv c)" by blast
    moreover have "(dk, dv) \<in> set (entries n)" using False c(3) sub by auto
    ultimately show ?thesis
      using del_node_subset [OF sh _ \<open>(dk, dv) \<in> set (entries n)\<close>, of c key] c(2) sub False by auto
  qed
qed


section \<open>Content on a strictly ordered tree\<close>

lemma no_nil_sub: "no_nil es \<Longrightarrow> set es' \<subseteq> set es \<Longrightarrow> no_nil es'"
  by (auto simp: no_nil_def)

lemma findindex_zero:
  assumes "\<And>k. k \<in> set (keys n) \<Longrightarrow> bytes_of key < bytes_of k"
  shows "findindex n key = 0 \<and> \<not> hit n key"
proof -
  have "findindex_keys (keys n) key = 0"
    by (rule findindex_keys_take_drop) (use assms in \<open>auto intro: less_imp_le\<close>)
  then show ?thesis using assms [of "keys n ! 0"] by (auto simp: findindex_def hit_def)
qed

lemma keys_in_entries:
  assumes "shape h lo n" "k \<in> set (keys n)"
  shows "\<exists>v. (k, v) \<in> set (entries n)"
proof -
  have "length (vals n) = length (keys n)" by (rule shape_lens [OF assms(1)])
  then obtain v where v: "(k, v) \<in> set (kvs n)"
    using assms(2) by (metis in_set_impl_in_set_zip1)
  have "set (kvs n) \<subseteq> set (entries n)"
  proof (cases h)
    case 0
    then show ?thesis using assms(1) by (simp add: entries_leaf)
  next
    case (Suc h')
    then show ?thesis using assms(1) by (subst set_entries_internal) auto
  qed
  with v show ?thesis by blast
qed

text \<open>Seeking the successor below a smaller key removes the first entry.\<close>

lemma deleteNode_seek:
  assumes "shape h lo n" "1 \<le> lo" "no_nil (entries n)"
    and "\<And>p. p \<in> set (entries n) \<Longrightarrow> bytes_of key < ekey p"
  shows "\<exists>dk dv n'. deleteNode key True n = Some (dk, dv, n') \<and> shape h (lo - 1) n' \<and>
    entries n = (dk, dv) # entries n' \<and> dk \<noteq> NilSlice"
  using assms
proof (induction h arbitrary: lo n)
  case 0
  have i: "0 < length (keys n)" using 0 by auto
  obtain n' where n': "removeAt n 0 = Some (keys n ! 0, vals n ! 0, n')" "shape 0 (lo - 1) n'"
    "entries n' = remove_at (entries n) 0"
    using removeAt_leaf [OF 0(1) i] by blast
  have "entries n = (keys n ! 0, vals n ! 0) # entries n'"
    using 0(1) i n'(3) by (cases "keys n"; cases "vals n") (auto simp: entries_leaf remove_at_def)
  moreover have "keys n ! 0 \<noteq> NilSlice"
    using calculation 0(3) by (auto simp: no_nil_def)
  ultimately show ?case
    using n' deleteNode_leaf [OF 0(1), of key True] by auto
next
  case (Suc h)
  note sh = Suc.prems(1)
  have z: "findindex n key = 0" "\<not> hit n key"
    using findindex_zero [of n key] keys_in_entries [OF sh] Suc.prems(4) by fastforce+
  then have idx: "del_idx n key = 0" by (simp add: del_idx_def)
  note E = entries_at [OF sh, of 0, simplified]
  let ?c = "children n ! 0"
  have "no_nil (entries ?c)" using Suc.prems(3) by (rule no_nil_sub) (use E in auto)
  moreover have "bytes_of key < ekey p" if "p \<in> set (entries ?c)" for p
    using Suc.prems(4) that E by auto
  ultimately have "\<exists>dk dv n'. deleteNode key True ?c = Some (dk, dv, n') \<and> shape h (2 - 1) n' \<and>
      entries ?c = (dk, dv) # entries n' \<and> dk \<noteq> NilSlice"
    by (intro Suc.IH shape_child [OF sh]) simp_all
  then obtain dk dv c where c: "deleteNode key True ?c = Some (dk, dv, c)" "shape h 1 c"
    "entries ?c = (dk, dv) # entries c" "dk \<noteq> NilSlice" by auto
  have rec: "deleteNode key (hit n key \<or> True) (children n ! del_idx n key) = Some (dk, dv, c)"
    using c(1) idx by simp
  from deleteNode_step [OF sh Suc.prems(2) rec c(2,4)] obtain n' where
    n': "deleteNode key True n = Some (dk, dv, n')" "shape (Suc h) (lo - 1) n'"
      "entries n' = entries (set_child n 0 c)" using z idx by (auto simp: del_node_def)
  have "entries n = (dk, dv) # entries n'"
    using E c(3) n'(3) entries_set_child [OF sh, of 0 c] by (simp add: before_def)
  then show ?case using n' c(4) by blast
qed

lemma filter_neq_id:
  "(\<And>p. p \<in> set xs \<Longrightarrow> ekey p \<noteq> k) \<Longrightarrow> filter (\<lambda>p. ekey p \<noteq> k) xs = xs"
  by (simp add: filter_id_conv)

lemma filter_neq_mid:
  assumes "strict (xs @ (s, v) # ys)" "bytes_of s = k"
  shows "filter (\<lambda>p. ekey p \<noteq> k) (xs @ (s, v) # ys) = xs @ ys"
proof -
  have "ekey p \<noteq> k" if "p \<in> set xs \<union> set ys" for p
    using that assms by (fastforce simp: strict_simps)
  then have "filter (\<lambda>p. ekey p \<noteq> k) xs = xs" "filter (\<lambda>p. ekey p \<noteq> k) ys = ys"
    by (simp_all add: filter_neq_id)
  then show ?thesis using assms(2) by simp
qed

text \<open>Deleting at a separator: its successor takes its place.\<close>

lemma del_node_hit:
  assumes sh: "shape (Suc h) lo n" and st: "strict (entries n)" and hit: "hit n key"
    and c: "entries (children n ! del_idx n key) = (dk, dv) # entries c"
  shows "entries (del_node n key dk dv c) = filter (\<lambda>p. ekey p \<noteq> bytes_of key) (entries n)"
proof -
  let ?p = "findindex n key"
  have pk: "?p < length (keys n)" and kb: "bytes_of (keys n ! ?p) = bytes_of key"
    using hit by (simp_all add: hit_def)
  obtain ks1 k ks2 vs1 v vs2 cs1 l r cs2 where
    n: "n = Node (ks1 @ k # ks2) (vs1 @ v # vs2) (cs1 @ l # r # cs2) (isleaf n)"
    and len: "length ks1 = ?p" "length vs1 = ?p" "length cs1 = ?p"
      "length vs2 = length ks2" "length cs2 = length ks2"
    by (rule pair_split [of n ?p]) (use sh pk in simp_all)
  have nl: "isleaf n = False" using sh by simp
  note n' = n [unfolded nl]
  have k: "bytes_of k = bytes_of key" and r: "entries r = (dk, dv) # entries c"
    using kb c hit len by (subst (asm) (1) n', simp add: nth_append del_idx_def)+
  let ?X = "interleave (map entries cs1) (zip ks1 vs1)"
    and ?Y = "interleave ([] # map entries cs2) (zip ks2 vs2)"
  have E: "entries n = ?X @ (entries l @ (k, v) # entries r) @ ?Y"
    by (subst n') (rule entries_pair; use len in simp)
  have D: "del_node n key dk dv c = Node (ks1 @ dk # ks2) (vs1 @ dv # vs2) (cs1 @ l # c # cs2) False"
    using hit len nl n' [symmetric]
    by (auto simp: del_node_def del_idx_def list_update_append)
  have "entries (del_node n key dk dv c) = ?X @ (entries l @ (dk, dv) # entries c) @ ?Y"
    unfolding D by (rule entries_pair) (use len in simp_all)
  moreover have "filter (\<lambda>p. ekey p \<noteq> bytes_of key) (entries n) = ?X @ (entries l @ entries r) @ ?Y"
    using filter_neq_mid [of "?X @ entries l" k v "entries r @ ?Y"] st k unfolding E by simp
  ultimately show ?thesis using r by simp
qed


lemma strict_right_of_key:
  assumes sh: "shape (Suc h) lo n" and st: "strict (entries n)" and i: "i < length (keys n)"
    and p: "p \<in> set (entries (children n ! Suc i))"
  shows "bytes_of (keys n ! i) < ekey p"
proof -
  have "(keys n ! i, vals n ! i) \<in> set (take (Suc i) (kvs n))"
    using i sh by (auto simp: in_set_conv_nth intro!: exI [of _ i])
  then have "(keys n ! i, vals n ! i) \<in> set (before n (Suc i))"
    using i sh by (simp add: before_def set_interleave)
  moreover have "strict (before n (Suc i) @ entries (children n ! Suc i) @ after n (Suc i))"
    using st entries_at [OF sh, of "Suc i"] i by simp
  ultimately show ?thesis using p by (force simp: strict_append)
qed

lemma deleteNode_entries:
  assumes "shape h lo n" "1 \<le> lo" "no_nil (entries n)" "strict (entries n)"
  shows "\<exists>dk dv n'. deleteNode key False n = Some (dk, dv, n') \<and>
    entries n' = filter (\<lambda>p. ekey p \<noteq> bytes_of key) (entries n) \<and>
    (dk \<noteq> NilSlice \<longleftrightarrow> bytes_of key \<in> ekey ` set (entries n))"
  using assms
proof (induction h arbitrary: lo n)
  case 0
  note sh = 0(1)
  have E: "entries n = kvs n" and len: "length (vals n) = length (keys n)"
    using sh by (simp_all add: entries_leaf)
  let ?i = "findindex n key"
  show ?case
  proof (cases "hit n key")
    case True
    then have i: "?i < length (keys n)" and k: "bytes_of (keys n ! ?i) = bytes_of key"
      by (simp_all add: hit_def)
    obtain n' where n': "removeAt n ?i = Some (keys n ! ?i, vals n ! ?i, n')"
      "entries n' = remove_at (entries n) ?i"
      using removeAt_leaf [OF sh i] by blast
    have split: "entries n = take ?i (entries n) @ (keys n ! ?i, vals n ! ?i) # drop (Suc ?i) (entries n)"
      using id_take_nth_drop [of ?i "entries n"] E i len by simp
    have mem: "(keys n ! ?i, vals n ! ?i) \<in> set (entries n)"
      by (subst split) simp
    then have "keys n ! ?i \<noteq> NilSlice" "bytes_of key \<in> ekey ` set (entries n)"
      using 0(3) k by (force simp: no_nil_def)+
    moreover have "filter (\<lambda>p. ekey p \<noteq> bytes_of key) (entries n) = remove_at (entries n) ?i"
      using filter_neq_mid [of "take ?i (entries n)" "keys n ! ?i" "vals n ! ?i" "drop (Suc ?i) (entries n)",
          folded split, OF 0(4) k]
      by (simp add: remove_at_def)
    ultimately show ?thesis
      using n' True deleteNode_leaf [OF sh, of key False] by simp
  next
    case False
    then have "content (entries n) (bytes_of key) = None"
      using leaf_content_at [OF 0(4) sh refl, of key] by (simp add: hit_def)
    then have notin: "bytes_of key \<notin> ekey ` set (entries n)" by (simp add: content_None_iff)
    then have "filter (\<lambda>p. ekey p \<noteq> bytes_of key) (entries n) = entries n"
      by (intro filter_neq_id) (auto simp: image_iff)
    then show ?thesis
      using False notin deleteNode_leaf [OF sh, of key False] by simp
  qed
next
  case (Suc h)
  note sh = Suc.prems(1) and st = Suc.prems(4)
  let ?c = "children n ! del_idx n key"
  have sub: "set (entries ?c) \<subseteq> set (entries n)" by (rule entries_child_subset [OF sh del_idx_le])
  have nn: "no_nil (entries ?c)" using Suc.prems(3) sub by (rule no_nil_sub)
  have shc: "shape h 2 ?c" by (rule shape_child [OF sh del_idx_le])
  show ?case
  proof (cases "hit n key")
    case True
    have i: "findindex n key < length (keys n)" using True by (simp add: hit_def)
    have gt: "bytes_of key < ekey p" if "p \<in> set (entries ?c)" for p
      using strict_right_of_key [OF sh st i] that True by (auto simp: hit_def del_idx_def)
    from deleteNode_seek [OF shc _ nn gt] obtain dk dv c where
      c: "deleteNode key True ?c = Some (dk, dv, c)" "shape h 1 c"
        "entries ?c = (dk, dv) # entries c" "dk \<noteq> NilSlice" by auto
    have rec: "deleteNode key (hit n key \<or> False) ?c = Some (dk, dv, c)" using c(1) True by simp
    from deleteNode_step [OF sh Suc.prems(2) rec c(2,4)] del_node_hit [OF sh st True c(3)]
    obtain n' where "deleteNode key False n = Some (dk, dv, n')"
      "entries n' = filter (\<lambda>p. ekey p \<noteq> bytes_of key) (entries n)" by auto
    moreover have "bytes_of key \<in> ekey ` set (entries n)"
      using keys_in_entries [OF sh, of "keys n ! findindex n key"] True by (force simp: hit_def)
    ultimately show ?thesis using c(4) by blast
  next
    case False
    then have idx: "del_idx n key = findindex n key" by (simp add: del_idx_def)
    note E = entries_at [OF sh findindex_le [of n key]]
    have less: "ekey p < bytes_of key" if "p \<in> set (before n (findindex n key))" for p
      by (rule before_less [OF sh st refl that])
    have gt: "bytes_of key < ekey p" if "p \<in> set (after n (findindex n key))" for p
      using after_ge [OF sh st refl that] False by (auto simp: hit_def)
    have split: "filter (\<lambda>p. ekey p \<noteq> bytes_of key) (entries n) = before n (findindex n key) @
        filter (\<lambda>p. ekey p \<noteq> bytes_of key) (entries ?c) @ after n (findindex n key)"
    proof -
      have "filter (\<lambda>p. ekey p \<noteq> bytes_of key) (before n (findindex n key)) = before n (findindex n key)"
        by (rule filter_neq_id) (use less in force)
      moreover have "filter (\<lambda>p. ekey p \<noteq> bytes_of key) (after n (findindex n key)) = after n (findindex n key)"
        by (rule filter_neq_id) (use gt in force)
      ultimately show ?thesis by (simp add: E idx)
    qed
    have mem: "bytes_of key \<in> ekey ` set (entries n) \<longleftrightarrow> bytes_of key \<in> ekey ` set (entries ?c)"
    proof -
      have "bytes_of key \<notin> ekey ` set (before n (findindex n key))" using less by force
      moreover have "bytes_of key \<notin> ekey ` set (after n (findindex n key))" using gt by force
      ultimately show ?thesis by (simp only: E idx set_append image_Un Un_iff) blast
    qed
    have stc: "strict (entries ?c)" by (rule strict_child [OF sh st del_idx_le])
    from Suc.IH [OF shc _ nn stc] obtain dk dv c where
      c: "deleteNode key False ?c = Some (dk, dv, c)"
        "entries c = filter (\<lambda>p. ekey p \<noteq> bytes_of key) (entries ?c)"
        "dk \<noteq> NilSlice \<longleftrightarrow> bytes_of key \<in> ekey ` set (entries ?c)" by auto
    have rec: "deleteNode key (hit n key \<or> False) ?c = Some (dk, dv, c)" using c(1) False by simp
    have res: "entries (set_child n (del_idx n key) c) = filter (\<lambda>p. ekey p \<noteq> bytes_of key) (entries n)"
      using entries_set_child [OF sh findindex_le [of n key], of c] split c(2) idx by simp
    show ?thesis
    proof (cases "dk = NilSlice")
      case True
      then show ?thesis using deleteNode_internal [OF sh rec] res mem c(3) by auto
    next
      case dk: False
      have "shape h (2 - 1) c"
        using deleteNode_shape [OF shc _ nn, of key False] c(1) by auto
      then have "shape h 1 c" by simp
      from deleteNode_step [OF sh Suc.prems(2) rec this dk] obtain n' where
        "deleteNode key False n = Some (dk, dv, n')"
        "entries n' = entries (set_child n (del_idx n key) c)"
        using False by (auto simp: del_node_def)
      then show ?thesis using res mem c(3) dk by auto
    qed
  qed
qed

section \<open>The tree operation\<close>

lemma Btree_Delete_shape:
  assumes "tree_shape t" "no_nil (tree_entries t)"
  shows "\<exists>b t'. Btree_Delete t key = Some (b, t') \<and> tree_shape t' \<and>
    set (tree_entries t') \<subseteq> set (tree_entries t)"
proof (cases "root t")
  case None
  then show ?thesis using assms by (auto simp: Btree_Delete_def)
next
  case (Some n)
  let ?h = "height n"
  have sh: "shape ?h 1 n" and nn: "no_nil (entries n)"
    using assms Some by (simp_all add: tree_shape_def tree_entries_def)
  from deleteNode_shape [OF sh order.refl nn, of key False] obtain dk dv n' where
    n': "deleteNode key False n = Some (dk, dv, n')" "shape ?h 0 n'" "set (entries n') \<subseteq> set (entries n)"
    by auto
  show ?thesis
  proof (cases "length (keys n') = 0")
    case nonempty: False
    then have "shape ?h 1 n'" by (intro shape_lo [OF n'(2)]) (simp add: Suc_le_eq)
    then show ?thesis
      using Some n' nonempty shape_height
      by (auto simp: Btree_Delete_def tree_shape_def tree_entries_def)
  next
    case True
    show ?thesis
    proof (cases ?h)
      case 0
      then show ?thesis
        using Some n' True by (auto simp: Btree_Delete_def tree_shape_def tree_entries_def)
    next
      case (Suc h)
      then obtain c where c: "children n' = [c]" "shape h 2 c" "\<not> isleaf n'"
        using n'(2) True by (cases "children n'") auto
      then have "shape (height c) 1 c" using shape_height shape_mono [of h 2 c 1] by fastforce
      moreover have "entries n' = entries c"
        using c True by (simp add: entries_internal)
      ultimately show ?thesis
        using Some n' True c by (auto simp: Btree_Delete_def tree_shape_def tree_entries_def)
    qed
  qed
qed

lemma Btree_Delete_entries:
  assumes "tree_shape t" "no_nil (tree_entries t)" "tree_strict t"
  shows "\<exists>t'. Btree_Delete t key = Some (bytes_of key \<in> ekey ` set (tree_entries t), t') \<and>
    tree_entries t' = filter (\<lambda>p. ekey p \<noteq> bytes_of key) (tree_entries t)"
proof (cases "root t")
  case None
  then show ?thesis by (simp add: Btree_Delete_def tree_entries_def)
next
  case (Some n)
  have a: "shape (height n) 1 n" "no_nil (entries n)" "strict (entries n)"
    using assms Some by (simp_all add: tree_shape_def tree_entries_def tree_strict_def)
  from deleteNode_entries [OF a(1) order.refl a(2,3), of key] obtain dk dv n' where
    n': "deleteNode key False n = Some (dk, dv, n')"
      "entries n' = filter (\<lambda>p. ekey p \<noteq> bytes_of key) (entries n)"
      "dk \<noteq> NilSlice \<longleftrightarrow> bytes_of key \<in> ekey ` set (entries n)" by blast
  from deleteNode_shape [OF a(1) order.refl a(2), of key False] n'(1)
  have sh: "shape (height n) 0 n'" by auto
  define r where "r = (if length (keys n') = 0
    then (if isleaf n' then None else if length (children n') > 0 then Some (children n' ! 0) else Some n')
    else Some n')"
  have "(case r of None \<Rightarrow> [] | Some m \<Rightarrow> entries m) = entries n'"
  proof (cases "height n")
    case 0
    then show ?thesis using sh by (simp add: r_def entries_leaf)
  next
    case (Suc h)
    then show ?thesis
      using sh by (cases "children n'") (auto simp: r_def entries_internal)
  qed
  then show ?thesis
    using Some n' by (auto simp: Btree_Delete_def tree_entries_def r_def Let_def)
qed

end
