(* ===== verification/Btree_Range.thy ===== *)
theory Btree_Range
  imports Btree_Find Btree_Insert Btree_Delete
begin

text \<open>
  Traversals: the range queries of \<^verbatim>\<open>src/bptree/iterator.go\<close> and the two tree walks
  of \<^verbatim>\<open>src/bptree/sharded_btree.go\<close> (\<open>countKeys\<close>, \<open>forEach\<close>).

  An index loop \<^verbatim>\<open>for i := pos; i < len(n.keys); i++\<close> is a recursion over the tails of
  the key, value and child arrays from \<open>pos\<close> on; a read past the end of the value
  array is the panic \<open>None\<close>.  The output slices that the source grows through pointers
  are the pair \<open>acc\<close>.
\<close>

section \<open>Range queries\<close>

type_synonym range_acc = "Keytype list \<times> Valuetype list"

primrec rangePos :: "Keytype list \<Rightarrow> slice \<Rightarrow> nat" where
  "rangePos [] startKey = 0"
| "rangePos (k # ks) startKey =
     (if bytes_Compare k startKey < 0 then Suc (rangePos ks startKey) else 0)"

definition emit :: "range_acc \<Rightarrow> Keytype \<Rightarrow> Valuetype \<Rightarrow> range_acc" where
  "emit acc k v = (fst acc @ [slice_copy k], snd acc @ [slice_copy v])"

fun leafRange :: "slice \<Rightarrow> Keytype list \<Rightarrow> Valuetype list \<Rightarrow> range_acc \<Rightarrow> range_acc option" where
  "leafRange endKey [] vs acc = Some acc"
| "leafRange endKey (k # ks) vs acc =
     (if bytes_Compare k endKey \<le> 0
      then (case vs of
              [] \<Rightarrow> None
            | v # vs' \<Rightarrow> leafRange endKey ks vs' (emit acc k v))
      else Some acc)"

function (sequential)
  getRange :: "slice \<Rightarrow> slice \<Rightarrow> Node \<Rightarrow> range_acc \<Rightarrow> range_acc option" and
  getRangeLoop :: "slice \<Rightarrow> slice \<Rightarrow> Keytype list \<Rightarrow> Valuetype list \<Rightarrow> Node list \<Rightarrow> range_acc \<Rightarrow> range_acc option"
where
  "getRange startKey endKey (Node ks vs cs leaf) acc =
     (let pos = rangePos ks startKey in
      if leaf then leafRange endKey (drop pos ks) (drop pos vs) acc
      else do {
        acc1 \<leftarrow> (if pos < length cs then getRange startKey endKey (cs ! pos) acc else Some acc);
        getRangeLoop startKey endKey (drop pos ks) (drop pos vs) (drop (pos + 1) cs) acc1
      })"
| "getRangeLoop startKey endKey [] vs cs acc = Some acc"
| "getRangeLoop startKey endKey (k # ks) vs cs acc =
     (if bytes_Compare k endKey > 0 then Some acc
      else (case vs of
              [] \<Rightarrow> None
            | v # vs' \<Rightarrow>
                (case cs of
                   [] \<Rightarrow> getRangeLoop startKey endKey ks vs' [] (emit acc k v)
                 | c # cs' \<Rightarrow>
                     do {
                       acc1 \<leftarrow> getRange startKey endKey c (emit acc k v);
                       getRangeLoop startKey endKey ks vs' cs' acc1
                     })))"
  by pat_completeness auto
termination
proof (relation "measures
    [\<lambda>x. case x of Inl (_, _, n, _) \<Rightarrow> size n | Inr (_, _, _, _, cs, _) \<Rightarrow> size_list size cs,
     \<lambda>x. case x of Inl _ \<Rightarrow> 0 | Inr (_, _, ks, _, _, _) \<Rightarrow> length ks]", goal_cases)
  case (2 startKey endKey ks vs cs leaf acc pos)
  then show ?case using size_list_estimation' [OF nth_mem order.refl, of pos cs size] by simp
next
  case (3 startKey endKey ks vs cs leaf acc pos acc1)
  have "size_list size (drop i cs) \<le> size_list size cs" for i
    by (induction cs arbitrary: i) (auto simp: drop_Cons le_SucI trans_le_add2 split: nat.split)
  then show ?case by (simp add: le_imp_less_Suc)
qed auto

definition Btree_GetRange ::
  "Btree \<Rightarrow> slice \<Rightarrow> slice \<Rightarrow> (go_error + Keytype list \<times> Valuetype list) option" where
  "Btree_GetRange t startKey endKey =
     (case root t of
        None \<Rightarrow> Some (Inr ([], []))
      | Some r \<Rightarrow>
          if bytes_Compare startKey endKey > 0 then Some (Inl ErrInvalidRange)
          else map_option Inr (getRange startKey endKey r ([], [])))"

definition Btree_DeleteRange :: "Btree \<Rightarrow> slice \<Rightarrow> slice \<Rightarrow> ((go_error + nat) \<times> Btree) option" where
  "Btree_DeleteRange t startKey endKey =
     do {
       r \<leftarrow> Btree_GetRange t startKey endKey;
       (case r of
          Inl err \<Rightarrow> Some (Inl err, t)
        | Inr (ks, _) \<Rightarrow> map_option (\<lambda>(n, t'). (Inr n, t')) (delete_each Btree_Delete t ks 0))
     }"

section \<open>Walks\<close>

function (sequential) countKeys :: "Node \<Rightarrow> int" where
  "countKeys (Node ks vs cs leaf) =
     (if \<not> leaf then int (length ks) + sum_list (map countKeys cs) else int (length ks))"
  by pat_completeness auto
termination
  by (relation "measure size") (auto dest!: size_list_estimation' [OF _ order.refl, where f = size])

definition Btree_countKeys :: "Btree \<Rightarrow> int" where
  "Btree_countKeys t = (case root t of None \<Rightarrow> 0 | Some r \<Rightarrow> countKeys r)"

text \<open>
  A callback reads and updates what it has captured, the state \<open>'s\<close>; its answer
  \<open>False\<close> stops the walk.
\<close>

type_synonym 's callback = "Keytype \<Rightarrow> Valuetype \<Rightarrow> 's \<Rightarrow> bool \<times> 's"

fun leafForEach :: "'s callback \<Rightarrow> Keytype list \<Rightarrow> Valuetype list \<Rightarrow> 's \<Rightarrow> (bool \<times> 's) option" where
  "leafForEach callback [] vs s = Some (True, s)"
| "leafForEach callback (k # ks) [] s = None"
| "leafForEach callback (k # ks) (v # vs) s =
     (case callback k v s of
        (False, s') \<Rightarrow> Some (False, s')
      | (True, s') \<Rightarrow> leafForEach callback ks vs s')"

function (sequential)
  forEach :: "'s callback \<Rightarrow> Node \<Rightarrow> 's \<Rightarrow> (bool \<times> 's) option" and
  forEachLoop :: "'s callback \<Rightarrow> Keytype list \<Rightarrow> Valuetype list \<Rightarrow> Node list \<Rightarrow> 's \<Rightarrow> (bool \<times> 's) option"
where
  "forEach callback (Node ks vs cs leaf) s =
     (if leaf then leafForEach callback ks vs s else forEachLoop callback ks vs cs s)"
| "forEachLoop callback ks vs [] s = Some (True, s)"
| "forEachLoop callback ks vs (c # cs) s =
     do {
       (go, s1) \<leftarrow> forEach callback c s;
       if \<not> go then Some (False, s1)
       else (case ks of
               [] \<Rightarrow> forEachLoop callback [] [] cs s1
             | k # ks' \<Rightarrow>
                 (case vs of
                    [] \<Rightarrow> None
                  | v # vs' \<Rightarrow>
                      (case callback k v s1 of
                         (False, s2) \<Rightarrow> Some (False, s2)
                       | (True, s2) \<Rightarrow> forEachLoop callback ks' vs' cs s2)))
     }"
  by pat_completeness auto
termination
  by (relation "measure (\<lambda>x. case x of Inl (_, n, _) \<Rightarrow> 2 * size n | Inr (_, _, _, cs, _) \<Rightarrow> Suc (2 * size_list size cs))")
    auto

section \<open>GetRange is a filter of the content\<close>

definition in_range :: "slice \<Rightarrow> slice \<Rightarrow> Keytype \<times> Valuetype \<Rightarrow> bool" where
  "in_range s e p \<longleftrightarrow> bytes_of s \<le> ekey p \<and> ekey p \<le> bytes_of e"

definition emit_all :: "range_acc \<Rightarrow> (Keytype \<times> Valuetype) list \<Rightarrow> range_acc" where
  "emit_all acc es = (fst acc @ map (\<lambda>p. slice_copy (fst p)) es, snd acc @ map (\<lambda>p. slice_copy (snd p)) es)"

lemma emit_all_simps [simp]:
  "emit_all acc [] = acc" "emit_all (emit acc k v) es = emit_all acc ((k, v) # es)"
  "emit_all (emit_all acc xs) ys = emit_all acc (xs @ ys)"
  by (simp_all add: emit_all_def emit_def)

lemma rangePos_findindex: "rangePos ks s = findindex_keys ks s"
  by (induction ks) auto


lemma filter_in_range_none:
  "(\<And>p. p \<in> set xs \<Longrightarrow> \<not> in_range s e p) \<Longrightarrow> filter (in_range s e) xs = []"
  by (simp add: filter_empty_conv)

lemma leafRange_filter:
  assumes "length vs = length ks" "strict (zip ks vs)" "\<And>p. p \<in> set (zip ks vs) \<Longrightarrow> bytes_of s \<le> ekey p"
  shows "leafRange e ks vs acc = Some (emit_all acc (filter (in_range s e) (zip ks vs)))"
  using assms
proof (induction ks vs arbitrary: acc rule: list_induct2')
  case (4 k ks v vs)
  show ?case
  proof (cases "bytes_of k \<le> bytes_of e")
    case True
    moreover have "bytes_of s \<le> bytes_of k" using 4(4) [of "(k, v)"] by simp
    ultimately show ?thesis using 4 by (simp add: strict_Cons in_range_def)
  next
    case False
    then have "filter (in_range s e) (zip (k # ks) (v # vs)) = []"
      using 4(3) by (intro filter_in_range_none) (force simp: in_range_def strict_Cons)
    then show ?thesis using False by (simp only: leafRange.simps bytes_Compare_nonpos if_False emit_all_simps)
  qed
qed auto

lemma getRangeLoop_filter:
  assumes "length vs = length ks" "length cs = length ks"
    and "\<And>c acc. c \<in> set cs \<Longrightarrow> getRange s e c acc = Some (emit_all acc (filter (in_range s e) (entries c)))"
    and "strict (interleave ([] # map entries cs) (zip ks vs))"
    and "\<And>p. p \<in> set (interleave ([] # map entries cs) (zip ks vs)) \<Longrightarrow> bytes_of s \<le> ekey p"
  shows "getRangeLoop s e ks vs cs acc =
    Some (emit_all acc (filter (in_range s e) (interleave ([] # map entries cs) (zip ks vs))))"
  using assms
proof (induction ks arbitrary: vs cs acc)
  case Nil
  then show ?case by simp
next
  case (Cons k ks)
  then obtain v vs' c cs' where eq: "vs = v # vs'" "cs = c # cs'"
    by (metis length_Suc_conv)
  let ?W = "interleave ([] # map entries cs') (zip ks vs')"
  have W: "interleave ([] # map entries cs) (zip (k # ks) vs) = (k, v) # entries c @ ?W"
    by (simp add: eq interleave_Cons_Nil [of "entries c"])
  have IH: "getRangeLoop s e ks vs' cs' acc' = Some (emit_all acc' (filter (in_range s e) ?W))" for acc'
  proof (rule Cons.IH)
    show "strict ?W" using Cons.prems(4) unfolding W by (simp add: strict_simps)
    show "bytes_of s \<le> ekey p" if "p \<in> set ?W" for p
      using Cons.prems(5) [of p] that unfolding W by simp
  qed (use Cons.prems(1-3) eq in simp_all)
  show ?case
  proof (cases "bytes_of e < bytes_of k")
    case True
    have gt: "bytes_of k \<le> ekey p" if "p \<in> set ((k, v) # entries c @ ?W)" for p
      using Cons.prems(4) that unfolding W by (auto simp: strict_Cons intro: less_imp_le)
    have "filter (in_range s e) ((k, v) # entries c @ ?W) = []"
      by (rule filter_in_range_none) (use gt True in \<open>force simp: in_range_def\<close>)
    then show ?thesis using True unfolding W by simp
  next
    case False
    moreover have "bytes_of s \<le> bytes_of k" using Cons.prems(5) [of "(k, v)"] unfolding W by simp
    ultimately have "in_range s e (k, v)" by (simp add: in_range_def)
    then show ?thesis using False IH Cons.prems(3) [of c] unfolding W by (simp add: eq)
  qed
qed

lemma getRange_unfold:
  "getRange s e n acc =
     (let pos = findindex n s in
      if isleaf n then leafRange e (drop pos (keys n)) (drop pos (vals n)) acc
      else do {
        acc1 \<leftarrow> (if pos < length (children n) then getRange s e (children n ! pos) acc else Some acc);
        getRangeLoop s e (drop pos (keys n)) (drop pos (vals n)) (drop (pos + 1) (children n)) acc1
      })"
  by (cases n) (simp add: rangePos_findindex findindex_def Let_def)

lemma getRange_filter:
  "shape h lo n \<Longrightarrow> strict (entries n) \<Longrightarrow>
   getRange s e n acc = Some (emit_all acc (filter (in_range s e) (entries n)))"
proof (induction h arbitrary: lo n acc)
  case 0
  let ?i = "findindex n s"
  have E: "entries n = take ?i (kvs n) @ drop ?i (kvs n)" and len: "length (vals n) = length (keys n)"
    using 0 by (simp_all add: entries_leaf)
  have st: "strict (kvs n)" using 0 by (simp add: entries_leaf)
  have "filter (in_range s e) (take ?i (kvs n)) = []"
    by (rule filter_in_range_none) (use leaf_take_less [of ?i n s, OF refl] in \<open>force simp: in_range_def\<close>)
  moreover have ge: "bytes_of s \<le> ekey p" if p: "p \<in> set (drop ?i (kvs n))" for p
  proof -
    have i: "?i < length (keys n)" using p len by (cases "?i < length (keys n)") auto
    have "drop ?i (kvs n) = (keys n ! ?i, vals n ! ?i) # drop (Suc ?i) (kvs n)"
      using i len Cons_nth_drop_Suc [of ?i "kvs n"] by simp
    moreover note leaf_drop_ge(2) [OF refl st len i] leaf_drop_ge(3) [OF refl st len i, of p]
    ultimately show ?thesis using p by (auto intro: less_imp_le order.trans)
  qed
  moreover have "leafRange e (drop ?i (keys n)) (drop ?i (vals n)) acc =
      Some (emit_all acc (filter (in_range s e) (drop ?i (kvs n))))"
    unfolding drop_zip
    by (rule leafRange_filter) (use ge st len in \<open>auto simp: drop_zip [symmetric] strict_def drop_map [symmetric] sorted_wrt_drop\<close>)
  moreover have "filter (in_range s e) (entries n) =
      filter (in_range s e) (take ?i (kvs n)) @ filter (in_range s e) (drop ?i (kvs n))"
    by (subst E) (rule filter_append)
  ultimately show ?case using 0(1) by (subst getRange_unfold) simp
next
  case (Suc h)
  note sh = Suc.prems(1) and st = Suc.prems(2)
  let ?i = "findindex n s"
  note E = entries_at [OF sh findindex_le [of n s]]
  have i: "?i < length (children n)" using sh by (simp add: le_imp_less_Suc)
  have b: "filter (in_range s e) (before n ?i) = []"
    by (rule filter_in_range_none) (use before_less [where key = s, OF sh st refl] in \<open>force simp: in_range_def\<close>)
  have c: "getRange s e (children n ! ?i) acc' =
      Some (emit_all acc' (filter (in_range s e) (entries (children n ! ?i))))" for acc'
    by (rule Suc.IH [OF shape_child [OF sh findindex_le] strict_child [OF sh st findindex_le]])
  have A: "after n ?i = interleave ([] # map entries (drop (Suc ?i) (children n))) (zip (drop ?i (keys n)) (drop ?i (vals n)))"
    by (simp add: after_def drop_zip)
  have "getRangeLoop s e (drop ?i (keys n)) (drop ?i (vals n)) (drop (Suc ?i) (children n)) acc' =
      Some (emit_all acc' (filter (in_range s e) (after n ?i)))" for acc'
    unfolding A
  proof (rule getRangeLoop_filter)
    show "getRange s e x acc' = Some (emit_all acc' (filter (in_range s e) (entries x)))"
      if x: "x \<in> set (drop (Suc ?i) (children n))" for x acc'
    proof -
      from in_set_dropD [OF x] obtain j where "j \<le> length (keys n)" "x = children n ! j"
        using sh by (auto simp: in_set_conv_nth less_Suc_eq_le)
      then show ?thesis using Suc.IH [OF shape_child [OF sh] strict_child [OF sh st]] by simp
    qed
    show "strict (interleave ([] # map entries (drop (Suc ?i) (children n))) (zip (drop ?i (keys n)) (drop ?i (vals n))))"
      using st E A by (simp add: strict_append)
    show "bytes_of s \<le> ekey p"
      if "p \<in> set (interleave ([] # map entries (drop (Suc ?i) (children n))) (zip (drop ?i (keys n)) (drop ?i (vals n))))" for p
      using after_ge [where key = s and p = p, OF sh st refl] that A by (auto intro: order.trans)
  qed (use sh in auto)
  then show ?case
    using sh i b c by (subst getRange_unfold) (simp add: E Let_def)
qed


lemma Btree_GetRange_filter:
  assumes "tree_shape t" "tree_strict t"
  shows "Btree_GetRange t s e =
    Some (if root t \<noteq> None \<and> bytes_of e < bytes_of s then Inl ErrInvalidRange
          else Inr (emit_all ([], []) (filter (in_range s e) (tree_entries t))))"
proof (cases "root t")
  case None
  then show ?thesis by (simp add: Btree_GetRange_def tree_entries_def)
next
  case (Some n)
  then have "getRange s e n ([], []) = Some (emit_all ([], []) (filter (in_range s e) (tree_entries t)))"
    using assms getRange_filter by (simp add: tree_shape_def tree_strict_def tree_entries_def)
  with Some show ?thesis by (simp add: Btree_GetRange_def)
qed

section \<open>Walks see every entry once, in order\<close>

lemma countKeys_entries: "shape h lo n \<Longrightarrow> countKeys n = int (length (entries n))"
proof (induction h arbitrary: lo n)
  case 0
  then show ?case by (cases n) simp
next
  case (Suc h)
  have "countKeys c = int (length (entries c))" if "c \<in> set (children n)" for c
    by (rule Suc.IH [of 2]) (use Suc.prems that in simp)
  then have "sum_list (map countKeys (children n)) = int (sum_list (map (length \<circ> entries) (children n)))"
    by (simp add: sum_list_of_nat [symmetric] cong: map_cong)
  then show ?case
    using Suc.prems by (cases n) (simp add: length_interleave)
qed

lemma Btree_countKeys_entries: "tree_shape t \<Longrightarrow> Btree_countKeys t = int (length (tree_entries t))"
  using countKeys_entries by (auto simp: Btree_countKeys_def tree_shape_def tree_entries_def split: option.splits)

text \<open>The reference: run a callback over a list until it says stop.\<close>

fun run_until :: "'s callback \<Rightarrow> (Keytype \<times> Valuetype) list \<Rightarrow> 's \<Rightarrow> bool \<times> 's" where
  "run_until f [] s = (True, s)"
| "run_until f ((k, v) # es) s =
     (case f k v s of (False, s') \<Rightarrow> (False, s') | (True, s') \<Rightarrow> run_until f es s')"

lemma run_until_append:
  "run_until f (xs @ ys) s =
     (case run_until f xs s of (False, s') \<Rightarrow> (False, s') | (True, s') \<Rightarrow> run_until f ys s')"
  by (induction xs arbitrary: s) (auto split: prod.split bool.split)

lemma leafForEach_run:
  "length vs = length ks \<Longrightarrow> leafForEach f ks vs s = Some (run_until f (zip ks vs) s)"
  by (induction f ks vs s rule: leafForEach.induct) (auto split: prod.split bool.split)

lemma forEachLoop_run:
  assumes "length cs = Suc (length ks)" "length vs = length ks"
    and "\<And>c s. c \<in> set cs \<Longrightarrow> forEach f c s = Some (run_until f (entries c) s)"
  shows "forEachLoop f ks vs cs s = Some (run_until f (interleave (map entries cs) (zip ks vs)) s)"
  using assms
proof (induction ks arbitrary: vs cs s)
  case Nil
  then obtain c where "cs = [c]" by (auto simp: length_Suc_conv)
  with Nil show ?case by (auto split: prod.split bool.split)
next
  case (Cons k ks)
  then obtain c cs' v vs' where eq: "cs = c # cs'" "vs = v # vs'"
    by (metis length_Suc_conv)
  have "forEachLoop f ks vs' cs' s' = Some (run_until f (interleave (map entries cs') (zip ks vs')) s')" for s'
    by (rule Cons.IH) (use Cons.prems eq in auto)
  then show ?case
    using Cons.prems(3) [of c] by (auto simp: eq run_until_append split: prod.split bool.split)
qed

lemma forEach_run:
  "shape h lo n \<Longrightarrow> forEach f n s = Some (run_until f (entries n) s)"
proof (induction h arbitrary: lo n s)
  case 0
  then show ?case by (cases n) (simp add: leafForEach_run)
next
  case (Suc h)
  have "forEach f c s' = Some (run_until f (entries c) s')" if "c \<in> set (children n)" for c s'
    by (rule Suc.IH [of 2]) (use Suc.prems that in simp)
  then show ?case using Suc.prems forEachLoop_run [of "children n" "keys n" "vals n" f s] by (cases n) simp
qed

end
