(* ===== verification/Btree_Shadow.thy ===== *)
theory Btree_Shadow
  imports Btree_Insert Btree_Delete
begin

text \<open>
  What \<open>Insert\<close> does with a key that an internal node holds: the descent never compares
  the key with the separators it passes, so the pair goes into a leaf as a second copy,
  and \<open>Find\<close>, which stops at the separator, keeps answering with the old value.
\<close>

section \<open>Find through a split\<close>

definition rfind :: "slice \<Rightarrow> insert_result \<Rightarrow> (go_error + slice) option" where
  "rfind key r =
     (case r of
        Done n \<Rightarrow> findNode key n
      | Split l mk mv nn \<Rightarrow> findNode key (Node [mk] [mv] [l, nn] False))"

lemma findNode_internal:
  assumes "length cs = Suc (length ks)" "length vs = length ks" "i = findindex_keys ks key"
  shows "findNode key (Node ks vs cs False) =
    (if i < length ks \<and> bytes_of (ks ! i) = bytes_of key then Some (Inr (slice_copy (vs ! i)))
     else findNode key (cs ! i))"
  using assms findindex_keys_le [of ks key]
  by (auto simp: Let_def findindex_def go_simps)

lemma findindex_keys_append:
  "findindex_keys (xs @ ys) key =
     (if findindex_keys xs key < length xs then findindex_keys xs key
      else length xs + findindex_keys ys key)"
  by (induction xs) auto

lemma findNode_split:
  assumes len: "length vs1 = length ks1" "length cs1 = Suc (length ks1)"
      "length vs2 = length ks2" "length cs2 = Suc (length ks2)"
    and st: "\<And>x. x \<in> set ks1 \<Longrightarrow> bytes_of x < bytes_of k"
  shows "findNode key (Node [k] [v] [Node ks1 vs1 cs1 False, Node ks2 vs2 cs2 False] False) =
    findNode key (Node (ks1 @ k # ks2) (vs1 @ v # vs2) (cs1 @ cs2) False)"
proof (cases "findindex_keys ks1 key < length ks1")
  case True
  then have "bytes_of key < bytes_of k"
    using findindex_keys_at [OF True] st nth_mem [OF True] by (blast intro: order.strict_trans1)
  then show ?thesis
    using len True
    by (simp add: findNode_internal [OF _ _ refl] findindex_keys_append nth_append order.strict_implies_order
        del: findNode.simps) auto
next
  case False
  then have i: "findindex_keys ks1 key = length ks1" using findindex_keys_le [of ks1 key] by simp
  show ?thesis
    using len i
    by (auto simp: findNode_internal [OF _ _ refl] findindex_keys_append nth_append simp del: findNode.simps)
qed

lemma rfind_finish:
  assumes len: "length vs = length ks" "length cs = Suc (length ks)" "length ks \<le> 5"
    and st: "sorted_wrt (<) (map bytes_of ks)"
  shows "rfind key (finish ks vs cs False) = findNode key (Node ks vs cs False)"
proof (cases "length ks \<le> 4")
  case False
  then have ks: "take 2 ks @ ks ! 2 # drop 3 ks = ks" and vs: "take 2 vs @ vs ! 2 # drop 3 vs = vs"
    using len id_take_nth_drop [of 2 ks] id_take_nth_drop [of 2 vs] by simp_all
  have "sorted_wrt (<) (map bytes_of (take 2 ks @ ks ! 2 # drop 3 ks))" using st ks by simp
  then have "bytes_of x < bytes_of (ks ! 2)" if "x \<in> set (take 2 ks)" for x
    using that by (simp add: sorted_wrt_append)
  with len False have "findNode key (Node [ks ! 2] [vs ! 2]
      [Node (take 2 ks) (take 2 vs) (take 3 cs) False, Node (drop 3 ks) (drop 3 vs) (drop 3 cs) False] False) =
    findNode key (Node (take 2 ks @ ks ! 2 # drop 3 ks) (take 2 vs @ vs ! 2 # drop 3 vs) (take 3 cs @ drop 3 cs) False)"
    by (intro findNode_split) auto
  then show ?thesis
    using False ks vs by (simp add: finish_def split_up_def rfind_def del: findNode.simps)
qed (simp add: finish_def rfind_def)

section \<open>The old value stays visible\<close>

lemma strict_interleave_keys: "strict (interleave cs es) \<Longrightarrow> length es \<le> length cs \<Longrightarrow> strict es"
proof (induction cs es rule: interleave.induct)
  case (3 c cs kv es)
  then show ?case by (auto simp: strict_simps set_interleave)
qed simp_all

lemma strict_node_keys:
  assumes "shape (Suc h) lo n" "strict (entries n)"
  shows "sorted_wrt (<) (map bytes_of (keys n))"
proof -
  have "strict (kvs n)"
    using assms strict_interleave_keys [of "map entries (children n)" "kvs n"] by (simp add: entries_internal)
  moreover have "map ekey (kvs n) = map bytes_of (keys n)"
    using assms by (simp add: map_fst_zip flip: map_map [of bytes_of fst, unfolded comp_def])
  ultimately show ?thesis by (simp add: strict_def)
qed

lemma findindex_keys_insert_at:
  assumes "i = findindex_keys ks key"
  shows "findindex_keys (insert_at ks i mk) key = (if bytes_of key \<le> bytes_of mk then i else Suc i)"
proof -
  have le: "i \<le> length ks" using assms findindex_keys_le by simp
  have t: "findindex_keys (take i ks) key = i"
    by (rule findindex_keys_take_drop)
      (use findindex_keys_below [of _ ks key] assms le in \<open>auto simp: in_set_conv_nth\<close>)
  have "findindex_keys (drop i ks) key = 0"
  proof (cases "i < length ks")
    case True
    then have "drop i ks = ks ! i # drop (Suc i) ks" by (simp add: Cons_nth_drop_Suc)
    then show ?thesis using findindex_keys_at [of ks key] True assms by simp
  qed simp
  with t le show ?thesis by (simp add: insert_at_def findindex_keys_append)
qed

lemma rfind_insertUp:
  assumes sh: "shape (Suc h) lo n" and st: "strict (entries n)" and i: "i = findindex n key"
    and below: "\<And>k. k \<in> set (take i (keys n)) \<Longrightarrow> bytes_of k < bytes_of mk"
    and above: "\<And>k. k \<in> set (drop i (keys n)) \<Longrightarrow> bytes_of mk < bytes_of k"
    and hit: "i < length (keys n) \<and> bytes_of (keys n ! i) = bytes_of key \<longrightarrow> bytes_of mk < bytes_of key"
  shows "\<exists>r. insertUp (set_child n i l) mk mv nn = Some r \<and>
    rfind key r =
      (if i < length (keys n) \<and> bytes_of (keys n ! i) = bytes_of key
       then Some (Inr (slice_copy (vals n ! i)))
       else findNode key (Node [mk] [mv] [l, nn] False))"
proof -
  let ?ks = "insert_at (keys n) i mk" and ?vs = "insert_at (vals n) i mv"
    and ?cs = "insert_at ((children n)[i := l]) (Suc i) nn"
  have le: "i \<le> length (keys n)" using i by simp
  have len: "length (children n) = Suc (length (keys n))" "length (vals n) = length (keys n)" "length (keys n) \<le> 4"
    using sh by auto
  have pos: "findindex n mk = i"
    unfolding findindex_def
    by (rule findindex_keys_take_drop) (use below above le in \<open>auto intro: less_imp_le\<close>)
  have up: "insertUp (set_child n i l) mk mv nn = Some (finish ?ks ?vs ?cs False)"
    using insertUp_eq [of "set_child n i l" i mk mv nn] pos sh by simp
  have "sorted_wrt (<) (map bytes_of (take i (keys n)))" "sorted_wrt (<) (map bytes_of (drop i (keys n)))"
    using strict_node_keys [OF sh st] by (simp_all flip: take_map drop_map add: sorted_wrt_take sorted_wrt_drop)
  moreover have "bytes_of x < bytes_of y" if "x \<in> set (take i (keys n))" "y \<in> set (drop i (keys n))" for x y
    using below [OF that(1)] above [OF that(2)] by (rule less_trans)
  ultimately have "sorted_wrt (<) (map bytes_of ?ks)"
    using below above by (simp add: insert_at_def sorted_wrt_append)
  then have "rfind key (finish ?ks ?vs ?cs False) = findNode key (Node ?ks ?vs ?cs False)"
    by (intro rfind_finish) (use len in auto)
  also have "\<dots> = (let j = (if bytes_of key \<le> bytes_of mk then i else Suc i) in
      if j < length ?ks \<and> bytes_of (?ks ! j) = bytes_of key then Some (Inr (slice_copy (?vs ! j)))
      else findNode key (?cs ! j))"
    using findindex_keys_insert_at [of i "keys n" key mk] i len
    by (subst findNode_internal [OF _ _ refl]) (auto simp: findindex_def Let_def)
  also have "\<dots> = (if i < length (keys n) \<and> bytes_of (keys n ! i) = bytes_of key
       then Some (Inr (slice_copy (vals n ! i)))
       else findNode key (Node [mk] [mv] [l, nn] False))"
    using hit le len
    by (auto simp: Let_def insert_at_def nth_append not_le findNode_internal [OF _ _ refl] less_Suc_eq_le
        simp del: findNode.simps)
  finally show ?thesis using up by blast
qed


lemma insertNode_shadow:
  "shape h lo n \<Longrightarrow> strict (entries n) \<Longrightarrow> bytes_of key \<in> bytes_of ` set (internal_keys n) \<Longrightarrow>
   content (entries n) (bytes_of key) = Some v0 \<Longrightarrow>
   \<exists>r. insertNode key v n = Some r \<and> rfind key r = Some (Inr (slice_copy v0))"
proof (induction h arbitrary: lo n)
  case 0
  then have "internal_keys n = []" by (cases n) simp
  with 0(3) show ?case by simp
next
  case (Suc h)
  note sh = Suc.prems(1) and st = Suc.prems(2)
  let ?i = "findindex n key" and ?c = "children n ! findindex n key"
  let ?H = "?i < length (keys n) \<and> bytes_of (keys n ! ?i) = bytes_of key"
  note shc = shape_child [OF sh findindex_le [of n key]]
    and stc = strict_child [OF sh st findindex_le [of n key]]
    and bounds = child_bounds [OF sh st findindex_le [of n key]]
  have v0: "Some v0 = (if ?H then Some (vals n ! ?i) else content (entries ?c) (bytes_of key))"
    using internal_content_at [OF sh st refl, of key] Suc.prems(4) by simp
  obtain r where r: "insertNode key v ?c = Some r" "rshape h 2 r"
    using insertNode_shape [OF shc] by blast
  have flat: "flat r = insert_spec (bytes_of key \<in> bytes_of ` set (internal_keys ?c)) key v (entries ?c)"
    using insertNode_flat [OF shc stc, of key v] r(1) by auto
  have child: "rfind key r = Some (Inr (slice_copy v0))" if "\<not> ?H"
  proof -
    have "bytes_of key \<in> bytes_of ` set (internal_keys ?c)"
      using internal_keys_at [OF sh st refl that] Suc.prems(3) by simp
    then show ?thesis using Suc.IH [OF shc stc] v0 that r(1) by auto
  qed
  show ?case
  proof (cases r)
    case (Done c')
    have "findNode key (set_child n ?i c') =
        (if ?H then Some (Inr (slice_copy (vals n ! ?i))) else findNode key c')"
      using sh findNode_internal [of "children (set_child n ?i c')" "keys n" "vals n" ?i key]
      by (cases n) (simp add: findindex_def set_child_def le_imp_less_Suc findindex_keys_le del: findNode.simps)
    then show ?thesis
      using Done r(1) sh v0 child
      by (subst insertNode_unfold) (auto simp: go_simps le_imp_less_Suc rfind_def)
  next
    case (Split l mk mv nn)
    have mem: "(mk, mv) \<in> set (flat r)" using Split by simp
    have mk: "bytes_of mk = bytes_of key \<or> (\<exists>p \<in> set (entries ?c). ekey p = bytes_of mk)"
      using mem set_insert_spec [of "(mk, mv)"] unfolding flat by fastforce
    have hitless: "\<exists>p \<in> set (entries ?c). ekey p = bytes_of mk" if ?H
    proof -
      have less: "ekey p < bytes_of key" if "p \<in> set (entries ?c)" for p
        using bounds(2) [OF that, of "keys n ! ?i"] \<open>?H\<close>
        by (metis Cons_nth_drop_Suc list.set_intros(1))
      then have "flat r = entries ?c @ [(key, v)]" unfolding flat by (rule insert_spec_below)
      moreover have "entries nn \<noteq> []"
      proof -
        have nn: "shape h 2 nn" using r(2) Split by simp
        then have "0 < length (keys nn)" using shape_lens(3) [OF nn] by linarith
        then have "keys nn ! 0 \<in> set (keys nn)" by (rule nth_mem)
        then show ?thesis using keys_in_entries [OF nn] by fastforce
      qed
      ultimately have "(mk, mv) \<in> set (entries ?c)"
        using Split by (cases "entries nn" rule: rev_cases) (auto dest!: arg_cong [where f = set])
      then show ?thesis by force
    qed
    have up: "\<exists>r'. insertUp (set_child n ?i l) mk mv nn = Some r' \<and> rfind key r' =
        (if ?H then Some (Inr (slice_copy (vals n ! ?i))) else findNode key (Node [mk] [mv] [l, nn] False))"
    proof (rule rfind_insertUp [OF sh st refl])
      show "bytes_of k < bytes_of mk" if "k \<in> set (take ?i (keys n))" for k
        using mk bounds(1) [OF _ that] key_bounds(1) [OF sh st refl that] by metis
      show gt: "bytes_of mk < bytes_of k" if k: "k \<in> set (drop ?i (keys n))" for k
      proof (cases ?H)
        case True
        then show ?thesis using hitless bounds(2) [OF _ k] by metis
      next
        case False
        have "bytes_of key < bytes_of k"
          using key_bounds(2) [OF sh st refl k] False k by (cases "?i < length (keys n)") auto
        then show ?thesis using mk bounds(2) [OF _ k] by metis
      qed
      show "?H \<longrightarrow> bytes_of mk < bytes_of key"
        using hitless gt [of "keys n ! ?i"] by (metis Cons_nth_drop_Suc list.set_intros(1))
    qed
    then show ?thesis
      using Split r(1) sh v0 child
      by (subst insertNode_unfold) (auto simp: go_simps le_imp_less_Suc rfind_def simp del: findNode.simps)
  qed
qed

lemma Btree_Insert_shadow:
  assumes sh: "tree_shape t" and st: "tree_strict t" and int: "bytes_of key \<in> tree_internal t"
    and v0: "tree_map t (bytes_of key) = Some v0"
  shows "\<exists>t'. Btree_Insert t key v = Some t' \<and> Btree_Find t' key = Some (Inr (slice_copy v0)) \<and>
    length (tree_entries t') = Suc (length (tree_entries t))"
proof -
  obtain n where n: "root t = Some n" using int by (cases "root t") (auto simp: tree_internal_def)
  obtain r where r: "insertNode key v n = Some r" "rfind key r = Some (Inr (slice_copy v0))"
    using insertNode_shadow [of "height n" 1 n key v0 v] sh st int v0 n
    by (auto simp: tree_shape_def tree_strict_def tree_entries_def tree_internal_def tree_map_def)
  obtain t' where t': "Btree_Insert t key v = Some t'"
      "tree_entries t' = insert_copy key v (tree_entries t)"
    using Btree_Insert_entries [OF sh st, of key v] int by (auto simp: insert_spec_def)
  have "Btree_Find t' key = rfind key r"
    using t'(1) r(1) n by (cases r) (auto simp: Btree_Insert_def Btree_Find_def rfind_def simp del: findNode.simps)
  moreover have "length (insert_copy key v es) = Suc (length es)" for es
    using sum_length_filter_compl [of "\<lambda>p. ekey p < bytes_of key" es] by (simp add: insert_copy_def not_less)
  ultimately show ?thesis using t' r(2) by simp
qed

end
