(* ===== verification/Btree_Store.thy ===== *)
theory Btree_Store
  imports Btree_Range Btree_Shadow
begin

text \<open>
  A single B-tree as a store: the invariant every operation keeps, the interpretation of
  the store contract by \<open>Btree_Insert\<close>, \<open>Btree_Delete\<close>, \<open>Btree_Find\<close> and
  \<open>Btree_GetRange\<close>, the states a tree can reach, and the properties of the component.
\<close>

section \<open>The invariant\<close>

definition tree_inv :: "Btree \<Rightarrow> bool" where
  "tree_inv t \<longleftrightarrow> tree_shape t \<and> tree_strict t \<and> no_nil (tree_entries t)"

definition tree_upd_ok :: "Btree \<Rightarrow> bytes \<Rightarrow> bool" where
  "tree_upd_ok t k \<longleftrightarrow> k \<notin> tree_internal t"

definition tree_find :: "Btree \<Rightarrow> Keytype \<Rightarrow> ((go_error + Valuetype) \<times> Btree) option" where
  "tree_find t k = map_option (\<lambda>r. (r, t)) (Btree_Find t k)"

lemma tree_inv_empty [simp]: "tree_inv empty_Btree" "tree_map empty_Btree = Map.empty"
  by (simp_all add: tree_inv_def empty_Btree_def tree_shape_def tree_strict_def tree_entries_def
      no_nil_def tree_map_def)

lemma find_SomeD: "find P xs = Some x \<Longrightarrow> P x \<and> x \<in> set xs"
  by (auto simp: find_Some_iff)

lemma strict_upsert: "strict es \<Longrightarrow> strict (upsert key v es)"
  by (auto simp: upsert_def strict_simps strict_filter dest!: find_SomeD split: option.splits)

lemma content_upsert: "strict es \<Longrightarrow> content (upsert key v es) = (content es)(bytes_of key \<mapsto> v)"
proof
  fix k
  assume st: "strict es"
  let ?p = "case find (\<lambda>p. ekey p = bytes_of key) es of None \<Rightarrow> (key, v) | Some p \<Rightarrow> (fst p, v)"
  have p: "ekey ?p = bytes_of key" "snd ?p = v"
    by (auto dest: find_SomeD split: option.split)
  have "content (upsert key v es) k =
      ((content (filter (\<lambda>p. bytes_of key < ekey p) es))(bytes_of key \<mapsto> v) ++
        content (filter (\<lambda>p. ekey p < bytes_of key) es)) k"
    using p by (simp add: upsert_def content_append content_Cons)
  then show "content (upsert key v es) k = ((content es)(bytes_of key \<mapsto> v)) k"
    by (auto simp: map_add_def content_filter [of "\<lambda>x. bytes_of key < x"]
        content_filter [of "\<lambda>x. x < bytes_of key"] split: option.split)
qed

lemma no_nil_upsert: "no_nil es \<Longrightarrow> key \<noteq> NilSlice \<Longrightarrow> no_nil (upsert key v es)"
  by (auto simp: no_nil_def upsert_def image_iff dest!: find_SomeD split: option.splits)

lemma tree_insert_law:
  assumes "tree_inv t" "k \<noteq> NilSlice" "tree_upd_ok t (bytes_of k)"
  shows "\<exists>t'. Btree_Insert t k v = Some t' \<and> tree_inv t' \<and> tree_map t' = (tree_map t)(bytes_of k \<mapsto> v)"
proof -
  obtain t' where t': "Btree_Insert t k v = Some t'" "tree_entries t' = upsert k v (tree_entries t)"
    using Btree_Insert_entries [of t k v] assms by (auto simp: tree_inv_def tree_upd_ok_def insert_spec_def)
  moreover have "tree_shape t'" using Btree_Insert_shape [of t k v] assms t'(1) by (auto simp: tree_inv_def)
  ultimately show ?thesis
    using assms by (simp add: tree_inv_def tree_strict_def tree_map_def strict_upsert content_upsert no_nil_upsert)
qed

lemma tree_internal_dom:
  assumes "tree_shape t"
  shows "tree_internal t \<subseteq> dom (tree_map t)"
proof (cases "root t")
  case (Some n)
  then have "set (internal_keys n) \<subseteq> fst ` set (entries n)"
    using assms internal_keys_entries by (simp add: tree_shape_def)
  then have "bytes_of ` set (internal_keys n) \<subseteq> ekey ` set (entries n)" by fastforce
  then show ?thesis using Some by (simp add: tree_internal_def tree_map_def tree_entries_def dom_content)
qed (simp add: tree_internal_def)

lemma tree_delete_law:
  assumes "tree_inv t"
  shows "\<exists>t'. Btree_Delete t k = Some (tree_map t (bytes_of k) \<noteq> None, t') \<and> tree_inv t' \<and>
    tree_map t' = (tree_map t)(bytes_of k := None)"
proof -
  obtain t' where t': "Btree_Delete t k = Some (bytes_of k \<in> ekey ` set (tree_entries t), t')"
      "tree_entries t' = filter (\<lambda>p. ekey p \<noteq> bytes_of k) (tree_entries t)"
    using Btree_Delete_entries [of t k] assms by (auto simp: tree_inv_def)
  have "tree_shape t'"
    using Btree_Delete_shape [of t k] assms t'(1) by (auto simp: tree_inv_def)
  moreover have "no_nil (tree_entries t')"
    by (rule no_nil_sub [of "tree_entries t"]) (use assms t'(2) in \<open>auto simp: tree_inv_def\<close>)
  ultimately have "tree_inv t'"
    using t'(2) assms by (simp add: tree_inv_def tree_strict_def strict_filter)
  moreover have "tree_map t' = (tree_map t)(bytes_of k := None)"
    using t'(2) by (auto simp: tree_map_def fun_eq_iff content_filter [of "\<lambda>x. x \<noteq> bytes_of k"])
  moreover have "(tree_map t (bytes_of k) \<noteq> None) = (bytes_of k \<in> ekey ` set (tree_entries t))"
    by (simp add: tree_map_def content_None_iff)
  ultimately show ?thesis using t'(1) by simp
qed

lemma lists_map_filter:
  assumes "strict es" "emit_all ([], []) (filter (in_range lo hi) es) = (ks, vs)"
  shows "lists_map ks vs (map_range lo hi (content es))"
proof -
  let ?F = "filter (in_range lo hi) es"
  have ks: "ks = map (\<lambda>p. slice_copy (fst p)) ?F" and vs: "vs = map (\<lambda>p. slice_copy (snd p)) ?F"
    using assms(2) by (simp_all add: emit_all_def)
  have "map_of (zip (map bytes_of ks) vs) = map_option slice_copy \<circ> content ?F"
    unfolding ks vs content_def
    by (induction es) (auto simp: fun_eq_iff)
  moreover have "content ?F = map_range lo hi (content es)"
    using content_filter [of "\<lambda>x. bytes_of lo \<le> x \<and> x \<le> bytes_of hi" es]
    by (simp add: fun_eq_iff map_range_def in_range_def [abs_def])
  moreover have "strict ?F" using assms(1) by (rule strict_filter)
  ultimately show ?thesis
    by (auto simp: lists_map_def ks vs strict_def comp_def slice_copy_not_nil [symmetric])
qed

lemma tree_range_law:
  assumes "tree_inv t" "bytes_of lo \<le> bytes_of hi"
  shows "\<exists>ks vs. Btree_GetRange t lo hi = Some (Inr (ks, vs)) \<and> lists_map ks vs (map_range lo hi (tree_map t))"
proof -
  obtain ks vs where kv: "emit_all ([], []) (filter (in_range lo hi) (tree_entries t)) = (ks, vs)"
    by fastforce
  moreover have "lists_map ks vs (map_range lo hi (tree_map t))"
    unfolding tree_map_def
    by (rule lists_map_filter) (use assms kv in \<open>simp_all add: tree_inv_def tree_strict_def\<close>)
  moreover have "\<not> bytes_of hi < bytes_of lo" using assms(2) by (simp add: not_less)
  ultimately show ?thesis
    using Btree_GetRange_filter [of t lo hi] assms(1) by (simp add: tree_inv_def)
qed

interpretation tree: range_store tree_inv tree_map tree_upd_ok Btree_Insert Btree_Delete tree_find Btree_GetRange
proof
  show "\<exists>s'. tree_find s k = Some (find_result (tree_map s (bytes_of k)), s') \<and> tree_inv s' \<and> tree_map s' = tree_map s"
    if "tree_inv s" for s k
    using that Btree_Find_map [of s k] by (simp add: tree_find_def tree_inv_def)
  show "tree_upd_ok s b" if "tree_inv s" "tree_map s b = None" for s b
    using that tree_internal_dom [of s] by (auto simp: tree_upd_ok_def tree_inv_def)
qed (fact tree_insert_law tree_delete_law tree_range_law)+

lemma tree_count: "tree_inv t \<Longrightarrow> Btree_countKeys t = int (card (dom (tree_map t)))"
  using distinct_card [of "map ekey (tree_entries t)"] strict_distinct [of "tree_entries t"]
  by (simp add: tree_inv_def Btree_countKeys_entries tree_map_def dom_content tree_strict_def)

section \<open>States a tree can reach\<close>

text \<open>
  From the empty tree, by any sequence of inserts of non-nil keys and deletes: overwrites
  included, with no regard for the order invariant.
\<close>

inductive reach :: "Btree \<Rightarrow> bool" where
  reach_new: "reach empty_Btree"
| reach_insert: "reach t \<Longrightarrow> k \<noteq> NilSlice \<Longrightarrow> Btree_Insert t k v = Some t' \<Longrightarrow> reach t'"
| reach_delete: "reach t \<Longrightarrow> Btree_Delete t k = Some (b, t') \<Longrightarrow> reach t'"

lemma set_zip_insert_at:
  "length ks = length vs \<Longrightarrow> fst ` set (zip (insert_at ks i k) (insert_at vs i v)) = insert k (set ks)"
  by (simp add: zip_insert_at image_insert) (metis list.set_map map_fst_zip)

lemma insertLeaf_keys:
  assumes "shape 0 lo n" "insertLeaf k v n = Some r"
  shows "fst ` set (flat r) \<subseteq> insert k (fst ` set (entries n))"
proof -
  have E: "fst ` set (entries n) = set (keys n)" and len: "length (vals n) = length (keys n)"
    using assms(1) keys_kvs [of n] by (simp_all add: entries_leaf)
  show ?thesis
  proof (cases "findindex n k < length (keys n) \<and> bytes_of (keys n ! findindex n k) = bytes_of k")
    case True
    then show ?thesis
      using assms insertLeaf_eq [OF assms(1) refl, of k v] E len
      by (auto dest: set_zip_leftD)
  next
    case False
    then have "r = finish (insert_at (keys n) (findindex n k) k) (insert_at (vals n) (findindex n k) v) [] True"
      using assms(2) insertLeaf_eq [OF assms(1) refl, of k v] by (simp only: if_False option.inject)
    then have "flat r = zip (insert_at (keys n) (findindex n k) k) (insert_at (vals n) (findindex n k) v)"
      using assms(1) by (simp add: finish_flat_leaf)
    then show ?thesis using E len set_zip_insert_at [of "keys n" "vals n"] by simp
  qed
qed

lemma insertNode_keys:
  "shape h lo n \<Longrightarrow> insertNode k v n = Some r \<Longrightarrow> fst ` set (flat r) \<subseteq> insert k (fst ` set (entries n))"
proof (induction h arbitrary: lo n r)
  case 0
  then show ?case using insertLeaf_keys [OF 0(1)] by (subst (asm) insertNode_unfold) simp
next
  case (Suc h)
  note sh = Suc.prems(1)
  let ?i = "findindex n k" and ?c = "children n ! findindex n k"
  have i: "?i < length (children n)" using sh by (simp add: le_imp_less_Suc)
  have S: "set (entries n) = (\<Union>c \<in> set (children n). set (entries c)) \<union> set (kvs n)"
    using sh by (intro set_entries_internal) simp_all
  obtain r1 where r1: "insertNode k v ?c = Some r1"
    using insertNode_shape [OF shape_child [OF sh findindex_le]] by blast
  have IH: "fst ` set (flat r1) \<subseteq> insert k (fst ` set (entries n))"
    using Suc.IH [OF shape_child [OF sh findindex_le] r1] nth_mem [OF i] S by blast
  have sub: "fst ` set (entries c) \<subseteq> fst ` set (entries n)" if "c \<in> set (children n)" for c
    using that S by blast
  have kv: "set (keys n) \<subseteq> fst ` set (entries n)"
    using S keys_kvs [of n] sh by auto
  show ?case
  proof (cases r1)
    case (Done c')
    then have "r = Done (set_child n ?i c')"
      using Suc.prems(2) r1 sh i by (subst (asm) insertNode_unfold) (simp add: go_simps)
    moreover have "fst ` set (entries (set_child n ?i c')) =
        fst ` set (before n ?i) \<union> fst ` set (entries c') \<union> fst ` set (after n ?i)"
      using entries_set_child [OF sh findindex_le [of n k], of c'] by (simp add: image_Un Un_assoc)
    moreover have "fst ` set (before n ?i) \<subseteq> fst ` set (entries n)" "fst ` set (after n ?i) \<subseteq> fst ` set (entries n)"
      using entries_at [OF sh findindex_le [of n k]] by auto
    ultimately show ?thesis using IH Done by (simp add: subset_insertI2)
  next
    case (Split l mk mv nn)
    let ?n = "set_child n ?i l"
    let ?j = "findindex ?n mk"
    have eq: "r = finish (insert_at (keys n) ?j mk) (insert_at (vals n) ?j mv)
        (insert_at ((children n)[?i := l]) (Suc ?j) nn) False"
      using Suc.prems(2) r1 sh i Split insertUp_eq [of ?n ?j mk mv nn]
      by (subst (asm) insertNode_unfold) (simp add: go_simps)
    have "fst ` set (flat r) = (\<Union>c \<in> insert nn (set ((children n)[?i := l])). fst ` set (entries c)) \<union> insert mk (set (keys n))"
      unfolding eq using sh
      by (subst finish_flat_internal) (simp_all add: set_interleave image_Un image_UN set_zip_insert_at)
    moreover have "fst ` set (entries c) \<subseteq> insert k (fst ` set (entries n))"
      if "c \<in> insert nn (set ((children n)[?i := l]))" for c
    proof -
      have "c = nn \<or> c = l \<or> c \<in> set (children n)"
        using that set_update_subset_insert [THEN subsetD] by fastforce
      then show ?thesis using IH Split sub [of c] by auto
    qed
    moreover have "mk \<in> insert k (fst ` set (entries n))" using IH Split by simp
    ultimately show ?thesis using kv by blast
  qed
qed

lemma Btree_Insert_no_nil:
  assumes "tree_shape t" "no_nil (tree_entries t)" "k \<noteq> NilSlice" "Btree_Insert t k v = Some t'"
  shows "no_nil (tree_entries t')"
proof (cases "root t")
  case None
  then show ?thesis
    using assms by (auto simp: Btree_Insert_def NewNode_def insertAt_def insert_at_def tree_entries_def no_nil_def)
next
  case (Some n)
  then obtain r where r: "insertNode k v n = Some r" "rshape (height n) 1 r"
    using insertNode_shape [of "height n" 1 n k v] assms(1) by (auto simp: tree_shape_def)
  have "tree_entries t' = flat r"
    using assms(4) Some r(1) by (cases r) (auto simp: Btree_Insert_def tree_entries_def)
  then show ?thesis
    using insertNode_keys [OF _ r(1)] assms Some by (auto simp: no_nil_def tree_shape_def tree_entries_def)
qed

lemma reach_shape: "reach t \<Longrightarrow> tree_shape t \<and> no_nil (tree_entries t)"
proof (induction rule: reach.induct)
  case reach_new
  then show ?case using tree_inv_empty by (simp add: tree_inv_def)
next
  case (reach_insert t k v t')
  then show ?case using Btree_Insert_shape [of t k v] Btree_Insert_no_nil [of t k v t'] by auto
next
  case (reach_delete t k b t')
  then show ?case using Btree_Delete_shape [of t k] no_nil_sub [of "tree_entries t" "tree_entries t'"] by auto
qed

section \<open>Height\<close>

lemma sum_list_ge: "(\<And>x. x \<in> set xs \<Longrightarrow> m \<le> f x) \<Longrightarrow> length xs * m \<le> sum_list (map f xs)"
  by (induction xs) (auto simp: add_mono)

lemma entries_internal_ge:
  assumes "shape (Suc h) lo n" "\<And>c. c \<in> set (children n) \<Longrightarrow> m \<le> length (entries c)"
  shows "Suc (length (keys n)) * m + length (keys n) \<le> length (entries n)"
proof -
  have "length (entries n) = sum_list (map (\<lambda>c. length (entries c)) (children n)) + length (keys n)"
    using assms(1) by (simp add: entries_internal length_interleave comp_def)
  then show ?thesis
    using sum_list_ge [of "children n" m "\<lambda>c. length (entries c)"] assms by simp
qed

lemma entries_ge_inner: "shape h 2 n \<Longrightarrow> 3 ^ Suc h - 1 \<le> length (entries n)"
proof (induction h arbitrary: n)
  case 0
  then show ?case by (simp add: entries_leaf)
next
  case (Suc h)
  have "Suc (length (keys n)) * (3 ^ Suc h - 1) + length (keys n) \<le> length (entries n)"
    by (rule entries_internal_ge [OF Suc.prems]) (use Suc in simp)
  moreover have "3 * (3 ^ Suc h - 1) + 2 \<le> Suc (length (keys n)) * (3 ^ Suc h - 1) + length (keys n)"
    using Suc.prems by (intro add_mono mult_le_mono) simp_all
  moreover have "(3::nat) ^ Suc (Suc h) - 1 = 3 * (3 ^ Suc h - 1) + 2"
    by (cases "(3::nat) ^ h") simp_all
  ultimately show ?case by linarith
qed

lemma entries_ge_root:
  assumes "shape h 1 n"
  shows "2 * 3 ^ h - 1 \<le> length (entries n)"
proof (cases h)
  case 0
  then show ?thesis using assms by (simp add: entries_leaf)
next
  case (Suc h')
  have "Suc (length (keys n)) * (3 ^ Suc h' - 1) + length (keys n) \<le> length (entries n)"
    by (rule entries_internal_ge [of h' 1]) (use assms Suc entries_ge_inner in simp_all)
  moreover have "2 * (3 ^ Suc h' - 1) + 1 \<le> Suc (length (keys n)) * (3 ^ Suc h' - 1) + length (keys n)"
    using assms Suc by (intro add_mono mult_le_mono) simp_all
  moreover have "(2::nat) * 3 ^ Suc h' - 1 = 2 * (3 ^ Suc h' - 1) + 1"
    by (cases "(3::nat) ^ h'") simp_all
  ultimately show ?thesis unfolding Suc by linarith
qed

definition tree_height :: "Btree \<Rightarrow> nat" where
  "tree_height t = (case root t of None \<Rightarrow> 0 | Some n \<Rightarrow> Suc (height n))"

section \<open>A stored nil key\<close>

lemma nil_key_first:
  assumes "shape h lo n" "isleaf n" "strict (entries n)" "NilSlice \<in> set (keys n)"
  obtains ks vs where "n = Node (NilSlice # ks) vs [] True" "length vs = Suc (length ks)" "[] \<notin> bytes_of ` set ks"
proof -
  have h: "h = 0" using assms(1,2) by (cases h) auto
  then obtain k ks vs where n: "n = Node (k # ks) vs [] True" "length vs = Suc (length ks)"
    using assms(1,4) by (cases n; cases "keys n") auto
  have len: "length vs = length (k # ks)" using n(2) by simp
  have "map ekey (zip (k # ks) vs) = map bytes_of (k # ks)"
    using map_fst_zip [OF len [symmetric]] by (metis (no_types, lifting) list.map_comp map_eq_conv comp_apply)
  then have "sorted_wrt (<) (map bytes_of (k # ks))"
    using assms(3) n(1) by (simp add: strict_def)
  then have lt: "\<forall>x \<in> set ks. bytes_of k < bytes_of x" by simp
  have "k = NilSlice"
    using assms(4) n(1) lt by auto
  moreover from this lt have "[] \<notin> bytes_of ` set ks" by auto
  ultimately show ?thesis using n that by blast
qed

section \<open>A concrete tree\<close>

definition ex_tree :: Btree where
  "ex_tree = \<lparr>root = Some (Node [Bytes [3]] [Bytes [13]]
     [Node [Bytes [1], Bytes [2]] [Bytes [11], Bytes [12]] [] True,
      Node [Bytes [4], Bytes [5]] [Bytes [14], Bytes [15]] [] True] False)\<rparr>"

lemma reach_run:
  assumes "reach t" "run_cmds Btree_Insert Btree_Delete cs t = Some t'" "\<forall>c \<in> set cs. \<forall>v. c \<noteq> CInsert NilSlice v"
  shows "reach t'"
  using assms
proof (induction cs arbitrary: t)
  case (Cons c cs)
  then obtain t1 where t1: "run_cmd Btree_Insert Btree_Delete c t = Some t1"
      "run_cmds Btree_Insert Btree_Delete cs t1 = Some t'" by (auto split: bind_splits)
  have "reach t1"
    using t1(1) Cons.prems(1,3) by (cases c) (auto intro: reach_insert reach_delete)
  then show ?case using Cons t1(2) by simp
qed simp

lemma ex_tree_run:
  "run_cmds Btree_Insert Btree_Delete (map (\<lambda>i. CInsert (Bytes [i]) (Bytes [i + 10])) [1, 2, 3, 4, 5]) empty_Btree
     = Some ex_tree"
  by code_simp

lemma ex_tree_reach: "reach ex_tree"
  by (rule reach_run [OF reach_new ex_tree_run]) simp

lemma ex_tree_inv: "tree_inv ex_tree"
proof -
  have "fresh_cmds (tree_map empty_Btree) (map (\<lambda>i. CInsert (Bytes [i]) (Bytes [i + 10])) [1, 2, 3, 4, 5])"
    by simp
  from tree.run_cmds_fresh [OF tree_inv_empty(1) this] show ?thesis
    unfolding ex_tree_run by auto
qed

lemma ex_tree_internal: "tree_internal ex_tree = {[3]}"
  by (simp add: ex_tree_def tree_internal_def)

section \<open>Properties\<close>

text \<open>
  C1.  A run of inserts of new keys and of deletes, in any order and from the empty tree,
  never panics, and afterwards \<open>Find\<close> answers at every key as the finite map built by the
  same run does.
\<close>

theorem Btree_refines_map:
  assumes "fresh_cmds Map.empty cs"
  shows "\<exists>t. run_cmds Btree_Insert Btree_Delete cs empty_Btree = Some t \<and>
    (\<forall>key. Btree_Find t key = Some (find_result (map_cmds cs Map.empty (bytes_of key))))"
proof -
  obtain t where t: "run_cmds Btree_Insert Btree_Delete cs empty_Btree = Some t" "tree_inv t"
      "tree_map t = map_cmds cs Map.empty"
    using tree.run_cmds_fresh [of empty_Btree cs] assms by auto
  moreover have "Btree_Find t key = Some (find_result (tree_map t (bytes_of key)))" for key
    using Btree_Find_map [of t key] t(2) by (simp add: tree_inv_def)
  ultimately show ?thesis by auto
qed

theorem Btree_refines_map_witness:
  "let cs = map (\<lambda>i. CInsert (Bytes [i]) (Bytes [i + 100])) [5, 1, 4, 2, 3, 6] @ [CDelete (Bytes [4])] in
   fresh_cmds Map.empty cs \<and>
   (\<exists>t. run_cmds Btree_Insert Btree_Delete cs empty_Btree = Some t \<and>
     (\<forall>key. Btree_Find t key = Some (find_result (map_cmds cs Map.empty (bytes_of key)))))"
  unfolding Let_def by (intro conjI Btree_refines_map) (simp_all add: fresh_cmds.simps)

text \<open>
  C2.  In every state that inserts (overwrites included) and deletes can reach from the
  empty tree, no operation panics and the B-tree balance invariant holds: all leaves at one
  depth, every node but the root between \<open>MinKeys\<close> and \<open>MaxKeys\<close> keys.
\<close>

theorem Btree_reach_safe:
  assumes "reach t"
  shows "tree_shape t \<and> (\<exists>t'. Btree_Insert t k v = Some t') \<and> (\<exists>b t'. Btree_Delete t k = Some (b, t')) \<and>
    (\<exists>r. Btree_Find t k = Some r \<and> r \<noteq> Inl ErrInvalidTree)"
  using reach_shape [OF assms] Btree_Insert_shape [of t k v] Btree_Delete_shape [of t k] Btree_Find_total [of t k]
  by blast

theorem Btree_reach_safe_witness:
  "\<exists>t. run_cmds Btree_Insert Btree_Delete (map (\<lambda>i. CInsert (Bytes [i]) (Bytes [])) [1, 2, 3, 4, 5, 3]) empty_Btree = Some t \<and>
     reach t \<and> tree_shape t"
proof -
  let ?cs = "map (\<lambda>i. CInsert (Bytes [i]) (Bytes [])) [1, 2, 3, 4, 5, 3]"
  have "run_cmds Btree_Insert Btree_Delete ?cs empty_Btree =
    Some \<lparr>root = Some (Node [Bytes [3]] [Bytes []]
      [Node [Bytes [1], Bytes [2], Bytes [3]] [Bytes [], Bytes [], Bytes []] [] True,
       Node [Bytes [4], Bytes [5]] [Bytes [], Bytes []] [] True] False)\<rparr>" (is "_ = Some ?t")
    by code_simp
  moreover from this have "reach ?t" by (rule reach_run [OF reach_new]) simp
  ultimately show ?thesis using Btree_reach_safe [of ?t] by blast
qed

text \<open>
  C18.  On a tree in order, \<open>Insert\<close> of a non-nil key that no internal node holds is
  insert-or-update: it returns, keeps the invariant and changes the map at that key only.
\<close>

theorem Btree_Insert_upserts:
  assumes "tree_inv t" "key \<noteq> NilSlice" "bytes_of key \<notin> tree_internal t"
  shows "\<exists>t'. Btree_Insert t key v = Some t' \<and> tree_inv t' \<and>
    tree_map t' = (tree_map t)(bytes_of key \<mapsto> v)"
  using tree_insert_law assms by (simp add: tree_upd_ok_def)

theorem Btree_Insert_upserts_witness:
  "tree_inv ex_tree \<and> bytes_of (Bytes [4]) \<notin> tree_internal ex_tree \<and>
   (\<exists>t'. Btree_Insert ex_tree (Bytes [4]) (Bytes [9]) = Some t' \<and> tree_inv t' \<and>
     tree_map t' = (tree_map ex_tree)(bytes_of (Bytes [4]) \<mapsto> Bytes [9]))"
  using Btree_Insert_upserts [of ex_tree "Bytes [4]" "Bytes [9]"] ex_tree_inv ex_tree_internal by simp

text \<open>
  C35.  On a tree in order, \<open>Insert\<close> of a key that an internal node holds does not update
  it: \<open>Find\<close> keeps answering with the old v, and the tree has one entry more.
\<close>

theorem Btree_Insert_separator_keeps_old:
  assumes "tree_inv t" "bytes_of key \<in> tree_internal t"
  shows "\<exists>t' old. Btree_Insert t key v = Some t' \<and> tree_map t (bytes_of key) = Some old \<and>
    Btree_Find t' key = Some (Inr (slice_copy old)) \<and>
    length (tree_entries t') = Suc (length (tree_entries t))"
proof -
  obtain old where "tree_map t (bytes_of key) = Some old"
    using tree_internal_dom [of t] assms by (auto simp: tree_inv_def)
  then show ?thesis using Btree_Insert_shadow [of t key old v] assms by (auto simp: tree_inv_def)
qed

theorem Btree_Insert_separator_keeps_old_witness:
  "tree_inv ex_tree \<and> bytes_of (Bytes [3]) \<in> tree_internal ex_tree \<and>
   (\<exists>t' old. Btree_Insert ex_tree (Bytes [3]) (Bytes [99]) = Some t' \<and>
     tree_map ex_tree (bytes_of (Bytes [3])) = Some old \<and>
     Btree_Find t' (Bytes [3]) = Some (Inr (slice_copy old)) \<and>
     length (tree_entries t') = Suc (length (tree_entries ex_tree)))"
  using Btree_Insert_separator_keeps_old [of ex_tree "Bytes [3]" "Bytes [99]"] ex_tree_inv ex_tree_internal
  by simp

text \<open>
  C19.  On a tree in order, \<open>GetRange\<close> with ordered bounds lists exactly the pairs of the map between the
  bounds, both included, in strictly increasing key order and with fresh copies; with
  inverted bounds it is an error, except on an empty tree, where the answer is an empty
  list.
\<close>

theorem Btree_GetRange_spec:
  assumes "tree_inv t"
  shows "if bytes_of startKey \<le> bytes_of endKey
    then \<exists>ks vs. Btree_GetRange t startKey endKey = Some (Inr (ks, vs)) \<and>
      lists_map ks vs (map_range startKey endKey (tree_map t))
    else Btree_GetRange t startKey endKey =
      Some (if root t = None then Inr ([], []) else Inl ErrInvalidRange)"
  using tree_range_law [OF assms] by (auto simp: Btree_GetRange_def not_le split: option.split)

theorem Btree_GetRange_spec_witness:
  "tree_inv ex_tree \<and>
   (\<exists>ks vs. Btree_GetRange ex_tree (Bytes [2]) (Bytes [4]) = Some (Inr (ks, vs)) \<and>
     lists_map ks vs (map_range (Bytes [2]) (Bytes [4]) (tree_map ex_tree))) \<and>
   Btree_GetRange ex_tree (Bytes [4]) (Bytes [2]) = Some (Inl ErrInvalidRange)"
  using Btree_GetRange_spec [of ex_tree "Bytes [2]" "Bytes [4]"]
    Btree_GetRange_spec [of ex_tree "Bytes [4]" "Bytes [2]"] ex_tree_inv
  by (simp add: ex_tree_def)

text \<open>
  \<open>DeleteRange\<close> with bounds in order removes exactly the keys between the bounds and
  returns how many there were.
\<close>

lemma Btree_DeleteRange_spec:
  assumes "tree_inv t" "bytes_of startKey \<le> bytes_of endKey"
  shows "\<exists>t'. Btree_DeleteRange t startKey endKey =
      Some (Inr (card (dom (map_range startKey endKey (tree_map t)))), t') \<and>
    tree_inv t' \<and> tree_map t' = map_outside startKey endKey (tree_map t)"
  using tree.delete_range [OF assms] by (auto simp: Btree_DeleteRange_def)

text \<open>
  C20.  The height is logarithmic: a tree of \<open>h\<close> levels, reached by any inserts and
  deletes, holds at least \<open>2 * 3 ^ (h - 1) - 1\<close> pairs, so a search visits at most
  \<open>1 + log\<^sub>3 ((n + 1) / 2)\<close> nodes.
\<close>

theorem Btree_height_bound:
  assumes "reach t" "0 < tree_height t"
  shows "2 * 3 ^ (tree_height t - 1) \<le> Btree_countKeys t + 1"
proof -
  obtain n where n: "root t = Some n" using assms(2) by (auto simp: tree_height_def split: option.splits)
  have sh: "tree_shape t" using reach_shape [OF assms(1)] by simp
  have "2 * 3 ^ height n \<le> length (tree_entries t) + 1"
    using entries_ge_root [of "height n" n] sh n by (simp add: tree_shape_def tree_entries_def)
  then have "int (2 * 3 ^ height n) \<le> int (length (tree_entries t) + 1)" by (rule zle_int [THEN iffD2])
  then show ?thesis using n Btree_countKeys_entries [OF sh] by (simp add: tree_height_def)
qed

theorem Btree_height_bound_witness:
  "reach ex_tree \<and> tree_height ex_tree = 2 \<and> 2 * 3 ^ (tree_height ex_tree - 1) \<le> Btree_countKeys ex_tree + 1"
proof -
  have "tree_height ex_tree = 2" by code_simp
  then show ?thesis using Btree_height_bound [of ex_tree] ex_tree_reach by simp
qed

text \<open>
  A nil key breaks \<open>Delete\<close>'s answer: a leaf root that stores one loses it to
  \<open>Delete\<close>, which nevertheless reports that nothing was deleted.
\<close>

lemma Btree_Delete_nil_key_unreported:
  assumes "tree_shape t" "tree_strict t" "root t = Some n" "isleaf n" "NilSlice \<in> set (keys n)"
  shows "\<exists>t'. Btree_Delete t NilSlice = Some (False, t') \<and>
    Btree_Find t NilSlice \<noteq> Some (Inl ErrKeyNotFound) \<and> Btree_Find t' NilSlice = Some (Inl ErrKeyNotFound)"
proof -
  obtain ks vs where n: "n = Node (NilSlice # ks) vs [] True" "length vs = Suc (length ks)" "[] \<notin> bytes_of ` set ks"
    using nil_key_first [of "height n" 1 n] assms by (auto simp: tree_shape_def tree_strict_def tree_entries_def)
  then obtain v vs' where vs: "vs = v # vs'" by (cases vs) auto
  have d: "Btree_Delete t NilSlice = Some (False, t\<lparr>root := if ks = [] then None else Some (Node ks vs' [] True)\<rparr>)"
    using assms(3) n(1) vs by (simp add: Btree_Delete_def findindex_def removeAt_def go_simps remove_at_def)
  have "findNode NilSlice (Node ks vs' [] True) = Some (Inl ErrKeyNotFound)"
    using n(3) by (auto simp: Let_def image_iff) (metis bytes_of.simps(1) nth_mem)
  then have "Btree_Find (t\<lparr>root := if ks = [] then None else Some (Node ks vs' [] True)\<rparr>) NilSlice = Some (Inl ErrKeyNotFound)"
    by (simp add: Btree_Find_def)
  moreover have "Btree_Find t NilSlice \<noteq> Some (Inl ErrKeyNotFound)"
    using assms(3) n(1) vs by (simp add: Btree_Find_def findindex_def go_simps)
  ultimately show ?thesis using d by blast
qed

text \<open>
  The unused \<open>splitNodeWithInsert\<close> and the \<open>splitNodeSimple\<close> that
  \<open>Insert\<close> calls agree on a full internal node.
\<close>

lemma splitNodeWithInsert_equiv:
  assumes "shape (Suc h) lo n" "length (keys n) = MaxKeys" "pos \<le> length (children n)"
  shows "splitNodeWithInsert n key v pos child = splitNodeSimple n key v (Some (pos, child)) \<and>
    splitNodeSimple n key v (Some (pos, child)) \<noteq> None"
  using assms splitNodeSimple_internal [of n pos key v child] findindex_le [of n key]
  by (simp add: splitNodeWithInsert_def Let_def go_simps)

end
