(* ===== verification/Sharded_Btree.thy ===== *)
theory Sharded_Btree
  imports Btree_Store
begin

text \<open>
  The sharded tree, \<^verbatim>\<open>src/bptree/sharded_btree.go\<close>: a fixed list of B-trees and the
  FNV-1a hash that routes a key to one of them.

  A pointer to a shard is its index in \<open>shards\<close>; the counters are 64-bit words that wrap.
  \<^verbatim>\<open>runtime.NumCPU()\<close> is the parameter \<open>numCPU\<close>.  Goroutines that only read
  different shards are a map over the shards; those of \<open>BulkInsert\<close>, which write, are
  run under an arbitrary schedule.  \<^verbatim>\<open>sort.Slice\<close> is a sort by key; it is not stable
  in Go, and \<open>sorted_permutation_unique\<close> shows that on distinct keys every sort gives
  the same list.  The \<open>Skew\<close> of \<open>Stats\<close> is in \<^verbatim>\<open>Shard_Skew.thy\<close>.
\<close>

section \<open>State\<close>

record ShardedBTree =
  shards :: "Btree list"
  numShards :: "32 word"
  totalInserts :: "64 word"
  totalDeletes :: "64 word"
  totalFinds :: "64 word"

record ShardConfig =
  cfgNumShards :: int

definition NewShardedBTree :: "int \<Rightarrow> ShardConfig \<Rightarrow> ShardedBTree" where
  "NewShardedBTree numCPU config =
     (let n = (if cfgNumShards config \<le> 0 then numCPU else cfgNumShards config) in
      \<lparr>shards = replicate (nat n) empty_Btree, numShards = word_of_int n,
       totalInserts = 0, totalDeletes = 0, totalFinds = 0\<rparr>)"

definition NewShardedBTreeDefault :: "int \<Rightarrow> ShardedBTree" where
  "NewShardedBTreeDefault numCPU = NewShardedBTree numCPU \<lparr>cfgNumShards = 0\<rparr>"

section \<open>Routing\<close>

definition fnv_step :: "byte \<Rightarrow> 32 word \<Rightarrow> 32 word" where
  "fnv_step b hash = xor hash (ucast b) * 16777619"

definition fnv32a :: "slice \<Rightarrow> 32 word" where
  "fnv32a key = fold fnv_step (bytes_of key) 2166136261"

text \<open>The remainder by zero panics.\<close>

definition getShardIndex :: "ShardedBTree \<Rightarrow> Keytype \<Rightarrow> nat option" where
  "getShardIndex s key =
     (if numShards s = 0 then None else Some (unat (fnv32a key mod numShards s)))"

definition getShard :: "ShardedBTree \<Rightarrow> Keytype \<Rightarrow> (nat \<times> Btree) option" where
  "getShard s key =
     do {
       i \<leftarrow> (if numShards s = 0 then None else Some (unat (fnv32a key mod numShards s)));
       shard \<leftarrow> at_ix (shards s) i;
       Some (i, shard)
     }"

section \<open>Single keys\<close>

definition Sharded_Insert :: "ShardedBTree \<Rightarrow> Keytype \<Rightarrow> Valuetype \<Rightarrow> ShardedBTree option" where
  "Sharded_Insert s key value =
     do {
       (i, shard) \<leftarrow> getShard s key;
       shard' \<leftarrow> Btree_Insert shard key value;
       Some (s\<lparr>shards := (shards s)[i := shard'], totalInserts := totalInserts s + 1\<rparr>)
     }"

definition Sharded_Put :: "ShardedBTree \<Rightarrow> Keytype \<Rightarrow> Valuetype \<Rightarrow> ShardedBTree option" where
  "Sharded_Put s key value = Sharded_Insert s key value"

definition Sharded_Find :: "ShardedBTree \<Rightarrow> Keytype \<Rightarrow> ((go_error + Valuetype) \<times> ShardedBTree) option" where
  "Sharded_Find s key =
     do {
       (i, shard) \<leftarrow> getShard s key;
       let s' = s\<lparr>totalFinds := totalFinds s + 1\<rparr>;
       r \<leftarrow> Btree_Find shard key;
       Some (r, s')
     }"

definition Sharded_Get :: "ShardedBTree \<Rightarrow> Keytype \<Rightarrow> ((go_error + Valuetype) \<times> ShardedBTree) option" where
  "Sharded_Get s key = Sharded_Find s key"

definition Sharded_Delete :: "ShardedBTree \<Rightarrow> Keytype \<Rightarrow> (bool \<times> ShardedBTree) option" where
  "Sharded_Delete s key =
     do {
       (i, shard) \<leftarrow> getShard s key;
       (deleted, shard') \<leftarrow> Btree_Delete shard key;
       let s' = s\<lparr>shards := (shards s)[i := shard']\<rparr>;
       Some (deleted, if deleted then s'\<lparr>totalDeletes := totalDeletes s' + 1\<rparr> else s')
     }"

section \<open>Ranges\<close>

text \<open>
  The collection loop over the shards' answers: it stops at the first error.  The two slices
  of an answer have the same length.
\<close>

fun collectPairs ::
  "(go_error + Keytype list \<times> Valuetype list) list \<Rightarrow> (Keytype \<times> Valuetype) list \<Rightarrow> go_error + (Keytype \<times> Valuetype) list" where
  "collectPairs [] pairs = Inr pairs"
| "collectPairs (Inl err # rs) pairs = Inl err"
| "collectPairs (Inr (ks, vs) # rs) pairs = collectPairs rs (pairs @ zip ks vs)"

definition sortPairs :: "(Keytype \<times> Valuetype) list \<Rightarrow> (Keytype \<times> Valuetype) list" where
  "sortPairs pairs = sort_key ekey pairs"

definition Sharded_GetRange ::
  "ShardedBTree \<Rightarrow> slice \<Rightarrow> slice \<Rightarrow> (go_error + Keytype list \<times> Valuetype list) option" where
  "Sharded_GetRange s startKey endKey =
     (if bytes_Compare startKey endKey > 0 then Some (Inl ErrInvalidRange)
      else do {
        results \<leftarrow> those (map (\<lambda>sh. Btree_GetRange sh startKey endKey) (shards s));
        (case collectPairs results [] of
           Inl err \<Rightarrow> Some (Inl err)
         | Inr pairs \<Rightarrow>
             let sorted = sortPairs pairs in
             Some (Inr (map fst sorted, map snd sorted)))
      })"

definition Sharded_DeleteRange ::
  "ShardedBTree \<Rightarrow> slice \<Rightarrow> slice \<Rightarrow> ((go_error + nat) \<times> ShardedBTree) option" where
  "Sharded_DeleteRange s startKey endKey =
     do {
       r \<leftarrow> Sharded_GetRange s startKey endKey;
       (case r of
          Inl err \<Rightarrow> Some (Inl err, s)
        | Inr (ks, _) \<Rightarrow> map_option (\<lambda>(n, s'). (Inr n, s')) (delete_each Sharded_Delete s ks 0))
     }"

section \<open>Whole tree\<close>

definition Sharded_Count :: "ShardedBTree \<Rightarrow> int" where
  "Sharded_Count s = sum_list (map Btree_countKeys (shards s))"

record ShardStats =
  stNumShards :: nat
  TotalKeys :: int
  KeysPerShard :: "int list"
  MinShardKeys :: int
  MaxShardKeys :: int
  stTotalInserts :: "64 word"
  stTotalDeletes :: "64 word"
  stTotalFinds :: "64 word"

definition countStep :: "int \<Rightarrow> ShardStats \<Rightarrow> ShardStats" where
  "countStep count stats =
     stats\<lparr>TotalKeys := TotalKeys stats + count,
           MinShardKeys := (if count < MinShardKeys stats then count else MinShardKeys stats),
           MaxShardKeys := (if count > MaxShardKeys stats then count else MaxShardKeys stats)\<rparr>"

definition Sharded_Stats :: "ShardedBTree \<Rightarrow> ShardStats option" where
  "Sharded_Stats s =
     (let counts = map Btree_countKeys (shards s) in
      do {
        first \<leftarrow> at_ix counts 0;
        Some (fold countStep counts
          \<lparr>stNumShards = length (shards s), TotalKeys = 0, KeysPerShard = counts,
           MinShardKeys = first, MaxShardKeys = first,
           stTotalInserts = totalInserts s, stTotalDeletes = totalDeletes s,
           stTotalFinds = totalFinds s\<rparr>)
      })"

definition Sharded_NumShards :: "ShardedBTree \<Rightarrow> int" where
  "Sharded_NumShards s = uint (numShards s)"

definition Sharded_GetShard :: "ShardedBTree \<Rightarrow> int \<Rightarrow> Btree option" where
  "Sharded_GetShard s index =
     (if index < 0 \<or> index \<ge> int (length (shards s)) then None else Some (shards s ! nat index))"

primrec forEachShard :: "'s callback \<Rightarrow> Btree list \<Rightarrow> 's \<Rightarrow> 's option" where
  "forEachShard callback [] st = Some st"
| "forEachShard callback (sh # shs) st =
     (case root sh of
        None \<Rightarrow> forEachShard callback shs st
      | Some r \<Rightarrow>
          do {
            (go, st') \<leftarrow> forEach callback r st;
            if \<not> go then Some st' else forEachShard callback shs st'
          })"

definition Sharded_ForEach :: "ShardedBTree \<Rightarrow> 's callback \<Rightarrow> 's \<Rightarrow> 's option" where
  "Sharded_ForEach s callback st = forEachShard callback (shards s) st"

definition Sharded_Clear :: "ShardedBTree \<Rightarrow> ShardedBTree" where
  "Sharded_Clear s =
     s\<lparr>shards := map (\<lambda>_. empty_Btree) (shards s), totalInserts := 0, totalDeletes := 0, totalFinds := 0\<rparr>"

section \<open>Bulk insert\<close>

text \<open>
  The grouping loop maps a shard index to the indices of its keys, in order.  Then one
  goroutine per group inserts its keys; \<open>sched\<close> lists the shards in the order in which
  their goroutines get a turn, one insert a turn (an insert holds the shard's lock).  A turn
  of a finished goroutine is idle, and the goroutines that \<open>sched\<close> leaves unfinished run
  to their end afterwards: every interleaving is the run of some \<open>sched\<close>.
\<close>

primrec groupLoop :: "ShardedBTree \<Rightarrow> Keytype list \<Rightarrow> nat \<Rightarrow> (nat \<Rightarrow> nat list) \<Rightarrow> (nat \<Rightarrow> nat list) option" where
  "groupLoop s [] i groups = Some groups"
| "groupLoop s (key # ks) i groups =
     do {
       shardIdx \<leftarrow> getShardIndex s key;
       groupLoop s ks (Suc i) (groups(shardIdx := groups shardIdx @ [i]))
     }"

definition bulkTurn ::
  "Keytype list \<Rightarrow> Valuetype list \<Rightarrow> nat \<Rightarrow> ShardedBTree \<times> (nat \<Rightarrow> nat list) \<Rightarrow> (ShardedBTree \<times> (nat \<Rightarrow> nat list)) option" where
  "bulkTurn ks vs idx st =
     (case st of (s, groups) \<Rightarrow>
      (case groups idx of
         [] \<Rightarrow> Some (s, groups)
       | keyIdx # rest \<Rightarrow>
           do {
             shard \<leftarrow> at_ix (shards s) idx;
             k \<leftarrow> at_ix ks keyIdx;
             v \<leftarrow> at_ix vs keyIdx;
             shard' \<leftarrow> Btree_Insert shard k v;
             Some (s\<lparr>shards := (shards s)[idx := shard'], totalInserts := totalInserts s + 1\<rparr>,
                   groups(idx := rest))
           }))"

primrec bulkRun ::
  "Keytype list \<Rightarrow> Valuetype list \<Rightarrow> nat list \<Rightarrow> ShardedBTree \<times> (nat \<Rightarrow> nat list) \<Rightarrow> (ShardedBTree \<times> (nat \<Rightarrow> nat list)) option" where
  "bulkRun ks vs [] st = Some st"
| "bulkRun ks vs (idx # sched) st = do { st' \<leftarrow> bulkTurn ks vs idx st; bulkRun ks vs sched st' }"

definition drain :: "nat \<Rightarrow> (nat \<Rightarrow> nat list) \<Rightarrow> nat list" where
  "drain n groups = concat (map (\<lambda>idx. replicate (length (groups idx)) idx) [0..<n])"

definition Sharded_BulkInsert ::
  "nat list \<Rightarrow> ShardedBTree \<Rightarrow> Keytype list \<Rightarrow> Valuetype list \<Rightarrow> ((go_error + unit) \<times> ShardedBTree) option" where
  "Sharded_BulkInsert sched s ks vs =
     (if length ks \<noteq> length vs then Some (Inl ErrLengthMismatch, s)
      else do {
        groups \<leftarrow> groupLoop s ks 0 (\<lambda>_. []);
        (s1, groups1) \<leftarrow> bulkRun ks vs sched (s, groups);
        (s2, _) \<leftarrow> bulkRun ks vs (drain (length (shards s1)) groups1) (s1, groups1);
        Some (Inr (), s2)
      })"

end
