(* ===== verification/Sharded_Store.thy ===== *)
theory Sharded_Store
  imports Sharded_Btree "HOL-Library.Multiset"
begin

text \<open>
  The sharded tree as a store: routing sends equal keys to equal shards, so the union of the
  shards' maps is one map, the store contract holds again, and the layers above need not know
  about shards.  \<open>BulkInsert\<close> does not depend on how its goroutines are scheduled.
\<close>

section \<open>Invariant and map\<close>

definition route :: "ShardedBTree \<Rightarrow> bytes \<Rightarrow> nat" where
  "route s k = unat (fnv32a (Bytes k) mod numShards s)"

definition shard_frame :: "ShardedBTree \<Rightarrow> bool" where
  "shard_frame s \<longleftrightarrow>
     0 < length (shards s) \<and> length (shards s) < 2 ^ 32 \<and> numShards s = of_nat (length (shards s))"

definition shard_inv :: "ShardedBTree \<Rightarrow> bool" where
  "shard_inv s \<longleftrightarrow> shard_frame s \<and>
     (\<forall>i < length (shards s). tree_inv (shards s ! i) \<and> (\<forall>k \<in> dom (tree_map (shards s ! i)). route s k = i))"

lemma shard_inv_frame [simp]: "shard_inv s \<Longrightarrow> shard_frame s"
  by (simp add: shard_inv_def)

definition shard_map :: "ShardedBTree \<Rightarrow> bytes \<Rightarrow> Valuetype option" where
  "shard_map s k = tree_map (shards s ! route s k) k"

definition shard_upd_ok :: "ShardedBTree \<Rightarrow> bytes \<Rightarrow> bool" where
  "shard_upd_ok s k \<longleftrightarrow> tree_upd_ok (shards s ! route s k) k"

lemma fnv32a_bytes: "fnv32a (Bytes (bytes_of key)) = fnv32a key"
  by (simp add: fnv32a_def)

lemma shard_frame_len:
  assumes "shard_frame s"
  shows "unat (numShards s) = length (shards s)" "numShards s \<noteq> 0"
proof -
  show u: "unat (numShards s) = length (shards s)"
    using assms by (simp add: shard_frame_def unat_of_nat)
  show "numShards s \<noteq> 0" using assms u by (auto simp: shard_frame_def)
qed

lemma route_less [simp]:
  assumes "shard_frame s"
  shows "route s k < length (shards s)"
proof -
  have "route s k = unat (fnv32a (Bytes k)) mod length (shards s)"
    by (simp only: route_def unat_mod_distrib shard_frame_len(1) [OF assms])
  then show ?thesis using assms by (simp add: shard_frame_def)
qed

lemma getShardIndex_eq: "shard_frame s \<Longrightarrow> getShardIndex s key = Some (route s (bytes_of key))"
  using shard_frame_len [of s] by (simp add: getShardIndex_def route_def fnv32a_bytes)

lemma getShard_eq: "shard_frame s \<Longrightarrow> getShard s key = Some (route s (bytes_of key), shards s ! route s (bytes_of key))"
  using shard_frame_len [of s] route_less [of s "bytes_of key"]
  by (simp add: getShard_def route_def fnv32a_bytes go_simps)

lemma shard_inv_at: "shard_inv s \<Longrightarrow> tree_inv (shards s ! route s k)"
  using route_less [of s k] by (auto simp: shard_inv_def)

lemma shard_same:
  assumes "shards s' = shards s" "numShards s' = numShards s"
  shows "shard_inv s' = shard_inv s" "shard_map s' = shard_map s"
  using assms by (simp_all add: shard_inv_def shard_frame_def shard_map_def route_def fun_eq_iff)

text \<open>One shard replaced by a tree whose map differs at one key routed to it.\<close>

lemma shard_update:
  assumes inv: "shard_inv s" and s': "shards s' = (shards s)[route s k := t']" "numShards s' = numShards s"
    and t': "tree_inv t'" "tree_map t' = (tree_map (shards s ! route s k))(k := r)"
  shows "shard_inv s'" "shard_map s' = (shard_map s)(k := r)"
proof -
  have route: "route s' = route s" using s'(2) by (simp add: route_def fun_eq_iff)
  have at: "shards s' ! i = (if i = route s k then t' else shards s ! i)" if "i < length (shards s)" for i
    using that s'(1) by simp
  have "tree_inv (shards s' ! i) \<and> (\<forall>b \<in> dom (tree_map (shards s' ! i)). route s' b = i)"
    if i: "i < length (shards s)" for i
  proof (cases "i = route s k")
    case True
    have "b = k \<or> b \<in> dom (tree_map (shards s ! i))" if "b \<in> dom (tree_map t')" for b
      using that t'(2) True by (auto split: if_splits)
    then show ?thesis using inv i t' at [OF i] True route by (auto simp: shard_inv_def)
  next
    case False
    then show ?thesis using inv i at [OF i] route by (simp add: shard_inv_def)
  qed
  then show "shard_inv s'" using inv s' by (simp add: shard_inv_def shard_frame_def)
  show "shard_map s' = (shard_map s)(k := r)"
  proof
    fix b
    show "shard_map s' b = ((shard_map s)(k := r)) b"
      using at [OF route_less [OF shard_inv_frame [OF inv], of b]] t'(2) by (auto simp: shard_map_def route)
  qed
qed

section \<open>The store laws\<close>

lemma sharded_insert_law:
  assumes inv: "shard_inv s" and k: "k \<noteq> NilSlice" and ok: "shard_upd_ok s (bytes_of k)"
  shows "\<exists>s'. Sharded_Insert s k v = Some s' \<and> shard_inv s' \<and> shard_map s' = (shard_map s)(bytes_of k \<mapsto> v)"
proof -
  let ?i = "route s (bytes_of k)"
  obtain t' where t': "Btree_Insert (shards s ! ?i) k v = Some t'" "tree_inv t'"
      "tree_map t' = (tree_map (shards s ! ?i))(bytes_of k \<mapsto> v)"
    using tree.insert_law [OF shard_inv_at [OF inv] k, of "bytes_of k"] ok by (auto simp: shard_upd_ok_def)
  let ?s = "s\<lparr>shards := (shards s)[?i := t'], totalInserts := totalInserts s + 1\<rparr>"
  have "Sharded_Insert s k v = Some ?s"
    using t'(1) by (simp add: Sharded_Insert_def getShard_eq [OF shard_inv_frame [OF inv]])
  moreover have "shard_inv ?s" "shard_map ?s = (shard_map s)(bytes_of k \<mapsto> v)"
    by (rule shard_update [OF inv _ _ t'(2,3)]; simp)+
  ultimately show ?thesis by blast
qed

lemma sharded_delete_law:
  assumes inv: "shard_inv s"
  shows "\<exists>s'. Sharded_Delete s k = Some (shard_map s (bytes_of k) \<noteq> None, s') \<and> shard_inv s' \<and>
    shard_map s' = (shard_map s)(bytes_of k := None)"
proof -
  let ?i = "route s (bytes_of k)"
  let ?d = "tree_map (shards s ! ?i) (bytes_of k) \<noteq> None"
  obtain t' where t': "Btree_Delete (shards s ! ?i) k = Some (?d, t')" "tree_inv t'"
      "tree_map t' = (tree_map (shards s ! ?i))(bytes_of k := None)"
    using tree.delete_law [OF shard_inv_at [OF inv]] by blast
  let ?s = "s\<lparr>shards := (shards s)[?i := t']\<rparr>"
  let ?s' = "if ?d then ?s\<lparr>totalDeletes := totalDeletes ?s + 1\<rparr> else ?s"
  have "Sharded_Delete s k = Some (?d, ?s')"
    using t'(1) by (simp add: Sharded_Delete_def getShard_eq [OF shard_inv_frame [OF inv]] Let_def)
  moreover have "shard_inv ?s'" "shard_map ?s' = (shard_map s)(bytes_of k := None)"
    by (rule shard_update [OF inv _ _ t'(2,3)]; simp)+
  ultimately show ?thesis by (auto simp: shard_map_def)
qed

lemma sharded_find_law:
  assumes inv: "shard_inv s"
  shows "\<exists>s'. Sharded_Find s k = Some (find_result (shard_map s (bytes_of k)), s') \<and> shard_inv s' \<and>
    shard_map s' = shard_map s"
proof -
  let ?s = "s\<lparr>totalFinds := totalFinds s + 1\<rparr>"
  have "Btree_Find (shards s ! route s (bytes_of k)) k = Some (find_result (shard_map s (bytes_of k)))"
    using Btree_Find_map shard_inv_at [OF inv] by (simp add: tree_inv_def shard_map_def)
  then have "Sharded_Find s k = Some (find_result (shard_map s (bytes_of k)), ?s)"
    by (simp add: Sharded_Find_def getShard_eq [OF shard_inv_frame [OF inv]])
  then show ?thesis using inv shard_same [of ?s s] by simp
qed

text \<open>At a key of an internal node an insert stores a second copy, and \<open>Find\<close> keeps the old value.\<close>

lemma sharded_shadow:
  assumes inv: "shard_inv s" and sep: "\<not> shard_upd_ok s (bytes_of k)"
  shows "\<exists>s' old s''. Sharded_Insert s k v = Some s' \<and> shard_map s (bytes_of k) = Some old \<and>
    Sharded_Find s' k = Some (Inr (slice_copy old), s'')"
proof -
  let ?i = "route s (bytes_of k)"
  let ?t = "shards s ! ?i"
  have t: "tree_inv ?t" "bytes_of k \<in> tree_internal ?t" using shard_inv_at [OF inv] sep by (simp_all add: shard_upd_ok_def tree_upd_ok_def)
  then obtain old where old: "tree_map ?t (bytes_of k) = Some old" using tree_internal_dom [of ?t] by (auto simp: tree_inv_def)
  obtain t' where t': "Btree_Insert ?t k v = Some t'" "Btree_Find t' k = Some (Inr (slice_copy old))"
    using Btree_Insert_shadow [of ?t k old v] t old by (auto simp: tree_inv_def)
  let ?s = "s\<lparr>shards := (shards s)[?i := t'], totalInserts := totalInserts s + 1\<rparr>"
  have f: "shard_frame s" "shard_frame ?s" using shard_inv_frame [OF inv] by (simp_all add: shard_frame_def)
  have "route ?s = route s" by (simp add: route_def fun_eq_iff)
  then have "getShard ?s k = Some (?i, t')" using getShard_eq [OF f(2), of k] route_less [OF f(1)] by simp
  then have "\<exists>s''. Sharded_Find ?s k = Some (Inr (slice_copy old), s'')" using t'(2) by (simp add: Sharded_Find_def)
  moreover have "Sharded_Insert s k v = Some ?s" using t'(1) by (simp add: Sharded_Insert_def getShard_eq [OF f(1)])
  ultimately show ?thesis using old by (auto simp: shard_map_def)
qed

section \<open>Merging the shards' ranges\<close>

text \<open>A sort by distinct keys has one result, so the choice of algorithm does not show.\<close>

lemma sorted_permutation_unique:
  assumes "mset xs = mset ys" "distinct (map ekey xs)" "sorted (map ekey xs)" "sorted (map ekey ys)"
  shows "xs = ys"
proof (rule map_sorted_distinct_set_unique)
  show "inj_on ekey (set xs \<union> set ys)"
    using assms(1,2) by (metis distinct_map mset_eq_setD sup.idem)
  show "distinct (map ekey ys)"
    using assms(1,2) by (metis mset_map mset_eq_imp_distinct_iff)
  show "set xs = set ys" using assms(1) by (rule mset_eq_setD)
qed (use assms in auto)

lemma those_map: "(\<And>x. x \<in> set xs \<Longrightarrow> f x = Some (g x)) \<Longrightarrow> those (map f xs) = Some (map g xs)"
  by (induction xs) auto

lemma collectPairs_Inr: "collectPairs (map (\<lambda>x. Inr (f x, g x)) xs) acc = Inr (acc @ concat (map (\<lambda>x. zip (f x) (g x)) xs))"
  by (induction xs arbitrary: acc) auto

lemma map_of_concat_at:
  assumes "\<And>j. j \<in> set js \<Longrightarrow> j \<noteq> i \<Longrightarrow> map_of (f j) k = None" "i \<in> set js"
  shows "map_of (concat (map f js)) k = map_of (f i) k"
proof -
  have none: "map_of (concat (map f ls)) k = None"
    if "\<And>j. j \<in> set ls \<Longrightarrow> map_of (f j) k = None" for ls
    using that by (induction ls) (auto simp: map_add_None)
  from assms show ?thesis
  proof (induction js)
    case (Cons j js)
    then show ?case
      using none [of js] by (cases "i \<in> set js"; cases "j = i") (auto simp: map_add_def split: option.split)
  qed simp
qed

lemma distinct_concat_map:
  assumes "distinct js" "\<And>j. j \<in> set js \<Longrightarrow> distinct (f j)"
    "\<And>i j. i \<in> set js \<Longrightarrow> j \<in> set js \<Longrightarrow> i \<noteq> j \<Longrightarrow> set (f i) \<inter> set (f j) = {}"
  shows "distinct (concat (map f js))"
  using assms by (induction js) fastforce+

text \<open>What shard \<open>i\<close> contributes, with contents for keys.\<close>

definition part :: "ShardedBTree \<Rightarrow> slice \<Rightarrow> slice \<Rightarrow> nat \<Rightarrow> (Keytype \<times> Valuetype) list" where
  "part s lo hi i = map (\<lambda>p. (slice_copy (fst p), slice_copy (snd p))) (filter (in_range lo hi) (tree_entries (shards s ! i)))"

lemma part_map:
  assumes "shard_inv s" "i < length (shards s)"
  shows "map_of (map (\<lambda>p. (ekey p, snd p)) (part s lo hi i)) k =
    map_option slice_copy (map_range lo hi (tree_map (shards s ! i)) k)"
    and "distinct (map ekey (part s lo hi i))"
    and "k \<in> set (map ekey (part s lo hi i)) \<Longrightarrow> route s k = i"
proof -
  let ?es = "tree_entries (shards s ! i)"
  let ?F = "filter (in_range lo hi) ?es"
  have st: "strict ?es" using assms by (simp add: shard_inv_def tree_inv_def tree_strict_def)
  let ?ks = "map (\<lambda>p. slice_copy (fst p)) ?F" and ?vs = "map (\<lambda>p. slice_copy (snd p)) ?F"
  have lm: "lists_map ?ks ?vs (map_range lo hi (tree_map (shards s ! i)))"
    unfolding tree_map_def by (rule lists_map_filter [OF st]) (simp add: emit_all_def)
  have z: "map (\<lambda>p. (ekey p, snd p)) (part s lo hi i) = zip (map bytes_of ?ks) ?vs"
    by (simp add: part_def comp_def zip_map_map zip_same_conv_map)
  show "map_of (map (\<lambda>p. (ekey p, snd p)) (part s lo hi i)) k =
      map_option slice_copy (map_range lo hi (tree_map (shards s ! i)) k)"
    unfolding z using lm by (simp add: lists_map_def)
  have b: "map ekey (part s lo hi i) = map bytes_of ?ks" by (simp add: part_def comp_def)
  show "distinct (map ekey (part s lo hi i))"
    unfolding b using lm by (simp add: lists_map_def strict_sorted_iff)
  show "route s k = i" if "k \<in> set (map ekey (part s lo hi i))"
  proof -
    have "k \<in> dom (map_range lo hi (tree_map (shards s ! i)))"
      using that unfolding b lists_map_dom [OF lm] .
    then have "k \<in> dom (tree_map (shards s ! i))" by (auto simp: map_range_def split: if_splits)
    then show ?thesis using assms by (auto simp: shard_inv_def)
  qed
qed

lemma Sharded_GetRange_parts:
  assumes "shard_inv s" "bytes_of lo \<le> bytes_of hi"
  shows "Sharded_GetRange s lo hi =
    (let sorted = sortPairs (concat (map (part s lo hi) [0..<length (shards s)])) in
     Some (Inr (map fst sorted, map snd sorted)))"
proof -
  let ?F = "\<lambda>sh. filter (in_range lo hi) (tree_entries sh)"
  let ?f = "\<lambda>sh. map (\<lambda>p. slice_copy (fst p)) (?F sh)" and ?g = "\<lambda>sh. map (\<lambda>p. slice_copy (snd p)) (?F sh)"
  have "Btree_GetRange sh lo hi = Some (Inr (?f sh, ?g sh))" if "sh \<in> set (shards s)" for sh
  proof -
    have "tree_inv sh" using that assms(1) by (auto simp: shard_inv_def in_set_conv_nth)
    then show ?thesis
      using Btree_GetRange_filter [of sh lo hi] assms(2) by (simp add: tree_inv_def emit_all_def not_less [symmetric])
  qed
  then have those: "those (map (\<lambda>sh. Btree_GetRange sh lo hi) (shards s)) = Some (map (\<lambda>sh. Inr (?f sh, ?g sh)) (shards s))"
    by (rule those_map)
  have "map (\<lambda>sh. zip (?f sh) (?g sh)) (shards s) = map (part s lo hi) [0..<length (shards s)]"
    by (rule nth_equalityI) (simp_all add: part_def zip_map_map zip_same_conv_map)
  then have "collectPairs (map (\<lambda>sh. Inr (?f sh, ?g sh)) (shards s)) [] =
      Inr (concat (map (part s lo hi) [0..<length (shards s)]))"
    by (simp only: collectPairs_Inr append_Nil)
  then show ?thesis using assms(2) those by (simp add: Sharded_GetRange_def not_less [symmetric])
qed

lemma sharded_range_law:
  assumes inv: "shard_inv s" and le: "bytes_of lo \<le> bytes_of hi"
  shows "\<exists>ks vs. Sharded_GetRange s lo hi = Some (Inr (ks, vs)) \<and> lists_map ks vs (map_range lo hi (shard_map s))"
proof -
  let ?n = "length (shards s)" and ?kv = "\<lambda>p. (ekey p, snd p)"
  let ?P = "concat (map (part s lo hi) [0..<?n])"
  let ?S = "sortPairs ?P"
  have d: "distinct (map ekey ?P)"
    unfolding map_concat map_map comp_def
  proof (rule distinct_concat_map)
    show "set (map ekey (part s lo hi i)) \<inter> set (map ekey (part s lo hi j)) = {}"
      if "i \<in> set [0..<?n]" "j \<in> set [0..<?n]" "i \<noteq> j" for i j
      using part_map(3) [OF inv, of i _ lo hi] part_map(3) [OF inv, of j _ lo hi] that
      by (metis atLeastLessThan_iff disjoint_iff set_upt)
  qed (use part_map(2) [OF inv] in auto)
  have perm: "mset ?S = mset ?P" "sorted (map ekey ?S)" by (simp_all add: sortPairs_def)
  then have dS: "distinct (map ekey ?S)" using d by (metis mset_map mset_eq_imp_distinct_iff)
  have "map_of (map ?kv ?S) = map_of (map ?kv ?P)"
    using d dS mset_eq_setD [OF perm(1)]
    by (intro map_of_inject_set [THEN iffD2]) (simp_all only: map_map comp_def fst_conv set_map)
  also have "\<dots> = map_option slice_copy \<circ> map_range lo hi (shard_map s)"
  proof
    fix k
    have "map_of (map ?kv (part s lo hi j)) k = None" if "j < ?n" "j \<noteq> route s k" for j
      using part_map(3) [OF inv that(1), of k lo hi] that(2) by (auto simp: map_of_eq_None_iff image_image)
    then have "map_of (concat (map (\<lambda>i. map ?kv (part s lo hi i)) [0..<?n])) k =
        map_of (map ?kv (part s lo hi (route s k))) k"
      using inv by (intro map_of_concat_at) auto
    then show "map_of (map ?kv ?P) k = (map_option slice_copy \<circ> map_range lo hi (shard_map s)) k"
      using part_map(1) [OF inv route_less [OF shard_inv_frame [OF inv]], of lo hi k k]
      by (simp add: map_concat comp_def map_range_def shard_map_def)
  qed
  finally have "map_of (zip (map bytes_of (map fst ?S)) (map snd ?S)) = map_option slice_copy \<circ> map_range lo hi (shard_map s)"
    by (simp add: zip_map_map zip_same_conv_map comp_def)
  moreover have "NilSlice \<notin> set (map fst ?S)"
    using mset_eq_setD [OF perm(1)] by (auto simp: part_def slice_copy_not_nil [symmetric])
  ultimately have "lists_map (map fst ?S) (map snd ?S) (map_range lo hi (shard_map s))"
    using perm(2) dS by (simp add: lists_map_def strict_sorted_iff comp_def)
  then show ?thesis using Sharded_GetRange_parts [OF inv le] by (auto simp: Let_def)
qed

interpretation sharded: range_store shard_inv shard_map shard_upd_ok Sharded_Insert Sharded_Delete Sharded_Find Sharded_GetRange
proof
  show "shard_upd_ok s b" if "shard_inv s" "shard_map s b = None" for s b
    using tree.fresh_ok [OF shard_inv_at [OF that(1)]] that(2) by (simp add: shard_upd_ok_def shard_map_def)
qed (fact sharded_find_law sharded_insert_law sharded_delete_law sharded_range_law)+

section \<open>Bulk insert does not depend on the schedule\<close>

text \<open>The reference: one insert after the other, in the order of the arguments.\<close>

primrec insert_all :: "ShardedBTree \<Rightarrow> (Keytype \<times> Valuetype) list \<Rightarrow> ShardedBTree option" where
  "insert_all s [] = Some s"
| "insert_all s (p # ps) = do { s' \<leftarrow> Sharded_Insert s (fst p) (snd p); insert_all s' ps }"

definition ins_ix :: "nat \<Rightarrow> Keytype \<Rightarrow> Valuetype \<Rightarrow> ShardedBTree \<Rightarrow> ShardedBTree option" where
  "ins_ix i k v s =
     do {
       shard \<leftarrow> at_ix (shards s) i;
       shard' \<leftarrow> Btree_Insert shard k v;
       Some (s\<lparr>shards := (shards s)[i := shard'], totalInserts := totalInserts s + 1\<rparr>)
     }"

lemma Sharded_Insert_ix: "shard_frame s \<Longrightarrow> Sharded_Insert s k v = ins_ix (route s (bytes_of k)) k v s"
  by (simp add: Sharded_Insert_def ins_ix_def getShard_eq go_simps)

lemma ins_ix_frame:
  "ins_ix i k v s = Some s' \<Longrightarrow> length (shards s') = length (shards s) \<and> numShards s' = numShards s"
  by (auto simp: ins_ix_def split: bind_splits)

lemma ins_ix_swap:
  "i \<noteq> j \<Longrightarrow> Option.bind (ins_ix i k v s) (ins_ix j k' v') = Option.bind (ins_ix j k' v' s) (ins_ix i k v)"
  by (auto simp: ins_ix_def at_ix_def list_update_swap split: bind_splits)

text \<open>Inserts named by key index, routed by \<open>rt\<close>.\<close>

primrec ins_ixs :: "Keytype list \<Rightarrow> Valuetype list \<Rightarrow> (nat \<Rightarrow> nat) \<Rightarrow> nat list \<Rightarrow> ShardedBTree \<Rightarrow> ShardedBTree option" where
  "ins_ixs ks vs rt [] s = Some s"
| "ins_ixs ks vs rt (j # js) s = Option.bind (ins_ix (rt j) (ks ! j) (vs ! j) s) (ins_ixs ks vs rt js)"

lemma ins_ixs_pull:
  "\<forall>x \<in> set xs. rt x \<noteq> rt j \<Longrightarrow> ins_ixs ks vs rt (xs @ j # ys) s = ins_ixs ks vs rt (j # xs @ ys) s"
proof (induction xs arbitrary: s)
  case (Cons x xs)
  have "ins_ixs ks vs rt ((x # xs) @ j # ys) s =
      Option.bind (ins_ix (rt x) (ks ! x) (vs ! x) s) (ins_ixs ks vs rt (j # xs @ ys))"
    using Cons by (simp cong: bind_option_cong)
  also have "\<dots> = Option.bind (Option.bind (ins_ix (rt x) (ks ! x) (vs ! x) s) (ins_ix (rt j) (ks ! j) (vs ! j))) (ins_ixs ks vs rt (xs @ ys))"
    by (simp add: bind_assoc ins_ixs.simps(2) [abs_def])
  also have "\<dots> = ins_ixs ks vs rt (j # (x # xs) @ ys) s"
    using Cons.prems by (subst ins_ix_swap) (auto simp: bind_assoc ins_ixs.simps(2) [abs_def])
  finally show ?case .
qed simp

definition groups_of :: "(nat \<Rightarrow> nat) \<Rightarrow> nat list \<Rightarrow> nat \<Rightarrow> nat list" where
  "groups_of rt js i = filter (\<lambda>j. rt j = i) js"

lemma groups_of_step:
  assumes "groups_of rt js i = j # rest"
  obtains xs ys where "js = xs @ j # ys" "\<forall>x \<in> set xs. rt x \<noteq> rt j" "rt j = i"
    "(groups_of rt js)(i := rest) = groups_of rt (xs @ ys)"
proof -
  obtain xs ys where *: "js = xs @ j # ys" "\<forall>x \<in> set xs. rt x \<noteq> i" "rt j = i" "rest = filter (\<lambda>j. rt j = i) ys"
    using assms unfolding groups_of_def by (auto simp: filter_eq_Cons_iff)
  moreover have "(groups_of rt js)(i := rest) = groups_of rt (xs @ ys)"
    using * by (auto simp: groups_of_def fun_eq_iff)
  ultimately show ?thesis using that by blast
qed

lemma bulkTurn_eq:
  assumes "groups_of rt js i = j # rest" "j < length ks" "j < length vs"
  shows "bulkTurn ks vs i (s, groups_of rt js) =
    map_option (\<lambda>s'. (s', (groups_of rt js)(i := rest))) (ins_ix i (ks ! j) (vs ! j) s)"
  using assms by (auto simp: bulkTurn_def ins_ix_def go_simps split: bind_splits)

lemma bulkRun_ixs:
  assumes "\<forall>j \<in> set js. j < length ks" "length vs = length ks"
  shows "case bulkRun ks vs sched (s, groups_of rt js) of
      None \<Rightarrow> ins_ixs ks vs rt js s = None
    | Some (s', g') \<Rightarrow> \<exists>js'. g' = groups_of rt js' \<and> set js' \<subseteq> set js \<and> length (shards s') = length (shards s) \<and>
        ins_ixs ks vs rt js' s' = ins_ixs ks vs rt js s"
  using assms
proof (induction sched arbitrary: s js)
  case (Cons i sched)
  show ?case
  proof (cases "groups_of rt js i")
    case Nil
    then have "bulkTurn ks vs i (s, groups_of rt js) = Some (s, groups_of rt js)" by (simp add: bulkTurn_def)
    then show ?thesis using Cons by simp
  next
    case (Cons j rest)
    note g = this
    obtain xs ys where js: "js = xs @ j # ys" "\<forall>x \<in> set xs. rt x \<noteq> rt j" "rt j = i"
      "(groups_of rt js)(i := rest) = groups_of rt (xs @ ys)" using groups_of_step [OF g] by blast
    have turn: "bulkTurn ks vs i (s, groups_of rt js) =
        map_option (\<lambda>s'. (s', groups_of rt (xs @ ys))) (ins_ix i (ks ! j) (vs ! j) s)"
      using bulkTurn_eq [OF g, of ks vs s] Cons.prems js by simp
    have all: "ins_ixs ks vs rt js s = Option.bind (ins_ix i (ks ! j) (vs ! j) s) (ins_ixs ks vs rt (xs @ ys))"
      using ins_ixs_pull [OF js(2)] js(1,3) by simp
    show ?thesis
    proof (cases "ins_ix i (ks ! j) (vs ! j) s")
      case None
      then show ?thesis using turn all by simp
    next
      case (Some s1)
      have "\<forall>j \<in> set (xs @ ys). j < length ks" using Cons.prems(1) js(1) by auto
      from Cons.IH [OF this Cons.prems(2), of s1] show ?thesis
        using Some turn all ins_ix_frame [OF Some] js(1) by (auto split: option.splits)
    qed
  qed
qed auto

lemma bulkRun_length:
  "bulkRun ks vs sched (s, g) = Some (s', g') \<Longrightarrow> length (g' i) = length (g i) - count_list sched i"
proof (induction sched arbitrary: s g)
  case (Cons x sched)
  then obtain s1 g1 where 1: "bulkTurn ks vs x (s, g) = Some (s1, g1)" "bulkRun ks vs sched (s1, g1) = Some (s', g')"
    by (auto split: bind_splits)
  have "length (g1 i) = length (g i) - (if x = i then 1 else 0)"
    using 1(1) by (auto simp: bulkTurn_def split: list.splits bind_splits)
  then show ?case using Cons.IH [OF 1(2)] by simp
qed simp

lemma count_drain: "i < n \<Longrightarrow> count_list (drain n g) i = length (g i)"
proof -
  have r: "count_list (replicate m x) i = (if x = i then m else 0)" for m x by (induction m) auto
  have "count_list (concat (map (\<lambda>idx. replicate (length (g idx)) idx) xs)) i = (if i \<in> set xs then length (g i) else 0)"
    if "distinct xs" for xs using that by (induction xs) (auto simp: r)
  then show "i < n \<Longrightarrow> count_list (drain n g) i = length (g i)" by (simp add: drain_def)
qed

lemma groupLoop_eq:
  "shard_frame s \<Longrightarrow> groupLoop s ks i g =
     Some (\<lambda>x. g x @ filter (\<lambda>j. route s (bytes_of (ks ! (j - i))) = x) [i..<i + length ks])"
proof (induction ks arbitrary: i g)
  case (Cons k ks)
  have u: "[i..<i + length (k # ks)] = i # [Suc i..<Suc i + length ks]"
    by (simp add: upt_conv_Cons del: upt_Suc)
  have f: "filter (\<lambda>j. route s (bytes_of ((k # ks) ! (j - i))) = x) [Suc i..<Suc i + length ks] =
      filter (\<lambda>j. route s (bytes_of (ks ! (j - Suc i))) = x) [Suc i..<Suc i + length ks]" for x
    by (rule filter_cong) (auto simp: nth_Cons' Suc_diff_le)
  show ?case
    unfolding u filter.simps f
    using Cons by (simp add: getShardIndex_eq fun_eq_iff del: upt_Suc add_Suc)
qed simp

lemma insert_all_ixs:
  assumes "shard_frame s" "length vs = length ks" "i + n = length ks" "rt = (\<lambda>j. route s (bytes_of (ks ! j)))"
  shows "insert_all s (drop i (zip ks vs)) = ins_ixs ks vs rt [i..<i + n] s"
  using assms
proof (induction n arbitrary: s i)
  case (Suc n)
  have d: "drop i (zip ks vs) = (ks ! i, vs ! i) # drop (Suc i) (zip ks vs)"
    using Suc.prems(2,3) Cons_nth_drop_Suc [of i "zip ks vs"] by simp
  have "insert_all s' (drop (Suc i) (zip ks vs)) = ins_ixs ks vs rt [Suc i..<Suc i + n] s'"
    if "ins_ix (rt i) (ks ! i) (vs ! i) s = Some s'" for s'
    using ins_ix_frame [OF that] Suc.prems by (intro Suc.IH) (auto simp: shard_frame_def route_def)
  moreover have "[i..<i + Suc n] = i # [Suc i..<Suc i + n]"
    by (simp add: upt_conv_Cons del: upt_Suc)
  ultimately show ?case
    unfolding d using Suc.prems(1,4) by (auto simp: Sharded_Insert_ix simp del: upt_Suc split: bind_splits)
qed simp

lemma Sharded_BulkInsert_sequential:
  assumes fr: "shard_frame s" and len: "length ks = length vs"
  shows "Sharded_BulkInsert sched s ks vs = map_option (\<lambda>s'. (Inr (), s')) (insert_all s (zip ks vs))"
proof -
  define rt where "rt j = route s (bytes_of (ks ! j))" for j
  let ?js = "[0..<length ks]"
  have g: "groupLoop s ks 0 (\<lambda>_. []) = Some (groups_of rt ?js)"
    using groupLoop_eq [OF fr, of ks 0] by (simp add: groups_of_def rt_def fun_eq_iff)
  have all: "insert_all s (zip ks vs) = ins_ixs ks vs rt ?js s"
    using insert_all_ixs [OF fr, of vs ks 0 "length ks" rt] len by (simp add: rt_def [abs_def])
  have lt: "\<forall>j \<in> set ?js. j < length ks" by simp
  show ?thesis
  proof (cases "bulkRun ks vs sched (s, groups_of rt ?js)")
    case None
    then show ?thesis
      using bulkRun_ixs [OF lt, where vs = vs and sched = sched and s = s and rt = rt] g all len by (simp add: Sharded_BulkInsert_def)
  next
    case (Some st)
    obtain s1 g1 where st: "st = (s1, g1)" by fastforce
    then obtain js1 where js1: "g1 = groups_of rt js1" "set js1 \<subseteq> set ?js" "length (shards s1) = length (shards s)"
        "ins_ixs ks vs rt js1 s1 = ins_ixs ks vs rt ?js s"
      using bulkRun_ixs [OF lt, where vs = vs and sched = sched and s = s and rt = rt] Some len by auto
    have lt1: "\<forall>j \<in> set js1. j < length ks" using js1(2) by auto
    let ?dr = "drain (length (shards s1)) g1"
    show ?thesis
    proof (cases "bulkRun ks vs ?dr (s1, g1)")
      case None
      then show ?thesis
        using bulkRun_ixs [OF lt1, where vs = vs and sched = "?dr" and s = s1 and rt = rt] Some st js1 g all len by (simp add: Sharded_BulkInsert_def)
    next
      case (Some st2)
      obtain s2 g2 where st2: "st2 = (s2, g2)" by fastforce
      then obtain js2 where js2: "g2 = groups_of rt js2" "set js2 \<subseteq> set js1"
          "ins_ixs ks vs rt js2 s2 = ins_ixs ks vs rt js1 s1"
        using bulkRun_ixs [OF lt1, where vs = vs and sched = "?dr" and s = s1 and rt = rt] Some js1(1) len by auto
      have "g2 (rt j) = []" for j
        using bulkRun_length [of ks vs ?dr s1 g1 s2 g2 "rt j"] count_drain [of "rt j" "length (shards s1)" g1]
          Some st2 js1(3) route_less [OF fr] by (simp add: rt_def)
      then have "groups_of rt js2 (rt j) = []" for j using js2(1) by simp
      then have "js2 = []" unfolding groups_of_def filter_empty_conv by (metis list.set_intros(1) neq_Nil_conv)
      then have "insert_all s (zip ks vs) = Some s2" using js2(3) js1(4) all by simp
      then show ?thesis
        using Some st2 g st len \<open>bulkRun ks vs sched (s, groups_of rt ?js) = Some st\<close>
        by (simp add: Sharded_BulkInsert_def)
    qed
  qed
qed

section \<open>Creation, clearing, counting and walking\<close>

lemma empty_shards:
  assumes "shard_frame s" "set (shards s) \<subseteq> {empty_Btree}"
  shows "shard_inv s \<and> shard_map s = Map.empty"
proof -
  have "shards s ! i = empty_Btree" if "i < length (shards s)" for i
    using assms(2) nth_mem [OF that] by auto
  then show ?thesis using assms(1) by (auto simp: shard_inv_def shard_map_def fun_eq_iff)
qed

lemma NewShardedBTree_inv:
  assumes "n = (if cfgNumShards config \<le> 0 then numCPU else cfgNumShards config)" "0 < n" "n < 2 ^ 32"
  shows "shard_inv (NewShardedBTree numCPU config) \<and> shard_map (NewShardedBTree numCPU config) = Map.empty"
proof (rule empty_shards)
  have "(of_nat (nat n) :: 32 word) = word_of_int n" using assms(2) by simp
  then show "shard_frame (NewShardedBTree numCPU config)"
    using assms by (auto simp: shard_frame_def NewShardedBTree_def Let_def nat_less_iff)
qed (use assms in \<open>auto simp: NewShardedBTree_def Let_def\<close>)

lemma Sharded_Clear_inv:
  assumes "shard_frame s"
  shows "shard_inv (Sharded_Clear s) \<and> shard_map (Sharded_Clear s) = Map.empty"
  by (rule empty_shards) (use assms in \<open>auto simp: shard_frame_def Sharded_Clear_def\<close>)

lemma dom_shard_map:
  assumes "shard_inv s"
  shows "dom (shard_map s) = (\<Union>i < length (shards s). dom (tree_map (shards s ! i)))"
proof
  show "dom (shard_map s) \<subseteq> (\<Union>i < length (shards s). dom (tree_map (shards s ! i)))"
    using route_less [of s] assms by (auto simp: shard_map_def intro!: bexI)
  show "(\<Union>i < length (shards s). dom (tree_map (shards s ! i))) \<subseteq> dom (shard_map s)"
    using assms by (force simp: shard_inv_def shard_map_def)
qed

lemma finite_tree_map: "finite (dom (tree_map t))"
  by (simp add: tree_map_def dom_content)

lemma Sharded_Count_card:
  assumes "shard_inv s"
  shows "Sharded_Count s = int (card (dom (shard_map s)))"
proof -
  let ?n = "length (shards s)" and ?D = "\<lambda>i. dom (tree_map (shards s ! i))"
  have "Sharded_Count s = (\<Sum>i < ?n. Btree_countKeys (shards s ! i))"
    by (simp add: Sharded_Count_def sum_list_sum_nth atLeast0LessThan)
  also have "\<dots> = (\<Sum>i < ?n. int (card (?D i)))"
    using assms by (intro sum.cong) (auto simp: shard_inv_def tree_count)
  also have "\<dots> = int (card (\<Union>i < ?n. ?D i))"
  proof -
    have "?D i \<inter> ?D j = {}" if "i < ?n" "j < ?n" "i \<noteq> j" for i j
      using assms that unfolding shard_inv_def by (metis disjoint_iff)
    then show ?thesis by (subst card_UN_disjoint) (auto simp: finite_tree_map)
  qed
  finally show ?thesis using dom_shard_map [OF assms] by simp
qed

lemma fold_countStep:
  "fold countStep cs st =
     st\<lparr>TotalKeys := TotalKeys st + sum_list cs, MinShardKeys := fold min cs (MinShardKeys st),
        MaxShardKeys := fold max cs (MaxShardKeys st)\<rparr>"
proof (induction cs arbitrary: st)
  case (Cons c cs)
  have "countStep c st = st\<lparr>TotalKeys := TotalKeys st + c, MinShardKeys := min c (MinShardKeys st),
      MaxShardKeys := max c (MaxShardKeys st)\<rparr>"
    by (auto simp: countStep_def min_def max_def)
  then show ?case using Cons by simp
qed simp

lemma forEachShard_run:
  assumes "\<forall>sh \<in> set shs. tree_shape sh"
  shows "forEachShard f shs st = Some (snd (run_until f (concat (map tree_entries shs)) st))"
  using assms
proof (induction shs arbitrary: st)
  case (Cons sh shs)
  show ?case
  proof (cases "root sh")
    case None
    then show ?thesis using Cons by (simp add: tree_entries_def)
  next
    case (Some n)
    then have "forEach f n st = Some (run_until f (entries n) st)"
      using Cons.prems forEach_run [of "height n" 1 n] by (simp add: tree_shape_def)
    then show ?thesis
      using Some Cons by (auto simp: tree_entries_def run_until_append split: prod.split bool.split)
  qed
qed simp

section \<open>A concrete sharded tree\<close>

definition ex_cmds :: "cmd list" where
  "ex_cmds = map (\<lambda>i. CInsert (Bytes [i]) (Bytes [i, i])) [1, 2, 3, 4, 5, 6] @ [CDelete (Bytes [4])]"

definition ex_sharded :: ShardedBTree where
  "ex_sharded = the (run_cmds Sharded_Insert Sharded_Delete ex_cmds (NewShardedBTree 4 \<lparr>cfgNumShards = 2\<rparr>))"

lemma ex_sharded_inv: "shard_inv ex_sharded \<and> shard_map ex_sharded = map_cmds ex_cmds Map.empty"
proof -
  have new: "shard_inv (NewShardedBTree 4 \<lparr>cfgNumShards = 2\<rparr>)" "shard_map (NewShardedBTree 4 \<lparr>cfgNumShards = 2\<rparr>) = Map.empty"
    using NewShardedBTree_inv [of 2 "\<lparr>cfgNumShards = 2\<rparr>" 4] by simp_all
  have "fresh_cmds Map.empty ex_cmds" by (simp add: ex_cmds_def)
  then show ?thesis
    using sharded.run_cmds_fresh [OF new(1), of ex_cmds] new(2) by (auto simp: ex_sharded_def)
qed

section \<open>Properties\<close>

text \<open>
  C6.  A sharded tree refines one finite map: for every shard count from one to
  \<open>2 ^ 32 - 1\<close>, a run of inserts of new keys and of deletes on a new tree never
  panics, and then every \<open>Find\<close> and every range query with ordered bounds answers as
  the map does, whatever the hash sends where.
\<close>

theorem Sharded_refines_map:
  assumes "n = (if cfgNumShards config \<le> 0 then numCPU else cfgNumShards config)" "0 < n" "n < 2 ^ 32"
    and "fresh_cmds Map.empty cs"
  shows "\<exists>s. run_cmds Sharded_Insert Sharded_Delete cs (NewShardedBTree numCPU config) = Some s \<and>
    (\<forall>key. \<exists>s'. Sharded_Find s key = Some (find_result (map_cmds cs Map.empty (bytes_of key)), s')) \<and>
    (\<forall>lo hi. bytes_of lo \<le> bytes_of hi \<longrightarrow> (\<exists>ks vs. Sharded_GetRange s lo hi = Some (Inr (ks, vs)) \<and>
       lists_map ks vs (map_range lo hi (map_cmds cs Map.empty))))"
proof -
  have new: "shard_inv (NewShardedBTree numCPU config)" "shard_map (NewShardedBTree numCPU config) = Map.empty"
    using NewShardedBTree_inv [OF assms(1-3)] by simp_all
  obtain s where s: "run_cmds Sharded_Insert Sharded_Delete cs (NewShardedBTree numCPU config) = Some s"
      "shard_inv s" "shard_map s = map_cmds cs Map.empty"
    using sharded.run_cmds_fresh [OF new(1), of cs] assms(4) new(2) by auto
  show ?thesis
    using s sharded.find_law [OF s(2)] sharded.range_law [OF s(2)] by metis
qed

theorem Sharded_refines_map_witness:
  "let cs = [CInsert (Bytes [1]) (Bytes [9]), CInsert (Bytes []) (Bytes []), CDelete (Bytes [1]), CInsert (Bytes [1]) (Bytes [8])] in
   fresh_cmds Map.empty cs \<and>
   (\<exists>s. run_cmds Sharded_Insert Sharded_Delete cs (NewShardedBTree 4 \<lparr>cfgNumShards = 3\<rparr>) = Some s \<and>
     (\<forall>key. \<exists>s'. Sharded_Find s key = Some (find_result (map_cmds cs Map.empty (bytes_of key)), s')))"
proof -
  let ?cs = "[CInsert (Bytes [1]) (Bytes [9]), CInsert (Bytes []) (Bytes []), CDelete (Bytes [1]), CInsert (Bytes [1]) (Bytes [8])]"
  have fresh: "fresh_cmds Map.empty ?cs" by simp
  have "3 = (if cfgNumShards \<lparr>cfgNumShards = 3\<rparr> \<le> 0 then 4 else cfgNumShards \<lparr>cfgNumShards = 3\<rparr>)"
    "0 < (3::int)" "(3::int) < 2 ^ 32" by simp_all
  from Sharded_refines_map [OF this fresh] show ?thesis unfolding Let_def using fresh by blast
qed

text \<open>
  C13.  \<open>BulkInsert\<close> gives the same tree and counters under every schedule of its
  goroutines, those of inserting the pairs one after the other (also when some insert
  panics); slices of different lengths are refused and nothing is inserted.
\<close>

theorem Sharded_BulkInsert_schedule_independent:
  assumes "shard_frame s"
  shows "Sharded_BulkInsert sched s ks vs =
    (if length ks = length vs then map_option (\<lambda>s'. (Inr (), s')) (insert_all s (zip ks vs))
     else Some (Inl ErrLengthMismatch, s))"
  using Sharded_BulkInsert_sequential [OF assms] by (simp add: Sharded_BulkInsert_def)

theorem Sharded_BulkInsert_schedule_independent_witness:
  "shard_frame (NewShardedBTree 4 \<lparr>cfgNumShards = 2\<rparr>) \<and>
   Sharded_BulkInsert [1, 0, 1] (NewShardedBTree 4 \<lparr>cfgNumShards = 2\<rparr>) [Bytes [1], Bytes [2], Bytes [3], Bytes [1]]
     [Bytes [1], Bytes [2], Bytes [3], Bytes [4]] =
   map_option (\<lambda>s'. (Inr (), s')) (insert_all (NewShardedBTree 4 \<lparr>cfgNumShards = 2\<rparr>)
     [(Bytes [1], Bytes [1]), (Bytes [2], Bytes [2]), (Bytes [3], Bytes [3]), (Bytes [1], Bytes [4])])"
proof -
  have "shard_frame (NewShardedBTree 4 \<lparr>cfgNumShards = 2\<rparr>)"
    using NewShardedBTree_inv [of 2 "\<lparr>cfgNumShards = 2\<rparr>" 4] by simp
  then show ?thesis
    using Sharded_BulkInsert_schedule_independent [of "NewShardedBTree 4 \<lparr>cfgNumShards = 2\<rparr>"] by simp
qed

text \<open>
  C29.  On shards in order, \<open>DeleteRange\<close> over all of them removes exactly the keys between ordered bounds,
  returns their number and keeps the invariant; inverted bounds are an error and change
  nothing.
\<close>

theorem Sharded_DeleteRange_spec:
  assumes "shard_inv s"
  shows "if bytes_of startKey \<le> bytes_of endKey
    then \<exists>s'. Sharded_DeleteRange s startKey endKey =
        Some (Inr (card (dom (map_range startKey endKey (shard_map s)))), s') \<and>
      shard_inv s' \<and> shard_map s' = map_outside startKey endKey (shard_map s)
    else Sharded_DeleteRange s startKey endKey = Some (Inl ErrInvalidRange, s)"
proof (cases "bytes_of startKey \<le> bytes_of endKey")
  case True
  then show ?thesis using sharded.delete_range [OF assms True] by (auto simp: Sharded_DeleteRange_def)
next
  case False
  then show ?thesis by (simp add: Sharded_DeleteRange_def Sharded_GetRange_def not_le)
qed

theorem Sharded_DeleteRange_spec_witness:
  "shard_inv ex_sharded \<and>
   (\<exists>s'. Sharded_DeleteRange ex_sharded (Bytes [2]) (Bytes [5]) =
       Some (Inr (card (dom (map_range (Bytes [2]) (Bytes [5]) (shard_map ex_sharded)))), s') \<and>
     shard_inv s' \<and> shard_map s' = map_outside (Bytes [2]) (Bytes [5]) (shard_map ex_sharded)) \<and>
   Sharded_DeleteRange ex_sharded (Bytes [5]) (Bytes [2]) = Some (Inl ErrInvalidRange, ex_sharded)"
  using Sharded_DeleteRange_spec [of ex_sharded "Bytes [2]" "Bytes [5]"]
    Sharded_DeleteRange_spec [of ex_sharded "Bytes [5]" "Bytes [2]"] ex_sharded_inv by simp

text \<open>
  \<open>Count\<close> is the number of keys of the map, and \<open>Stats\<close> agrees with it: its
  total is \<open>Count\<close>, its extremes are the smallest and the largest shard count.
\<close>

lemma Sharded_Stats_spec:
  assumes "shard_inv s"
  shows "Sharded_Count s = int (card (dom (shard_map s))) \<and>
    (\<exists>st. Sharded_Stats s = Some st \<and> stNumShards st = length (shards s) \<and> TotalKeys st = Sharded_Count s \<and>
      KeysPerShard st = map Btree_countKeys (shards s) \<and>
      MinShardKeys st = Min (set (KeysPerShard st)) \<and> MaxShardKeys st = Max (set (KeysPerShard st)))"
proof -
  obtain sh shs where sh: "shards s = sh # shs"
    using shard_inv_frame [OF assms] by (cases "shards s") (auto simp: shard_frame_def)
  let ?c = "Btree_countKeys sh" and ?cs = "map Btree_countKeys shs"
  have "fold min ?cs (min ?c ?c) = Min (set (?c # ?cs))" "fold max ?cs (max ?c ?c) = Max (set (?c # ?cs))"
    by (simp_all only: Min.set_eq_fold Max.set_eq_fold min.idem max.idem)
  then show ?thesis
    using Sharded_Count_card [OF assms] sh
    by (simp add: Sharded_Stats_def Let_def go_simps fold_countStep Sharded_Count_def)
qed

text \<open>
  \<open>ForEach\<close> runs the callback over the entries of the shards, shard by shard and
  in key order within one, until the callback answers \<open>False\<close>.
\<close>

lemma Sharded_ForEach_visits:
  assumes "shard_inv s"
  shows "Sharded_ForEach s callback st =
    Some (snd (run_until callback (concat (map tree_entries (shards s))) st))"
  unfolding Sharded_ForEach_def
  by (rule forEachShard_run) (use assms in \<open>auto simp: shard_inv_def tree_inv_def in_set_conv_nth\<close>)

end
