(* ===== verification/Byte_Codec.thy ===== *)
theory Byte_Codec
  imports Go_Prelude "HOL-Library.Sublist"
begin

text \<open>
  Byte-level encodings shared by the log and the secondary indexes: Go's little-endian
  \<^verbatim>\<open>PutUint32\<close>, \<^verbatim>\<open>PutUint64\<close>, \<^verbatim>\<open>Uint32\<close> of
  \<^verbatim>\<open>encoding/binary\<close>, \<^verbatim>\<open>io.ReadFull\<close> over a byte stream, and the contract
  of a self-delimiting encoding with the consequences a log needs: a concatenation reads back
  entry by entry, and a torn last entry is not read.
\<close>

section \<open>Little-endian words\<close>

primrec put_le :: "nat \<Rightarrow> 'a::len word \<Rightarrow> bytes" where
  "put_le 0 w = []"
| "put_le (Suc n) w = ucast w # put_le n (drop_bit 8 w)"

primrec get_le :: "bytes \<Rightarrow> 'a::len word" where
  "get_le [] = 0"
| "get_le (b # bs) = or (ucast b) (push_bit 8 (get_le bs))"

abbreviation PutUint32 :: "32 word \<Rightarrow> bytes" where "PutUint32 \<equiv> put_le 4"
abbreviation PutUint64 :: "64 word \<Rightarrow> bytes" where "PutUint64 \<equiv> put_le 8"

lemma length_put_le [simp]: "length (put_le n w) = n"
  by (induction n arbitrary: w) auto

lemma put_le_Nil [simp]: "put_le n w = [] \<longleftrightarrow> n = 0"
  by (cases n) auto

lemma get_put_le: "get_le (put_le n w) = take_bit (8 * n) (w :: 'a::len word)"
proof (induction n arbitrary: w)
  case (Suc n)
  show ?case
    by (rule bit_word_eqI) (auto simp: Suc bit_simps)
qed simp

lemma get_put_32 [simp]: "get_le (PutUint32 w) = w"
  by (simp add: get_put_le take_bit_word_eq_self)

lemma get_put_64 [simp]: "get_le (PutUint64 w) = w"
  by (simp add: get_put_le take_bit_word_eq_self)

section \<open>Results\<close>

text \<open>\<^verbatim>\<open>if err != nil { return err }\<close>.\<close>

definition ebind :: "go_error + 'a \<Rightarrow> ('a \<Rightarrow> go_error + 'b) \<Rightarrow> go_error + 'b" where
  "ebind r f = (case r of Inl e \<Rightarrow> Inl e | Inr x \<Rightarrow> f x)"

lemma ebind_simps [simp]: "ebind (Inl e) f = Inl e" "ebind (Inr x) f = f x"
  by (simp_all add: ebind_def)

lemma ebind_Inr: "ebind r f = Inr y \<longleftrightarrow> (\<exists>x. r = Inr x \<and> f x = Inr y)"
  by (cases r) auto

section \<open>Reading a stream\<close>

text \<open>
  \<^verbatim>\<open>io.ReadFull\<close> of \<open>n\<close> bytes: nothing to read is no error, the end of the
  stream is \<^verbatim>\<open>io.EOF\<close>, an end inside the \<open>n\<close> bytes is
  \<^verbatim>\<open>io.ErrUnexpectedEOF\<close>.
\<close>

definition ReadFull :: "nat \<Rightarrow> bytes \<Rightarrow> go_error + bytes \<times> bytes" where
  "ReadFull n bs =
     (if n = 0 then Inr ([], bs)
      else if bs = [] then Inl ErrEOF
      else if length bs < n then Inl ErrUnexpectedEOF
      else Inr (take n bs, drop n bs))"

definition ReadByte :: "bytes \<Rightarrow> go_error + byte \<times> bytes" where
  "ReadByte bs = (case bs of [] \<Rightarrow> Inl ErrEOF | b # bs' \<Rightarrow> Inr (b, bs'))"

lemma ReadFull_append: "length xs = n \<Longrightarrow> ReadFull n (xs @ rest) = Inr (xs, rest)"
  by (auto simp: ReadFull_def)

lemma ReadFull_Inr: "ReadFull n bs = Inr (x, rest) \<Longrightarrow> bs = x @ rest \<and> length x = n"
  by (auto simp: ReadFull_def split: if_splits)

lemma ReadByte_Inr: "ReadByte bs = Inr (b, rest) \<Longrightarrow> bs = b # rest"
  by (auto simp: ReadByte_def split: list.splits)

lemma ReadByte_Cons [simp]: "ReadByte (b # bs) = Inr (b, bs)" "ReadByte [] = Inl ErrEOF"
  by (simp_all add: ReadByte_def)

text \<open>
  Reading from a strict prefix of \<open>xs @ ys\<close>: either the read fails, or it returns \<open>xs\<close>
  and leaves a strict prefix of \<open>ys\<close>.  So a chain of reads over a torn encoding fails.
\<close>

lemma ReadFull_chain:
  assumes p: "strict_prefix p (xs @ ys)" and n: "length xs = n"
    and f: "\<And>p'. strict_prefix p' ys \<Longrightarrow> \<exists>e. f (xs, p') = Inl e"
  shows "\<exists>e. ebind (ReadFull n p) f = Inl e"
proof (cases "length p < n")
  case True
  then show ?thesis by (auto simp: ReadFull_def)
next
  case False
  from p obtain zs where zs: "xs @ ys = p @ zs" "zs \<noteq> []" by (auto simp: strict_prefix_def prefix_def)
  have "xs = take n p" "ys = drop n p @ zs"
    using arg_cong [OF zs(1), of "take n"] arg_cong [OF zs(1), of "drop n"] False n by simp_all
  then have "p = xs @ drop n p" "strict_prefix (drop n p) ys" using zs(2) by (auto simp: strict_prefix_def)
  then show ?thesis using f n by (metis ReadFull_append ebind_simps(2))
qed

lemma ReadByte_chain:
  assumes "strict_prefix p (b # ys)" "\<And>p'. strict_prefix p' ys \<Longrightarrow> \<exists>e. f (b, p') = Inl e"
  shows "\<exists>e. ebind (ReadByte p) f = Inl e"
  using assms by (cases p) (auto simp: strict_prefix_def)

section \<open>Self-delimiting encodings\<close>

text \<open>
  \<open>enc\<close> writes an item, \<open>dec\<close> reads one and returns the rest of the stream, as
  \<open>norm\<close> of what was written; a torn item is an error.  \<open>loop\<close> reads items until
  the first error.
\<close>

locale stream_codec =
  fixes enc :: "'a \<Rightarrow> bytes" and dec :: "bytes \<Rightarrow> go_error + 'b \<times> bytes"
    and ok :: "'a \<Rightarrow> bool" and norm :: "'a \<Rightarrow> 'b" and loop :: "bytes \<Rightarrow> 'b list"
  assumes dec_Nil: "\<exists>e. dec [] = Inl e"
    and dec_enc: "ok x \<Longrightarrow> dec (enc x @ rest) = Inr (norm x, rest)"
    and dec_torn: "ok x \<Longrightarrow> strict_prefix p (enc x) \<Longrightarrow> \<exists>e. dec p = Inl e"
    and loop_eq: "loop bs = (case dec bs of Inl e \<Rightarrow> [] | Inr (y, rest) \<Rightarrow> y # loop rest)"
begin

lemma loop_concat: "list_all ok xs \<Longrightarrow> loop (concat (map enc xs) @ p) = map norm xs @ loop p"
proof (induction xs)
  case (Cons x xs)
  then have "dec (concat (map enc (x # xs)) @ p) = Inr (norm x, concat (map enc xs) @ p)"
    by (simp add: dec_enc)
  with Cons show ?case by (subst loop_eq) simp
qed simp

lemma loop_error: "dec p = Inl e \<Longrightarrow> loop p = []"
  by (subst loop_eq) simp

lemma loop_torn:
  assumes "list_all ok xs" "ok x" "strict_prefix p (enc x)"
  shows "loop (concat (map enc xs) @ p) = map norm xs"
  using loop_concat [OF assms(1), of p] dec_torn [OF assms(2,3)] loop_error by auto

text \<open>Every prefix of a log reads back as the items it holds whole.\<close>

lemma loop_prefix:
  assumes "list_all ok xs" "prefix p (concat (map enc xs))"
  shows "\<exists>n \<le> length xs. loop p = map norm (take n xs) \<and>
    (\<forall>m \<le> length xs. length (concat (map enc (take m xs))) \<le> length p \<longrightarrow> m \<le> n)"
  using assms
proof (induction xs arbitrary: p)
  case Nil
  then show ?case using dec_Nil loop_error by auto
next
  case (Cons x xs)
  show ?case
  proof (cases "length p < length (enc x)")
    case True
    then have "strict_prefix p (enc x)"
      using Cons.prems(2) by (auto simp: strict_prefix_def prefix_append)
    then have "loop p = []" using dec_torn [of x p] loop_error Cons.prems(1) by auto
    moreover have "m = 0" if "length (concat (map enc (take m (x # xs)))) \<le> length p" for m
      using that True by (cases m) auto
    ultimately show ?thesis by (intro exI [of _ 0]) auto
  next
    case False
    then obtain p' where p': "p = enc x @ p'" "prefix p' (concat (map enc xs))"
    proof -
      from Cons.prems(2) obtain zs where zs: "enc x @ concat (map enc xs) = p @ zs" by (auto simp: prefix_def)
      have "enc x = take (length (enc x)) p" "concat (map enc xs) = drop (length (enc x)) p @ zs"
        using arg_cong [OF zs, of "take (length (enc x))"] arg_cong [OF zs, of "drop (length (enc x))"] False
        by simp_all
      then show ?thesis using that [of "drop (length (enc x)) p"] by (metis append_take_drop_id prefix_def)
    qed
    then obtain n where n: "n \<le> length xs" "loop p' = map norm (take n xs)"
      "\<forall>m \<le> length xs. length (concat (map enc (take m xs))) \<le> length p' \<longrightarrow> m \<le> n"
      using Cons.IH [of p'] Cons.prems(1) by auto
    have "loop p = map norm (take (Suc n) (x # xs))"
      using n(2) dec_enc [of x p'] Cons.prems(1) p'(1) by (subst loop_eq) simp
    moreover have "m \<le> Suc n" if "m \<le> length (x # xs)" "length (concat (map enc (take m (x # xs)))) \<le> length p" for m
      using that n(3) p'(1) by (cases m) auto
    ultimately show ?thesis using n(1) by (intro exI [of _ "Suc n"]) auto
  qed
qed

end

end
