(* ===== verification/Wal_Codec.thy ===== *)
theory Wal_Codec
  imports Byte_Codec
begin

text \<open>
  The log's record format, \<^verbatim>\<open>src/bptree/wal.go\<close>: entries, their checksum (the IEEE
  CRC-32 of \<^verbatim>\<open>hash/crc32\<close>), the file header, and reading entries back from a byte
  stream.
\<close>

section \<open>CRC-32\<close>

text \<open>
  One bit and one byte of the reflected CRC with the IEEE polynomial.  A digest keeps the
  complemented register between writes.
\<close>

definition crc_bit :: "32 word \<Rightarrow> 32 word" where
  "crc_bit c = (if bit c 0 then xor (drop_bit 1 c) 0xEDB88320 else drop_bit 1 c)"

definition crc_byte :: "byte \<Rightarrow> 32 word \<Rightarrow> 32 word" where
  "crc_byte b c = (crc_bit ^^ 8) (xor c (ucast b))"

definition crc32_Write :: "bytes \<Rightarrow> 32 word \<Rightarrow> 32 word" where
  "crc32_Write p h = not (fold crc_byte p (not h))"

definition crc32_NewIEEE :: "32 word" where
  "crc32_NewIEEE = 0"

lemma crc32_Write_append: "crc32_Write ys (crc32_Write xs h) = crc32_Write (xs @ ys) h"
  by (simp add: crc32_Write_def)

section \<open>Entries\<close>

type_synonym OpType = byte

definition OpInsert :: OpType where "OpInsert = 1"
definition OpDelete :: OpType where "OpDelete = 2"
definition OpClear :: OpType where "OpClear = 3"

record LogEntry =
  Sequence :: "64 word"
  Op :: OpType
  Key :: slice
  Value :: slice
  Checksum :: "32 word"

definition calculateEntryChecksum :: "LogEntry \<Rightarrow> 32 word" where
  "calculateEntryChecksum entry =
     crc32_Write (bytes_of (Value entry))
       (crc32_Write (bytes_of (Key entry))
         (crc32_Write [Op entry]
           (crc32_Write (PutUint64 (Sequence entry)) crc32_NewIEEE)))"

text \<open>The length prefix and the two inner lengths are truncated to 32 bits.\<close>

definition entryLen :: "LogEntry \<Rightarrow> nat" where
  "entryLen entry = 8 + 1 + 4 + length (bytes_of (Key entry)) + 4 + length (bytes_of (Value entry)) + 4"

text \<open>The writes of \<open>writeEntry\<close>, in order.\<close>

definition entryWrites :: "LogEntry \<Rightarrow> bytes list" where
  "entryWrites entry =
     [PutUint32 (of_nat (entryLen entry)),
      PutUint64 (Sequence entry),
      [Op entry],
      PutUint32 (of_nat (length (bytes_of (Key entry)))),
      bytes_of (Key entry),
      PutUint32 (of_nat (length (bytes_of (Value entry)))),
      bytes_of (Value entry),
      PutUint32 (Checksum entry)]"

definition encEntry :: "LogEntry \<Rightarrow> bytes" where
  "encEntry entry = concat (entryWrites entry)"

section \<open>Reading\<close>

definition readEntry :: "bytes \<Rightarrow> go_error + LogEntry \<times> bytes" where
  "readEntry s0 =
     ebind (ReadFull 4 s0) (\<lambda>(len, s1).
     ebind (ReadFull 8 s1) (\<lambda>(seq, s2).
     ebind (ReadByte s2) (\<lambda>(opByte, s3).
     ebind (ReadFull 4 s3) (\<lambda>(keyLen, s4).
     ebind (ReadFull (unat (get_le keyLen :: 32 word)) s4) (\<lambda>(key, s5).
     ebind (ReadFull 4 s5) (\<lambda>(valueLen, s6).
     ebind (ReadFull (unat (get_le valueLen :: 32 word)) s6) (\<lambda>(val, s7).
     ebind (ReadFull 4 s7) (\<lambda>(checksum, s8).
       let entry = \<lparr>Sequence = get_le seq, Op = opByte, Key = Bytes key, Value = Bytes val,
                    Checksum = get_le checksum\<rparr> in
       if get_le checksum \<noteq> calculateEntryChecksum entry then Inl ErrChecksum
       else Inr (entry, s8)))))))))"

lemma readEntry_size:
  "readEntry bs = Inr (e, rest) \<Longrightarrow> length bs = 25 + length (bytes_of (Key e)) + length (bytes_of (Value e)) + length rest"
  by (auto simp: readEntry_def ebind_Inr Let_def dest!: ReadFull_Inr ReadByte_Inr split: prod.splits if_splits)

lemma readEntry_shrinks: "readEntry bs = Inr (e, rest) \<Longrightarrow> length rest < length bs"
  by (simp add: readEntry_size)

text \<open>The scan of \<open>validateAndRecover\<close> and \<open>Replay\<close>: read entries until the first error.\<close>

function readEntries :: "bytes \<Rightarrow> LogEntry list" where
  "readEntries bs = (case readEntry bs of Inl e \<Rightarrow> [] | Inr (entry, rest) \<Rightarrow> entry # readEntries rest)"
  by pat_completeness auto
termination
  by (relation "measure length") (auto dest: readEntry_shrinks)

declare readEntries.simps [simp del]

section \<open>Header\<close>

definition walMagic :: "32 word" where "walMagic = 0x57414C31"
definition walVersion :: "32 word" where "walVersion = 1"

definition walHeader :: bytes where
  "walHeader = PutUint32 walMagic @ PutUint32 walVersion"

definition checkHeader :: "bytes \<Rightarrow> go_error + bytes" where
  "checkHeader bs =
     ebind (ReadFull 8 bs) (\<lambda>(h, rest).
       if (get_le (take 4 h) :: 32 word) \<noteq> walMagic then Inl ErrBadMagic
       else if (get_le (drop 4 h) :: 32 word) \<noteq> walVersion then Inl ErrBadVersion
       else Inr rest)"

section \<open>Round trip\<close>

definition entry_ok :: "LogEntry \<Rightarrow> bool" where
  "entry_ok e \<longleftrightarrow> length (bytes_of (Key e)) < 2 ^ 32 \<and> length (bytes_of (Value e)) < 2 ^ 32 \<and>
     Checksum e = calculateEntryChecksum e"

definition entry_copy :: "LogEntry \<Rightarrow> LogEntry" where
  "entry_copy e = e\<lparr>Key := slice_copy (Key e), Value := slice_copy (Value e)\<rparr>"

lemma checksum_copy [simp]: "calculateEntryChecksum (entry_copy e) = calculateEntryChecksum e"
  by (simp add: calculateEntryChecksum_def entry_copy_def)

lemma unat_len: "n < 2 ^ 32 \<Longrightarrow> unat (of_nat n :: 32 word) = n"
  by (simp add: unat_of_nat)

lemma readEntry_enc:
  assumes "entry_ok e"
  shows "readEntry (encEntry e @ rest) = Inr (entry_copy e, rest)"
proof -
  let ?e = "\<lparr>Sequence = Sequence e, Op = Op e, Key = Bytes (bytes_of (Key e)), Value = Bytes (bytes_of (Value e)),
    Checksum = calculateEntryChecksum e\<rparr>"
  have "?e = entry_copy e" using assms by (simp add: entry_copy_def entry_ok_def slice_copy_def)
  moreover from this have "calculateEntryChecksum ?e = calculateEntryChecksum e" by (simp only: checksum_copy)
  ultimately show ?thesis
    using assms
    by (simp add: readEntry_def encEntry_def entryWrites_def entry_ok_def ReadFull_append unat_len Let_def
        del: put_le.simps)
qed

lemma encEntry_length: "length (encEntry e) = 4 + entryLen e"
  by (simp add: encEntry_def entryWrites_def entryLen_def)

lemma readEntry_torn:
  assumes "entry_ok e" "strict_prefix p (encEntry e)"
  shows "\<exists>err. readEntry p = Inl err"
proof -
  let ?k = "bytes_of (Key e)" and ?v = "bytes_of (Value e)"
  have len: "unat (get_le (PutUint32 (of_nat (length ?k))) :: 32 word) = length ?k"
    "unat (get_le (PutUint32 (of_nat (length ?v))) :: 32 word) = length ?v"
    using assms(1) by (simp_all add: entry_ok_def unat_len)
  have "strict_prefix p (PutUint32 (of_nat (entryLen e)) @ PutUint64 (Sequence e) @ Op e #
      PutUint32 (of_nat (length ?k)) @ ?k @ PutUint32 (of_nat (length ?v)) @ ?v @ PutUint32 (Checksum e) @ [])"
    using assms(2) by (simp add: encEntry_def entryWrites_def del: put_le.simps)
  then show ?thesis
    unfolding readEntry_def
    apply -
    by ((rule ReadFull_chain, assumption, simp only: length_put_le len, simp only: prod.case)
        | (rule ReadByte_chain, assumption, simp only: prod.case))+ simp
qed

interpretation wal: stream_codec encEntry readEntry entry_ok entry_copy readEntries
proof
  show "\<exists>e. readEntry [] = Inl e" by (simp add: readEntry_def ReadFull_def)
  show "readEntries bs = (case readEntry bs of Inl e \<Rightarrow> [] | Inr (y, rest) \<Rightarrow> y # readEntries rest)" for bs
    by (rule readEntries.simps)
qed (fact readEntry_enc readEntry_torn)+

section \<open>What the checksum detects\<close>

lemma readEntry_bad:
  assumes "length (bytes_of (Key e)) < 2 ^ 32" "length (bytes_of (Value e)) < 2 ^ 32"
    "Checksum e \<noteq> calculateEntryChecksum e"
  shows "readEntry (encEntry e @ rest) = Inl ErrChecksum"
proof -
  have "calculateEntryChecksum \<lparr>Sequence = Sequence e, Op = Op e, Key = Bytes (bytes_of (Key e)),
      Value = Bytes (bytes_of (Value e)), Checksum = Checksum e\<rparr> = calculateEntryChecksum e"
    by (simp add: calculateEntryChecksum_def)
  then show ?thesis
    using assms
    by (simp add: readEntry_def encEntry_def entryWrites_def ReadFull_append unat_len Let_def del: put_le.simps)
qed

text \<open>The register step is injective: the polynomial has its top bit set, so bit 0 can be read off bit 31.\<close>

lemma crc_bit_top: "bit (crc_bit c) 31 \<longleftrightarrow> bit c 0"
proof -
  have "bit (0xEDB88320 :: 32 word) 31" by simp
  moreover have "\<not> bit c 32" using bit_imp_le_length [of c 32] by auto
  ultimately show ?thesis by (simp add: crc_bit_def bit_simps)
qed

lemma crc_bit_inj: "crc_bit c = crc_bit d \<Longrightarrow> c = d"
proof -
  assume eq: "crc_bit c = crc_bit d"
  then have b0: "bit c 0 = bit d 0" using crc_bit_top [of c] crc_bit_top [of d] by simp
  have sh: "drop_bit 1 c = drop_bit 1 d"
  proof (cases "bit c 0")
    case True
    then have "xor (drop_bit 1 c) 0xEDB88320 = xor (drop_bit 1 d) 0xEDB88320" using eq b0 by (simp add: crc_bit_def)
    then have "xor (xor (drop_bit 1 c) 0xEDB88320) 0xEDB88320 = xor (xor (drop_bit 1 d) 0xEDB88320) 0xEDB88320" by simp
    then show ?thesis by (simp only: xor.assoc xor_self_eq xor.right_neutral)
  next
    case False
    then show ?thesis using eq b0 by (simp add: crc_bit_def)
  qed
  show ?thesis
  proof (rule bit_word_eqI)
    fix n
    show "bit c n = bit d n"
    proof (cases n)
      case (Suc m)
      then show ?thesis using arg_cong [OF sh, of "\<lambda>w. bit w m"] by (simp add: bit_simps)
    qed (simp add: b0)
  qed
qed

lemma crc_byte_inj: "crc_byte b c = crc_byte b' c' \<Longrightarrow> xor c (ucast b) = xor c' (ucast b')"
proof -
  have "inj (crc_bit ^^ n)" for n by (intro inj_fn) (rule injI, rule crc_bit_inj)
  then show "crc_byte b c = crc_byte b' c' \<Longrightarrow> ?thesis" by (auto simp: crc_byte_def dest: injD)
qed

lemma xor_cancel_right: "xor c (x :: 'a::len word) = xor d x \<Longrightarrow> c = d"
  by (metis xor.assoc xor.right_neutral xor_self_eq)

lemma xor_cancel_left: "xor (x :: 'a::len word) c = xor x d \<Longrightarrow> c = d"
  using xor_cancel_right [of c x d] by (simp add: xor.commute)

lemma crc_fold_inj: "fold crc_byte p c = fold crc_byte p d \<Longrightarrow> c = d"
proof (induction p arbitrary: c d)
  case (Cons b p)
  then show ?case using crc_byte_inj [of b c b d] xor_cancel_right by auto
qed simp

lemma crc32_Write_inj: "crc32_Write p h = crc32_Write p g \<Longrightarrow> h = g"
  unfolding crc32_Write_def using crc_fold_inj [of p "not h" "not g"] by simp

lemma ucast_byte_inj: "(ucast (b :: byte) :: 32 word) = ucast b' \<Longrightarrow> b = b'"
proof (rule bit_word_eqI)
  fix n
  assume eq: "(ucast b :: 32 word) = ucast b'" and "n < LENGTH(8)"
  then have "bit (ucast b :: 32 word) n = bit (ucast b' :: 32 word) n" by (simp only: eq)
  then show "bit b n = bit b' n" using \<open>n < LENGTH(8)\<close> by (simp add: bit_simps)
qed

lemma crc32_Write_byte:
  assumes "b \<noteq> b'"
  shows "crc32_Write (xs @ b # ys) h \<noteq> crc32_Write (xs @ b' # ys) h"
proof
  assume "crc32_Write (xs @ b # ys) h = crc32_Write (xs @ b' # ys) h"
  then have "fold crc_byte ys (crc_byte b (fold crc_byte xs (not h))) = fold crc_byte ys (crc_byte b' (fold crc_byte xs (not h)))"
    by (simp add: crc32_Write_def)
  from crc_fold_inj [OF this] have "(ucast b :: 32 word) = ucast b'" using crc_byte_inj xor_cancel_left by blast
  then show False using assms ucast_byte_inj by blast
qed

text \<open>
  C23.  The scan of a log ends whatever bytes the file has: it reads at most one entry for
  every 25 bytes, and the keys and values it has read fit into the rest of the file.
\<close>

theorem readEntries_bound:
  "25 * length (readEntries bs) + (\<Sum>e \<leftarrow> readEntries bs. length (bytes_of (Key e)) + length (bytes_of (Value e))) \<le> length bs"
proof (induction bs rule: readEntries.induct)
  case (1 bs)
  show ?case
  proof (cases "readEntry bs")
    case (Inl err)
    then show ?thesis by (subst (1 2) readEntries.simps) simp
  next
    case (Inr p)
    then obtain e rest where r: "readEntry bs = Inr (e, rest)" by (cases p) auto
    then have "readEntries bs = e # readEntries rest" by (subst readEntries.simps) simp
    then show ?thesis using 1 [OF r refl] readEntry_size [OF r] by simp
  qed
qed

text \<open>
  C21. Entries read back: a stream of encoded entries, whose keys and values are shorter than
  2^32 bytes, followed by a torn one, reads back as exactly those entries, with nil keys and
  values as empty ones.
\<close>

theorem readEntries_torn_tail:
  assumes "list_all entry_ok es" "entry_ok e" "strict_prefix torn (encEntry e)"
  shows "readEntries (concat (map encEntry es) @ torn) = map entry_copy es"
  using assms by (rule wal.loop_torn)

definition ex_entry :: LogEntry where
  "ex_entry = (let e = \<lparr>Sequence = 1, Op = OpInsert, Key = Bytes [107], Value = Bytes [118, 119], Checksum = 0\<rparr>
     in e\<lparr>Checksum := calculateEntryChecksum e\<rparr>)"

lemma ex_entry_ok: "entry_ok ex_entry"
  by (simp add: ex_entry_def entry_ok_def Let_def calculateEntryChecksum_def)

theorem readEntries_torn_tail_witness:
  "list_all entry_ok [ex_entry] \<and> entry_ok ex_entry \<and> strict_prefix (take 9 (encEntry ex_entry)) (encEntry ex_entry) \<and>
   readEntries (concat (map encEntry [ex_entry]) @ take 9 (encEntry ex_entry)) = map entry_copy [ex_entry]"
proof -
  have p: "strict_prefix (take 9 (encEntry ex_entry)) (encEntry ex_entry)"
    by (rule strict_prefixI [OF take_is_prefix], rule notI, drule arg_cong [where f = length])
      (simp add: encEntry_length entryLen_def)
  show ?thesis using readEntries_torn_tail [OF _ ex_entry_ok p, of "[ex_entry]"] ex_entry_ok p by simp
qed

text \<open>
  C22. The checksum detects every change of one byte in a stored key or value: reading the
  altered entry is a checksum error.
\<close>

theorem readEntry_detects_byte:
  assumes "entry_ok e" "b \<noteq> b'" "bytes_of (Key e) @ bytes_of (Value e) = xs @ b # ys"
    "bytes_of k @ bytes_of v = xs @ b' # ys" "length (bytes_of k) < 2 ^ 32" "length (bytes_of v) < 2 ^ 32"
  shows "readEntry (encEntry (e\<lparr>Key := k, Value := v\<rparr>) @ rest) = Inl ErrChecksum"
proof (rule readEntry_bad)
  show "Checksum (e\<lparr>Key := k, Value := v\<rparr>) \<noteq> calculateEntryChecksum (e\<lparr>Key := k, Value := v\<rparr>)"
    using crc32_Write_byte [OF assms(2), of "PutUint64 (Sequence e) @ Op e # xs" ys crc32_NewIEEE] assms(1,3,4)
    by (simp add: entry_ok_def calculateEntryChecksum_def crc32_Write_append)
qed (use assms in simp_all)

theorem readEntry_detects_byte_witness:
  "readEntry (encEntry (ex_entry\<lparr>Key := Bytes [107], Value := Bytes [118, 120]\<rparr>) @ []) = Inl ErrChecksum"
  using readEntry_detects_byte [OF ex_entry_ok, of 119 120 "[107, 118]" "[]" "Bytes [107]" "Bytes [118, 120]" "[]"]
  by (simp add: ex_entry_def Let_def)

text \<open>
  C36. The checksum does not cover the lengths: moving the boundary between key and value in a
  stored entry goes undetected, and the entry reads back with another key and value.
\<close>

theorem readEntry_boundary_unchecked:
  assumes "entry_ok e" "bytes_of k @ bytes_of v = bytes_of (Key e) @ bytes_of (Value e)"
    "length (bytes_of k) < 2 ^ 32" "length (bytes_of v) < 2 ^ 32"
  shows "readEntry (encEntry (e\<lparr>Key := k, Value := v\<rparr>) @ rest) =
    Inr (e\<lparr>Key := slice_copy k, Value := slice_copy v\<rparr>, rest)"
proof -
  have "entry_ok (e\<lparr>Key := k, Value := v\<rparr>)"
    using assms by (simp add: entry_ok_def calculateEntryChecksum_def crc32_Write_append)
  from readEntry_enc [OF this] show ?thesis by (simp add: entry_copy_def)
qed

theorem readEntry_boundary_unchecked_witness:
  "readEntry (encEntry (ex_entry\<lparr>Key := Bytes [107, 118], Value := Bytes [119]\<rparr>) @ []) =
   Inr (ex_entry\<lparr>Key := Bytes [107, 118], Value := Bytes [119]\<rparr>, [])"
  using readEntry_boundary_unchecked [OF ex_entry_ok, of "Bytes [107, 118]" "Bytes [119]" "[]"]
  by (simp add: ex_entry_def Let_def slice_copy_def)

end
