(* ===== verification/Os_File.thy ===== *)
theory Os_File
  imports Byte_Codec
begin

text \<open>
  What the log uses of the operating system and of \<^verbatim>\<open>bufio.Writer\<close>.

  A file has its contents and how long a prefix of them \<^verbatim>\<open>fsync\<close> has made durable.
  Every system call takes the next entry of \<open>outcomes\<close>: it succeeds, or it fails, and a
  failing write or read still transfers the given number of bytes.  An empty list is a run
  without faults, so a statement for all \<open>outcomes\<close> covers every fault scenario.

  A handle is opened for appending (each write goes to the end) or keeps its own offset.
\<close>

section \<open>Files\<close>

datatype outcome = OsOk | OsFail nat

record osfile =
  data :: bytes
  synced :: nat

record os =
  files :: "string \<Rightarrow> osfile option"
  outcomes :: "outcome list"

record handle =
  hpath :: string
  happend :: bool
  hoffset :: nat
  hopen :: bool

definition os_call :: "os \<Rightarrow> outcome \<times> os" where
  "os_call os = (case outcomes os of [] \<Rightarrow> (OsOk, os) | r # rs \<Rightarrow> (r, os\<lparr>outcomes := rs\<rparr>))"

definition os_file :: "handle \<Rightarrow> os \<Rightarrow> osfile" where
  "os_file h os = (case files os (hpath h) of None \<Rightarrow> \<lparr>data = [], synced = 0\<rparr> | Some f \<Rightarrow> f)"

definition set_file :: "handle \<Rightarrow> osfile \<Rightarrow> os \<Rightarrow> os" where
  "set_file h f os = os\<lparr>files := (files os)(hpath h \<mapsto> f)\<rparr>"

definition overwrite :: "bytes \<Rightarrow> nat \<Rightarrow> bytes \<Rightarrow> bytes" where
  "overwrite xs pos ys = take pos (xs @ replicate (pos - length xs) 0) @ ys @ drop (pos + length ys) xs"

text \<open>\<open>write(2)\<close>: the number of bytes written and whether it failed.\<close>

definition os_write :: "handle \<Rightarrow> bytes \<Rightarrow> os \<Rightarrow> nat \<times> bool \<times> handle \<times> os" where
  "os_write h p os =
     (if \<not> hopen h then (0, True, h, os)
      else
        let (r, os1) = os_call os;
            n = (case r of OsOk \<Rightarrow> length p | OsFail k \<Rightarrow> min k (length p));
            f = os_file h os1;
            pos = (if happend h then length (data f) else hoffset h)
        in (n, r \<noteq> OsOk, h\<lparr>hoffset := pos + n\<rparr>,
            set_file h (f\<lparr>data := overwrite (data f) pos (take n p), synced := min (synced f) pos\<rparr>) os1))"

definition os_sync :: "handle \<Rightarrow> os \<Rightarrow> bool \<times> os" where
  "os_sync h os =
     (if \<not> hopen h then (False, os)
      else
        let (r, os1) = os_call os; f = os_file h os1
        in if r = OsOk then (True, set_file h (f\<lparr>synced := length (data f)\<rparr>) os1) else (False, os1))"

text \<open>\<open>open(2)\<close> with \<^verbatim>\<open>O_CREATE|O_RDWR\<close> and \<^verbatim>\<open>O_APPEND\<close> or \<^verbatim>\<open>O_TRUNC\<close>.\<close>

definition os_open :: "string \<Rightarrow> bool \<Rightarrow> bool \<Rightarrow> os \<Rightarrow> handle option \<times> os" where
  "os_open path appnd trunc os =
     (let (r, os1) = os_call os; h = \<lparr>hpath = path, happend = appnd, hoffset = 0, hopen = True\<rparr>
      in if r \<noteq> OsOk then (None, os1)
         else (Some h, if trunc then set_file h \<lparr>data = [], synced = 0\<rparr> os1 else set_file h (os_file h os1) os1))"

definition os_close :: "handle \<Rightarrow> os \<Rightarrow> bool \<times> handle \<times> os" where
  "os_close h os =
     (if \<not> hopen h then (False, h, os)
      else let (r, os1) = os_call os in (r = OsOk, h\<lparr>hopen := False\<rparr>, os1))"

definition os_stat :: "handle \<Rightarrow> os \<Rightarrow> nat option \<times> os" where
  "os_stat h os =
     (if \<not> hopen h then (None, os)
      else let (r, os1) = os_call os in (if r = OsOk then Some (length (data (os_file h os1))) else None, os1))"

definition os_seek :: "handle \<Rightarrow> nat \<Rightarrow> os \<Rightarrow> bool \<times> handle \<times> os" where
  "os_seek h pos os =
     (if \<not> hopen h then (False, h, os)
      else let (r, os1) = os_call os in if r = OsOk then (True, h\<lparr>hoffset := pos\<rparr>, os1) else (False, h, os1))"

definition os_seek_end :: "handle \<Rightarrow> os \<Rightarrow> bool \<times> handle \<times> os" where
  "os_seek_end h os = os_seek h (length (data (os_file h os))) os"

text \<open>Reading \<open>n\<close> bytes from the offset on, as many as there are.\<close>

definition os_read :: "handle \<Rightarrow> nat \<Rightarrow> os \<Rightarrow> bytes \<times> handle \<times> os" where
  "os_read h n os =
     (if \<not> hopen h then ([], h, os)
      else
        let (r, os1) = os_call os; avail = take n (drop (hoffset h) (data (os_file h os1)));
            bs = (case r of OsOk \<Rightarrow> avail | OsFail k \<Rightarrow> take k avail)
        in (bs, h\<lparr>hoffset := hoffset h + length bs\<rparr>, os1))"

definition os_rename :: "string \<Rightarrow> string \<Rightarrow> os \<Rightarrow> bool \<times> os" where
  "os_rename old new os =
     (let (r, os1) = os_call os
      in if r \<noteq> OsOk \<or> files os1 old = None then (False, os1)
         else (True, os1\<lparr>files := ((files os1)(new := files os1 old))(old := None)\<rparr>))"

definition os_mkdir :: "os \<Rightarrow> bool \<times> os" where
  "os_mkdir os = (let (r, os1) = os_call os in (r = OsOk, os1))"

section \<open>Buffered writing\<close>

record bufw =
  buf :: bytes
  bufcap :: nat
  bwerr :: bool

definition NewWriterSize :: "nat \<Rightarrow> bufw" where
  "NewWriterSize n = \<lparr>buf = [], bufcap = n, bwerr = False\<rparr>"

type_synonym bwstate = "handle \<times> bufw \<times> os"

text \<open>\<^verbatim>\<open>Flush\<close>: an error is sticky, and what was written before it leaves the buffer.\<close>

definition bw_Flush :: "bwstate \<Rightarrow> bool \<times> bwstate" where
  "bw_Flush st =
     (case st of (h, b, os) \<Rightarrow>
      if bwerr b then (False, st)
      else if buf b = [] then (True, st)
      else
        let (n, failed, h1, os1) = os_write h (buf b) os
        in if failed then (False, h1, b\<lparr>buf := drop n (buf b), bwerr := True\<rparr>, os1)
           else (True, h1, b\<lparr>buf := []\<rparr>, os1))"

lemma os_write_count: "os_write h p os = (n, failed, h1, os1) \<Longrightarrow> n \<le> length p \<and> (\<not> failed \<longrightarrow> n = length p)"
  by (auto simp: os_write_def Let_def split: prod.splits if_splits outcome.splits)

lemma bw_Flush_cases:
  "bw_Flush (h, b, os) = (ok, h1, b1, os1) \<Longrightarrow> \<not> bwerr b \<Longrightarrow>
   bufcap b1 = bufcap b \<and> (if ok then buf b1 = [] \<and> \<not> bwerr b1 else bwerr b1)"
  by (auto simp: bw_Flush_def Let_def split: prod.splits if_splits)

text \<open>\<^verbatim>\<open>Write\<close>: while the bytes exceed the room, fill and flush, or write directly.\<close>

function bw_Write :: "bytes \<Rightarrow> bwstate \<Rightarrow> bool \<times> bwstate" where
  "bw_Write p (h, b, os) =
     (if length p > bufcap b - length (buf b) \<and> \<not> bwerr b then
        if buf b = [] then
          let (n, failed, h1, os1) = os_write h p os
          in bw_Write (drop n p) (h1, b\<lparr>bwerr := failed\<rparr>, os1)
        else
          let n = bufcap b - length (buf b);
              (ok, st1) = bw_Flush (h, b\<lparr>buf := buf b @ take n p\<rparr>, os)
          in bw_Write (drop n p) st1
      else if bwerr b then (False, h, b, os)
      else (True, h, b\<lparr>buf := buf b @ p\<rparr>, os))"
  by pat_completeness auto
termination
proof (relation "measures [\<lambda>(p, h, b, os). if bwerr b then 0 else 1, \<lambda>(p, h, b, os). length p,
    \<lambda>(p, h, b, os). length (buf b)]", goal_cases)
  case (2 p h b os x n y failed z h1 os1)
  then show ?case using os_write_count [of h p os n failed h1 os1] by auto
next
  case (3 p h b os n x ok st1)
  obtain h1 b1 os1 where st1: "st1 = (h1, b1, os1)" by (cases st1)
  then show ?case using 3 bw_Flush_cases [of h "b\<lparr>buf := buf b @ take n p\<rparr>" os ok h1 b1 os1] by (auto split: if_splits)
qed simp

declare bw_Write.simps [simp del]

definition bw_WriteByte :: "byte \<Rightarrow> bwstate \<Rightarrow> bool \<times> bwstate" where
  "bw_WriteByte c st =
     (case st of (h, b, os) \<Rightarrow>
      if bwerr b then (False, st)
      else
        let (ok, h1, b1, os1) = (if bufcap b - length (buf b) \<le> 0 then bw_Flush st else (True, st))
        in if \<not> ok then (False, h1, b1, os1) else (True, h1, b1\<lparr>buf := buf b1 @ [c]\<rparr>, os1))"

section \<open>What reaches the file\<close>

abbreviation fdata :: "handle \<Rightarrow> os \<Rightarrow> bytes" where
  "fdata h os \<equiv> data (os_file h os)"

definition at_end :: "handle \<Rightarrow> os \<Rightarrow> bool" where
  "at_end h os \<longleftrightarrow> hopen h \<and> (happend h \<or> hoffset h = length (fdata h os)) \<and>
     synced (os_file h os) \<le> length (fdata h os)"

definition same_handle :: "handle \<Rightarrow> handle \<Rightarrow> bool" where
  "same_handle h h' \<longleftrightarrow> hpath h' = hpath h \<and> happend h' = happend h \<and> hopen h' = hopen h"

text \<open>
  \<open>wrote p st (ok, st')\<close>: a write of \<open>p\<close> took \<open>st\<close> to \<open>st'\<close>.  The file grew
  at its end by a prefix of the bytes that were waiting, \<open>p\<close> the last of them; if it
  succeeded, nothing is lost, and if it failed the writer stays failed.
\<close>

definition wrote :: "bytes \<Rightarrow> bwstate \<Rightarrow> bool \<times> bwstate \<Rightarrow> bool" where
  "wrote p st r \<longleftrightarrow>
     (case st of (h, b, os) \<Rightarrow> case r of (ok, h', b', os') \<Rightarrow>
        same_handle h h' \<and> at_end h' os' \<and> bufcap b' = bufcap b \<and>
        (\<forall>q. q \<noteq> hpath h \<longrightarrow> files os' q = files os q) \<and>
        synced (os_file h' os') = synced (os_file h os) \<and>
        (\<exists>x. fdata h' os' = fdata h os @ x \<and> prefix x (buf b @ p) \<and>
           (if ok then x @ buf b' = buf b @ p \<and> \<not> bwerr b' \<and> \<not> bwerr b else bwerr b' \<and> (bwerr b \<longrightarrow> x = []))))"

lemma os_file_set [simp]: "hpath h' = hpath h \<Longrightarrow> os_file h' (set_file h f os) = f"
  by (simp add: os_file_def set_file_def)

lemma os_file_outcomes [simp]: "os_file h (os\<lparr>outcomes := rs\<rparr>) = os_file h os"
  by (simp add: os_file_def)

lemma os_call_file: "os_call os = (r, os1) \<Longrightarrow> os_file h os1 = os_file h os \<and> files os1 = files os"
  by (auto simp: os_call_def split: list.splits)

lemma os_write_end:
  assumes "at_end h os" "os_write h p os = (n, failed, h', os')"
  shows "same_handle h h' \<and> at_end h' os' \<and> (\<forall>q. q \<noteq> hpath h \<longrightarrow> files os' q = files os q) \<and>
    synced (os_file h' os') = synced (os_file h os) \<and> fdata h' os' = fdata h os @ take n p"
proof -
  obtain r os1 where r: "os_call os = (r, os1)" by fastforce
  have f: "os_file h os1 = os_file h os" "files os1 = files os" using os_call_file [OF r] by auto
  show ?thesis
    using assms r f os_write_count [OF assms(2)]
    by (auto simp: os_write_def at_end_def Let_def same_handle_def overwrite_def set_file_def os_file_def min_def
        split: if_splits)
qed

lemma wroteI:
  assumes "same_handle h h'" "at_end h' os'" "bufcap b' = bufcap b" "\<And>q. q \<noteq> hpath h \<Longrightarrow> files os' q = files os q"
    "synced (os_file h' os') = synced (os_file h os)" "fdata h' os' = fdata h os @ x" "prefix x (buf b @ p)"
    "ok \<Longrightarrow> x @ buf b' = buf b @ p \<and> \<not> bwerr b' \<and> \<not> bwerr b" "\<not> ok \<Longrightarrow> bwerr b' \<and> (bwerr b \<longrightarrow> x = [])"
  shows "wrote p (h, b, os) (ok, h', b', os')"
  using assms by (auto simp: wrote_def)

lemma wroteE:
  assumes "wrote p (h, b, os) (ok, h', b', os')"
  obtains x where "same_handle h h'" "at_end h' os'" "bufcap b' = bufcap b" "\<forall>q. q \<noteq> hpath h \<longrightarrow> files os' q = files os q"
    "synced (os_file h' os') = synced (os_file h os)" "fdata h' os' = fdata h os @ x" "prefix x (buf b @ p)"
    "if ok then x @ buf b' = buf b @ p \<and> \<not> bwerr b' \<and> \<not> bwerr b else bwerr b' \<and> (bwerr b \<longrightarrow> x = [])"
  using assms by (auto simp: wrote_def)

lemma same_handle_trans: "same_handle h h1 \<Longrightarrow> same_handle h1 h2 \<Longrightarrow> same_handle h h2"
  and same_handle_refl [simp]: "same_handle h h"
  and same_handle_path: "same_handle h h1 \<Longrightarrow> hpath h1 = hpath h"
  by (auto simp: same_handle_def)

lemma prefix_append_mono: "prefix x xs \<Longrightarrow> prefix x (xs @ ys)"
  by (rule prefix_order.trans [of _ xs]) simp_all

text \<open>Writes compose: after a success the next one continues, after a failure nothing follows.\<close>

lemma wrote_trans:
  assumes "wrote p st (True, st1)" "wrote q st1 r"
  shows "wrote (p @ q) st r"
proof -
  obtain h b os h1 b1 os1 ok h2 b2 os2 where st: "st = (h, b, os)" "st1 = (h1, b1, os1)" "r = (ok, h2, b2, os2)"
    by (metis prod_cases3 prod_cases4)
  from assms(1) [unfolded st] obtain x where 1: "same_handle h h1" "bufcap b1 = bufcap b"
    "\<forall>q. q \<noteq> hpath h \<longrightarrow> files os1 q = files os q" "synced (os_file h1 os1) = synced (os_file h os)"
    "fdata h1 os1 = fdata h os @ x" "x @ buf b1 = buf b @ p" "\<not> bwerr b1" "\<not> bwerr b"
    by (auto elim!: wroteE)
  from assms(2) [unfolded st] obtain y where 2: "same_handle h1 h2" "at_end h2 os2" "bufcap b2 = bufcap b1"
    "\<forall>q. q \<noteq> hpath h1 \<longrightarrow> files os2 q = files os1 q" "synced (os_file h2 os2) = synced (os_file h1 os1)"
    "fdata h2 os2 = fdata h1 os1 @ y" "prefix y (buf b1 @ q)"
    "if ok then y @ buf b2 = buf b1 @ q \<and> \<not> bwerr b2 \<and> \<not> bwerr b1 else bwerr b2 \<and> (bwerr b1 \<longrightarrow> y = [])"
    by (auto elim!: wroteE)
  have eq: "x @ (buf b1 @ q) = buf b @ (p @ q)" using 1(6) by (simp flip: append_assoc)
  have "prefix (x @ y) (buf b @ (p @ q))" using 2(7) by (simp add: eq [symmetric])
  moreover have "(x @ y) @ buf b2 = buf b @ (p @ q)" if ok using 2(8) that eq by (simp flip: eq)
  ultimately show ?thesis
    unfolding st using 1 2 same_handle_trans [OF 1(1) 2(1)] same_handle_path [OF 1(1)]
    by (intro wroteI [where x = "x @ y"]) (auto split: if_splits)
qed

lemma wrote_failed:
  assumes "wrote p st (False, st1)"
  shows "wrote (p @ q) st (False, st1)"
proof -
  obtain h b os h1 b1 os1 where st: "st = (h, b, os)" "st1 = (h1, b1, os1)" by (metis prod_cases3)
  from assms [unfolded st] obtain x where x: "prefix x (buf b @ p)" and
    *: "same_handle h h1" "at_end h1 os1" "bufcap b1 = bufcap b" "\<forall>q. q \<noteq> hpath h \<longrightarrow> files os1 q = files os q"
    "synced (os_file h1 os1) = synced (os_file h os)" "fdata h1 os1 = fdata h os @ x" "bwerr b1 \<and> (bwerr b \<longrightarrow> x = [])"
    by (auto elim!: wroteE)
  then show ?thesis unfolding st
    using prefix_append_mono [OF x, of q] by (intro wroteI [where x = x]) auto
qed

lemma bw_Flush_wrote:
  assumes "at_end h os"
  shows "wrote [] (h, b, os) (bw_Flush (h, b, os))"
proof (cases "bwerr b \<or> buf b = []")
  case True
  then show ?thesis using assms by (auto simp: bw_Flush_def wrote_def)
next
  case False
  obtain n failed h1 os1 where w: "os_write h (buf b) os = (n, failed, h1, os1)" by (metis prod_cases4)
  show ?thesis
    using os_write_end [OF assms w] os_write_count [OF w] w False
    by (cases failed) (auto simp: bw_Flush_def wrote_def take_is_prefix)
qed

lemma wrote_buffered: "wrote [] (h, b\<lparr>buf := buf b @ q\<rparr>, os) r = wrote q (h, b, os) r"
  by (cases r) (auto simp: wrote_def)

lemma bw_Write_err: "bwerr b \<Longrightarrow> bw_Write p (h, b, os) = (False, h, b, os)"
  by (subst bw_Write.simps) simp

text \<open>One turn of the loop and the rest of it.\<close>

lemma wrote_step:
  assumes turn: "wrote (take n p) st (ok, h1, b1, os1)"
    and rest: "at_end h1 os1 \<Longrightarrow> wrote (drop n p) (h1, b1, os1) (bw_Write (drop n p) (h1, b1, os1))"
  shows "wrote p st (bw_Write (drop n p) (h1, b1, os1))"
proof -
  obtain h b os where st: "st = (h, b, os)" by (metis prod_cases3)
  show ?thesis
  proof (cases ok)
    case True
    have "at_end h1 os1" using turn unfolding st by (auto elim: wroteE)
    moreover have "wrote (take n p) st (True, h1, b1, os1)" using turn True by simp
    ultimately show ?thesis using wrote_trans rest by (metis append_take_drop_id)
  next
    case False
    then have "bwerr b1" using turn unfolding st by (auto elim: wroteE)
    moreover have "wrote (take n p @ drop n p) st (False, h1, b1, os1)"
      using turn False by (intro wrote_failed) simp
    ultimately show ?thesis by (simp add: bw_Write_err)
  qed
qed

lemma bw_Write_wrote: "at_end h os \<Longrightarrow> wrote p (h, b, os) (bw_Write p (h, b, os))"
proof (induction p "(h, b, os)" arbitrary: h b os rule: bw_Write.induct)
  case (1 p h b os)
  let ?big = "length p > bufcap b - length (buf b) \<and> \<not> bwerr b"
  show ?case
  proof (cases "?big")
    case False
    then show ?thesis using 1(3) by (subst bw_Write.simps) (auto simp: wrote_def)
  next
    case big: True
    show ?thesis
    proof (cases "buf b = []")
      case True
      obtain n failed h1 os1 where w: "os_write h p os = (n, failed, h1, os1)" by (metis prod_cases4)
      have e: "bw_Write p (h, b, os) = bw_Write (drop n p) (h1, b\<lparr>bwerr := failed\<rparr>, os1)"
        using big True w by (subst bw_Write.simps) simp
      have "wrote (take n p) (h, b, os) (\<not> failed, h1, b\<lparr>bwerr := failed\<rparr>, os1)"
        using os_write_end [OF 1(3) w] big True by (auto simp: wrote_def)
      then show ?thesis
        unfolding e by (rule wrote_step) (use 1(1) [OF big True] w in auto)
    next
      case False
      let ?n = "bufcap b - length (buf b)"
      obtain ok h1 b1 os1 where f: "bw_Flush (h, b\<lparr>buf := buf b @ take ?n p\<rparr>, os) = (ok, h1, b1, os1)"
        by (metis prod_cases4)
      have e: "bw_Write p (h, b, os) = bw_Write (drop ?n p) (h1, b1, os1)"
        using big False f by (subst bw_Write.simps) (simp add: Let_def)
      have "wrote (take ?n p) (h, b, os) (ok, h1, b1, os1)"
        using bw_Flush_wrote [OF 1(3), of "b\<lparr>buf := buf b @ take ?n p\<rparr>"] f by (simp only: wrote_buffered)
      then show ?thesis
        unfolding e by (rule wrote_step) (use 1(2) [OF big False refl] f in auto)
    qed
  qed
qed

lemma bw_WriteByte_wrote:
  assumes "at_end h os"
  shows "wrote [c] (h, b, os) (bw_WriteByte c (h, b, os))"
proof -
  obtain ok h1 b1 os1 where f: "(if bufcap b - length (buf b) \<le> 0 then bw_Flush (h, b, os) else (True, h, b, os)) = (ok, h1, b1, os1)"
    by (metis prod_cases4)
  have w: "wrote [] (h, b, os) (ok, h1, b1, os1)" if "\<not> bwerr b"
    using bw_Flush_wrote [OF assms, of b] f that assms by (auto simp: wrote_def split: if_splits)
  show ?thesis
  proof (cases "bwerr b")
    case True
    then show ?thesis using assms by (simp add: bw_WriteByte_def wrote_def)
  next
    case False
    show ?thesis
    proof (cases ok)
      case True
      have "wrote [c] (h1, b1, os1) (True, h1, b1\<lparr>buf := buf b1 @ [c]\<rparr>, os1)"
        using w [OF False] True by (auto simp: wrote_def)
      moreover have "wrote [] (h, b, os) (True, h1, b1, os1)" using w [OF False] True by simp
      ultimately have "wrote ([] @ [c]) (h, b, os) (True, h1, b1\<lparr>buf := buf b1 @ [c]\<rparr>, os1)"
        by (intro wrote_trans)
      then show ?thesis using f False True by (simp add: bw_WriteByte_def)
    next
      case no: False
      then have "wrote ([] @ [c]) (h, b, os) (False, h1, b1, os1)"
        using w [OF False] by (intro wrote_failed) simp
      then show ?thesis using no f False by (simp add: bw_WriteByte_def)
    qed
  qed
qed

lemma bw_Flush_empties: "bw_Flush (h, b, os) = (True, h1, b1, os1) \<Longrightarrow> buf b1 = []"
  by (auto simp: bw_Flush_def Let_def split: if_splits prod.splits)

end
