(* ===== verification/Wal_Log.thy ===== *)
theory Wal_Log
  imports Wal_Codec Os_File
begin

text \<open>
  The write-ahead log, \<^verbatim>\<open>src/bptree/wal.go\<close>: its state and its operations over the
  file model.  An operation takes the log and the operating system to a result and their new
  values, also when it fails half way.

  The writer wraps the log's file, so it shares the log's handle.  A read error ends the scan
  of entries like corruption does.  \<open>Replay\<close>'s callback may panic (\<open>None\<close>) or return
  an error; in the latter case the file offset stays where the buffered reader has read to,
  which the parameter \<open>ahead\<close> gives.  Log files are opened under the path itself;
  \<^verbatim>\<open>MkdirAll\<close> only succeeds or fails.  The mutex \<^verbatim>\<open>mu\<close> makes each operation
  one step.
\<close>

section \<open>State\<close>

type_synonym SyncMode = int

abbreviation SyncNone :: SyncMode where
  "SyncNone \<equiv> 0"

abbreviation SyncBatch :: SyncMode where
  "SyncBatch \<equiv> 1"

abbreviation SyncAlways :: SyncMode where
  "SyncAlways \<equiv> 2"

record WAL =
  wfile :: handle
  wsequence :: "64 word"
  wpath :: string
  syncMode :: SyncMode
  batchSize :: int
  batchCount :: int
  totalWrites :: "64 word"
  totalBytes :: "64 word"
  totalSyncs :: "64 word"
  lastCheckpoint :: "64 word"
  writer :: bufw

record WALConfig =
  cfgPath :: string
  cfgSyncMode :: SyncMode
  cfgBatchSize :: int
  cfgBufferSize :: int

record WALStats =
  wsSequence :: "64 word"
  wsTotalWrites :: "64 word"
  wsTotalBytes :: "64 word"
  wsTotalSyncs :: "64 word"
  wsLastCheckpoint :: "64 word"
  wsFileSize :: nat

definition defaultBatchSize :: int where "defaultBatchSize = 100"
definition defaultBufferSize :: int where "defaultBufferSize = 64 * 1024"

section \<open>Sequencing\<close>

type_synonym 'a walio = "WAL \<times> os \<Rightarrow> (go_error + 'a) \<times> WAL \<times> os"

definition ret :: "'a \<Rightarrow> 'a walio" where
  "ret x = (\<lambda>st. (Inr x, st))"

definition andThen :: "'a walio \<Rightarrow> ('a \<Rightarrow> 'b walio) \<Rightarrow> 'b walio" where
  "andThen m f = (\<lambda>st. case m st of (Inl e, st') \<Rightarrow> (Inl e, st') | (Inr x, st') \<Rightarrow> f x st')"

definition modify :: "(WAL \<Rightarrow> WAL) \<Rightarrow> unit walio" where
  "modify f = (\<lambda>(w, os). (Inr (), f w, os))"

text \<open>A call of the buffered writer, of \<open>fsync\<close>, \<open>close\<close> and \<open>lseek\<close> on the log's file.\<close>

definition onWriter :: "(bwstate \<Rightarrow> bool \<times> bwstate) \<Rightarrow> unit walio" where
  "onWriter f = (\<lambda>(w, os).
     case f (wfile w, writer w, os) of (ok, h, b, os') \<Rightarrow>
       (if ok then Inr () else Inl ErrIO, w\<lparr>wfile := h, writer := b\<rparr>, os'))"

definition fileSync :: "unit walio" where
  "fileSync = (\<lambda>(w, os). case os_sync (wfile w) os of (ok, os') \<Rightarrow> (if ok then Inr () else Inl ErrIO, w, os'))"

definition onFile :: "(handle \<Rightarrow> os \<Rightarrow> bool \<times> handle \<times> os) \<Rightarrow> unit walio" where
  "onFile f = (\<lambda>(w, os).
     case f (wfile w) os of (ok, h, os') \<Rightarrow> (if ok then Inr () else Inl ErrIO, w\<lparr>wfile := h\<rparr>, os'))"

section \<open>Writing\<close>

definition writeHeader :: "unit walio" where
  "writeHeader = andThen (onWriter (bw_Write walHeader)) (\<lambda>_. onWriter bw_Flush)"

definition writeEntry :: "LogEntry \<Rightarrow> unit walio" where
  "writeEntry entry =
     andThen (onWriter (bw_Write (PutUint32 (of_nat (entryLen entry))))) (\<lambda>_.
     andThen (onWriter (bw_Write (PutUint64 (Sequence entry)))) (\<lambda>_.
     andThen (onWriter (bw_WriteByte (Op entry))) (\<lambda>_.
     andThen (onWriter (bw_Write (PutUint32 (of_nat (length (bytes_of (Key entry))))))) (\<lambda>_.
     andThen (onWriter (bw_Write (bytes_of (Key entry)))) (\<lambda>_.
     andThen (onWriter (bw_Write (PutUint32 (of_nat (length (bytes_of (Value entry))))))) (\<lambda>_.
     andThen (onWriter (bw_Write (bytes_of (Value entry)))) (\<lambda>_.
     andThen (onWriter (bw_Write (PutUint32 (Checksum entry)))) (\<lambda>_.
     modify (\<lambda>w. w\<lparr>totalBytes := totalBytes w + of_nat (4 + entryLen entry)\<rparr>)))))))))"

definition sync_wal :: "unit walio" where
  "sync_wal =
     andThen (onWriter bw_Flush) (\<lambda>_.
     andThen (modify (\<lambda>w. w\<lparr>totalSyncs := totalSyncs w + 1\<rparr>)) (\<lambda>_.
     fileSync))"

definition Wal_Sync :: "unit walio" where
  "Wal_Sync = sync_wal"

definition maybeSync :: "unit walio" where
  "maybeSync = (\<lambda>(w, os).
     if syncMode w = SyncAlways then sync_wal (w, os)
     else if syncMode w = SyncBatch then
       (if batchCount w \<ge> batchSize w then sync_wal (w\<lparr>batchCount := 0\<rparr>, os)
        else onWriter bw_Flush (w, os))
     else onWriter bw_Flush (w, os))"

definition newEntry :: "64 word \<Rightarrow> OpType \<Rightarrow> slice \<Rightarrow> slice \<Rightarrow> LogEntry" where
  "newEntry seq op key val =
     (let entry = \<lparr>Sequence = seq, Op = op, Key = key, Value = val, Checksum = 0\<rparr>
      in entry\<lparr>Checksum := calculateEntryChecksum entry\<rparr>)"

definition Wal_Append :: "OpType \<Rightarrow> slice \<Rightarrow> slice \<Rightarrow> (64 word) walio" where
  "Wal_Append op key val = (\<lambda>(w, os).
     let seq = wsequence w + 1 in
     andThen (modify (\<lambda>w. w\<lparr>wsequence := seq\<rparr>)) (\<lambda>_.
     andThen (writeEntry (newEntry seq op key val)) (\<lambda>_.
     andThen (modify (\<lambda>w. w\<lparr>totalWrites := totalWrites w + 1, batchCount := batchCount w + 1\<rparr>)) (\<lambda>_.
     andThen maybeSync (\<lambda>_.
     ret seq)))) (w, os))"

definition AppendInsert :: "slice \<Rightarrow> slice \<Rightarrow> (64 word) walio" where
  "AppendInsert key val = Wal_Append OpInsert key val"

definition AppendDelete :: "slice \<Rightarrow> (64 word) walio" where
  "AppendDelete key = Wal_Append OpDelete key NilSlice"

definition AppendClear :: "(64 word) walio" where
  "AppendClear = Wal_Append OpClear NilSlice NilSlice"

section \<open>Opening\<close>

text \<open>The last sequence number of the entries that can be read.\<close>

definition lastSeq :: "LogEntry list \<Rightarrow> 64 word" where
  "lastSeq es = (if es = [] then 0 else Sequence (last es))"

definition validateAndRecover :: "unit walio" where
  "validateAndRecover =
     andThen (onFile (\<lambda>h os. os_seek h 0 os)) (\<lambda>_ (w, os).
       case os_read (wfile w) 8 os of (hdr, h1, os1) \<Rightarrow>
         (case checkHeader hdr of
            Inl e \<Rightarrow> (Inl e, w\<lparr>wfile := h1\<rparr>, os1)
          | Inr _ \<Rightarrow>
              (case os_read h1 (length (fdata h1 os1)) os1 of (bs, h2, os2) \<Rightarrow>
                 onFile os_seek_end
                   (w\<lparr>wfile := h2, wsequence := lastSeq (readEntries bs)\<rparr>, os2))))"

definition closeAfter :: "go_error \<Rightarrow> WAL \<times> os \<Rightarrow> (go_error + WAL) \<times> os" where
  "closeAfter err st = (case st of (w, os) \<Rightarrow> case os_close (wfile w) os of (_, _, os') \<Rightarrow> (Inl err, os'))"

definition NewWAL :: "WALConfig \<Rightarrow> os \<Rightarrow> (go_error + WAL) \<times> os" where
  "NewWAL config os =
     (if cfgPath config = [] then (Inl ErrPathRequired, os)
      else
        let bsize = (if cfgBatchSize config \<le> 0 then defaultBatchSize else cfgBatchSize config);
            fsize = (if cfgBufferSize config \<le> 0 then defaultBufferSize else cfgBufferSize config)
        in case os_mkdir os of (mk, os1) \<Rightarrow>
          if \<not> mk then (Inl ErrIO, os1)
          else case os_open (cfgPath config) True False os1 of
            (None, os2) \<Rightarrow> (Inl ErrIO, os2)
          | (Some file, os2) \<Rightarrow>
              let w = \<lparr>wfile = file, wsequence = 0, wpath = cfgPath config, syncMode = cfgSyncMode config,
                       batchSize = bsize, batchCount = 0, totalWrites = 0, totalBytes = 0, totalSyncs = 0,
                       lastCheckpoint = 0, writer = NewWriterSize (nat fsize)\<rparr>
              in case os_stat file os2 of
                (None, os3) \<Rightarrow> closeAfter ErrIO (w, os3)
              | (Some sz, os3) \<Rightarrow>
                  (case (if sz = 0 then writeHeader else validateAndRecover) (w, os3) of
                     (Inl e, st) \<Rightarrow> closeAfter e st
                   | (Inr _, w', os4) \<Rightarrow> (Inr w', os4)))"

section \<open>Replaying\<close>

type_synonym 'c wal_callback = "LogEntry \<Rightarrow> 'c \<Rightarrow> ((go_error + unit) \<times> 'c) option"

text \<open>The entries that were replayed, the callback's error if it returned one, and its state.\<close>

primrec replayLoop :: "'c wal_callback \<Rightarrow> LogEntry list \<Rightarrow> nat \<Rightarrow> 'c \<Rightarrow> (nat \<times> go_error option \<times> 'c) option" where
  "replayLoop callback [] count c = Some (count, None, c)"
| "replayLoop callback (entry # es) count c =
     (case callback entry c of
        None \<Rightarrow> None
      | Some (Inl err, c') \<Rightarrow> Some (count, Some err, c')
      | Some (Inr _, c') \<Rightarrow> replayLoop callback es (count + 1) c')"

definition Wal_Replay ::
  "nat \<Rightarrow> 'c wal_callback \<Rightarrow> 'c \<Rightarrow> WAL \<times> os \<Rightarrow> ((nat \<times> go_error option) \<times> 'c \<times> WAL \<times> os) option" where
  "Wal_Replay ahead callback c st =
     (case andThen (onWriter bw_Flush) (\<lambda>_. onFile (\<lambda>h os. os_seek h 8 os)) st of
        (Inl e, st1) \<Rightarrow> Some ((0, Some e), c, st1)
      | (Inr _, w, os1) \<Rightarrow>
          (case os_read (wfile w) (length (fdata (wfile w) os1)) os1 of
             (bs, h, os2) \<Rightarrow>
               (case replayLoop callback (readEntries bs) 0 c of
                  None \<Rightarrow> None
                | Some (count, Some err, c') \<Rightarrow>
                    Some ((count, Some err), c', w\<lparr>wfile := h\<lparr>hoffset := min ahead (hoffset h)\<rparr>\<rparr>, os2)
                | Some (count, None, c') \<Rightarrow>
                    (case onFile os_seek_end (w\<lparr>wfile := h\<rparr>, os2) of
                       (Inl e, st3) \<Rightarrow> Some ((count, Some e), c', st3)
                     | (Inr _, st3) \<Rightarrow> Some ((count, None), c', st3)))))"

section \<open>Checkpointing and rotation\<close>

text \<open>Replacing the log's file by a newly opened one with a fresh header.\<close>

definition reopen :: "bool \<Rightarrow> bool \<Rightarrow> unit walio" where
  "reopen appnd trunc = (\<lambda>(w, os).
     case os_open (wpath w) appnd trunc os of
       (None, os1) \<Rightarrow> (Inl ErrIO, w, os1)
     | (Some file, os1) \<Rightarrow>
         writeHeader (w\<lparr>wfile := file, writer := NewWriterSize (nat defaultBufferSize)\<rparr>, os1))"

definition Wal_Checkpoint :: "unit walio" where
  "Wal_Checkpoint =
     andThen (onWriter bw_Flush) (\<lambda>_.
     andThen fileSync (\<lambda>_.
     andThen (modify (\<lambda>w. w\<lparr>lastCheckpoint := wsequence w\<rparr>)) (\<lambda>_.
     andThen (onFile os_close) (\<lambda>_.
     reopen False True))))"

text \<open>Decimal digits, for \<^verbatim>\<open>fmt.Sprintf("%s.%d", path, sequence)\<close>.\<close>

fun decimal :: "nat \<Rightarrow> string" where
  "decimal n = (if n < 10 then [char_of (48 + n)] else decimal (n div 10) @ [char_of (48 + n mod 10)])"

definition archivePath :: "WAL \<Rightarrow> string" where
  "archivePath w = wpath w @ ''.'' @ decimal (unat (wsequence w))"

definition Wal_RotateLog :: "string walio" where
  "Wal_RotateLog =
     andThen (onWriter bw_Flush) (\<lambda>_.
     andThen fileSync (\<lambda>_.
     andThen (onFile os_close) (\<lambda>_ (w, os).
       case os_rename (wpath w) (archivePath w) os of (ok, os1) \<Rightarrow>
         if \<not> ok then (Inl ErrIO, w, os1)
         else andThen (reopen True False) (\<lambda>_. ret (archivePath w)) (w, os1))))"

section \<open>Statistics and closing\<close>

definition Wal_Stats :: "WAL \<times> os \<Rightarrow> WALStats \<times> os" where
  "Wal_Stats st =
     (case st of (w, os) \<Rightarrow> case os_stat (wfile w) os of (sz, os1) \<Rightarrow>
       (\<lparr>wsSequence = wsequence w, wsTotalWrites = totalWrites w, wsTotalBytes = totalBytes w,
         wsTotalSyncs = totalSyncs w, wsLastCheckpoint = lastCheckpoint w,
         wsFileSize = (case sz of None \<Rightarrow> 0 | Some n \<Rightarrow> n)\<rparr>, os1))"

definition Wal_Close :: "unit walio" where
  "Wal_Close =
     andThen (onWriter bw_Flush) (\<lambda>_.
     andThen fileSync (\<lambda>_.
     onFile os_close))"

definition Wal_Path :: "WAL \<Rightarrow> string" where
  "Wal_Path w = wpath w"

definition Wal_Sequence :: "WAL \<Rightarrow> 64 word" where
  "Wal_Sequence w = wsequence w"

end
