(* ===== verification/Wal_History.thy ===== *)
theory Wal_History
  imports Wal_Log
begin

text \<open>
  Writing to the log.  Under every pattern of I/O faults, after a history of \<open>Append\<close>
  calls the file has grown by a prefix of the encoded entries, in order, and an acknowledged
  entry lies whole in it; in mode \<open>SyncAlways\<close> it lies in the synced part.
\<close>

section \<open>Writing through the log\<close>

definition ready :: "WAL \<times> os \<Rightarrow> bool" where
  "ready st \<longleftrightarrow> (case st of (w, os) \<Rightarrow> at_end (wfile w) os)"

abbreviation wdata :: "WAL \<times> os \<Rightarrow> bytes" where
  "wdata st \<equiv> fdata (wfile (fst st)) (snd st)"

abbreviation wsynced :: "WAL \<times> os \<Rightarrow> nat" where
  "wsynced st \<equiv> synced (os_file (wfile (fst st)) (snd st))"

definition log_wrote :: "bytes \<Rightarrow> WAL \<times> os \<Rightarrow> (go_error + 'a) \<times> WAL \<times> os \<Rightarrow> bool" where
  "log_wrote p st res \<longleftrightarrow>
     (case st of (w, os) \<Rightarrow> case res of (r, w', os') \<Rightarrow>
        wrote p (wfile w, writer w, os) (\<not> isl r, wfile w', writer w', os') \<and>
        wpath w' = wpath w \<and> syncMode w' = syncMode w \<and> batchSize w' = batchSize w \<and> wsequence w' = wsequence w)"

lemma log_wrote_ready: "log_wrote p st (r, st') \<Longrightarrow> ready st' \<and> (\<not> isl r \<longrightarrow> \<not> bwerr (writer (fst st')))"
  by (auto simp: log_wrote_def ready_def elim!: wroteE)

lemma andThen_wrote:
  assumes "log_wrote p st (m st)" "\<And>x st1. m st = (Inr x, st1) \<Longrightarrow> ready st1 \<Longrightarrow> \<not> bwerr (writer (fst st1)) \<Longrightarrow> log_wrote q st1 (f x st1)"
  shows "log_wrote (p @ q) st (andThen m f st)"
proof -
  obtain w os where st: "st = (w, os)" by (cases st)
  obtain r w1 os1 where m: "m st = (r, w1, os1)" by (cases "m st")
  show ?thesis
  proof (cases r)
    case (Inl e)
    then have "andThen m f st = (Inl e, w1, os1)" using m by (simp add: andThen_def)
    then show ?thesis using assms(1) m Inl unfolding st log_wrote_def by (auto intro: wrote_failed)
  next
    case (Inr x)
    obtain r2 w2 os2 where f: "f x (w1, os1) = (r2, w2, os2)" by (cases "f x (w1, os1)")
    have "log_wrote q (w1, os1) (r2, w2, os2)"
      using assms(2) [of x "(w1, os1)"] m Inr f log_wrote_ready [of p st r "(w1, os1)"] assms(1) by simp
    moreover have "andThen m f st = (r2, w2, os2)" using m Inr f by (simp add: andThen_def)
    ultimately show ?thesis
      using assms(1) m Inr unfolding st log_wrote_def by (auto intro: wrote_trans)
  qed
qed

lemma onWriter_wrote:
  assumes "\<And>h b os. at_end h os \<Longrightarrow> wrote p (h, b, os) (g (h, b, os))" "ready st"
  shows "log_wrote p st (onWriter g st)"
proof -
  obtain w os where st: "st = (w, os)" by (cases st)
  obtain ok h b os1 where g: "g (wfile w, writer w, os) = (ok, h, b, os1)" by (metis prod_cases4)
  show ?thesis
    using assms(1) [of "wfile w" os "writer w"] assms(2) g unfolding st
    by (cases ok) (simp_all add: log_wrote_def onWriter_def ready_def)
qed

lemma write_wrote: "ready st \<Longrightarrow> log_wrote p st (onWriter (bw_Write p) st)"
  and writeByte_wrote: "ready st \<Longrightarrow> log_wrote [c] st (onWriter (bw_WriteByte c) st)"
  and flush_wrote: "ready st \<Longrightarrow> log_wrote [] st (onWriter bw_Flush st)"
  by (rule onWriter_wrote [OF bw_Write_wrote] onWriter_wrote [OF bw_WriteByte_wrote]
      onWriter_wrote [OF bw_Flush_wrote]; assumption)+

lemma modify_wrote:
  assumes "ready st" "\<And>w. wfile (f w) = wfile w \<and> writer (f w) = writer w \<and> wpath (f w) = wpath w \<and>
    syncMode (f w) = syncMode w \<and> batchSize (f w) = batchSize w \<and> wsequence (f w) = wsequence w"
    "\<not> bwerr (writer (fst st))"
  shows "log_wrote [] st (modify f st)"
  using assms by (cases st) (auto simp: log_wrote_def modify_def ready_def wrote_def)

lemma writeEntry_wrote:
  assumes "ready st"
  shows "log_wrote (encEntry e) st (writeEntry e st)"
proof -
  let ?k = "bytes_of (Key e)" and ?v = "bytes_of (Value e)"
  have "log_wrote (PutUint32 (of_nat (entryLen e)) @ PutUint64 (Sequence e) @ [Op e] @
      PutUint32 (of_nat (length ?k)) @ ?k @ PutUint32 (of_nat (length ?v)) @ ?v @ PutUint32 (Checksum e) @ [])
    st (writeEntry e st)"
    unfolding writeEntry_def
    by (intro andThen_wrote write_wrote writeByte_wrote modify_wrote assms) (assumption | simp)+
  then show ?thesis by (simp add: encEntry_def entryWrites_def del: put_le.simps)
qed

lemma flush_ok: "\<not> isl (fst (onWriter bw_Flush st)) \<Longrightarrow> buf (writer (fst (snd (onWriter bw_Flush st)))) = []"
  by (auto simp: onWriter_def bw_Flush_empties split: prod.splits if_splits)

lemma writeHeader_wrote:
  assumes "ready st"
  shows "log_wrote walHeader st (writeHeader st) \<and> (\<not> isl (fst (writeHeader st)) \<longrightarrow> buf (writer (fst (snd (writeHeader st)))) = [])"
proof -
  have "log_wrote (walHeader @ []) st (writeHeader st)"
    unfolding writeHeader_def by (intro andThen_wrote write_wrote flush_wrote assms)
  moreover have "buf (writer (fst (snd (writeHeader st)))) = []" if "\<not> isl (fst (writeHeader st))"
    using that by (auto simp: writeHeader_def andThen_def flush_ok split: prod.splits sum.splits)
  ultimately show ?thesis by simp
qed

section \<open>Syncing\<close>

text \<open>
  \<open>settled\<close>: the bytes that waited in the buffer have gone to the file, or the writer has
  failed and the answer is an error.
\<close>

definition same_log :: "WAL \<Rightarrow> WAL \<Rightarrow> bool" where
  "same_log w w' \<longleftrightarrow> same_handle (wfile w) (wfile w') \<and> wpath w' = wpath w \<and> syncMode w' = syncMode w \<and>
     batchSize w' = batchSize w \<and> bufcap (writer w') = bufcap (writer w)"

definition settled :: "WAL \<times> os \<Rightarrow> (go_error + 'a) \<times> WAL \<times> os \<Rightarrow> bool" where
  "settled st res \<longleftrightarrow>
     (case st of (w, os) \<Rightarrow> case res of (r, w', os') \<Rightarrow>
        same_log w w' \<and> wsequence w' = wsequence w \<and> ready (w', os') \<and>
        (\<forall>q. q \<noteq> hpath (wfile w) \<longrightarrow> files os' q = files os q) \<and> wsynced st \<le> wsynced (w', os') \<and>
        (\<exists>x. wdata (w', os') = wdata st @ x \<and> prefix x (buf (writer w)) \<and>
          (if bwerr (writer w') then isl r \<and> (bwerr (writer w) \<longrightarrow> x = [])
           else buf (writer w') = [] \<and> x = buf (writer w) \<and> \<not> bwerr (writer w))))"

lemma flush_settled:
  assumes "ready st"
  shows "settled st (onWriter bw_Flush st)"
proof -
  obtain w os where st: "st = (w, os)" by (cases st)
  obtain r w' os' where f: "onWriter bw_Flush st = (r, w', os')" by (cases "onWriter bw_Flush st")
  have "log_wrote [] (w, os) (r, w', os')" using flush_wrote [OF assms] f st by simp
  then obtain x where
    "same_handle (wfile w) (wfile w')" "at_end (wfile w') os'" "bufcap (writer w') = bufcap (writer w)"
    "\<forall>q. q \<noteq> hpath (wfile w) \<longrightarrow> files os' q = files os q" "wsynced (w', os') = wsynced (w, os)"
    "wdata (w', os') = wdata (w, os) @ x" "prefix x (buf (writer w))"
    "if \<not> isl r then x @ buf (writer w') = buf (writer w) \<and> \<not> bwerr (writer w') \<and> \<not> bwerr (writer w)
     else bwerr (writer w') \<and> (bwerr (writer w) \<longrightarrow> x = [])"
    "wpath w' = wpath w" "syncMode w' = syncMode w" "batchSize w' = batchSize w" "wsequence w' = wsequence w"
    unfolding log_wrote_def by (auto elim!: wroteE)
  moreover have "buf (writer w') = []" if "\<not> isl r" using flush_ok [of st] f that by simp
  ultimately have "settled (w, os) (r, w', os')"
    by (cases "isl r") (auto simp: settled_def same_log_def ready_def)
  then show ?thesis using f st by simp
qed

lemma settled_stats [simp]:
  "settled (w\<lparr>batchCount := a\<rparr>, os) res = settled (w, os) res"
  "settled (w\<lparr>totalWrites := c\<rparr>, os) res = settled (w, os) res"
  by (simp_all add: settled_def same_log_def split: prod.splits)

lemma fileSync_spec:
  assumes "ready (w, os)" "fileSync (w, os) = (r, w', os')"
  shows "w' = w \<and> ready (w, os') \<and> fdata (wfile w) os' = fdata (wfile w) os \<and>
    (\<forall>q. q \<noteq> hpath (wfile w) \<longrightarrow> files os' q = files os q) \<and> wsynced (w, os) \<le> wsynced (w, os') \<and>
    (\<not> isl r \<longrightarrow> wsynced (w, os') = length (fdata (wfile w) os'))"
proof -
  obtain a os1 where c: "os_call os = (a, os1)" by fastforce
  show ?thesis
    using assms os_call_file [OF c, of "wfile w"] c
    by (auto simp: fileSync_def os_sync_def ready_def at_end_def Let_def set_file_def os_file_def
        split: if_splits)
qed

lemma settled_sync:
  assumes "settled st (Inr x, w1, os1)" "fileSync (w1, os1) = (r, w2, os2)" "\<not> bwerr (writer w1)"
  shows "settled st (r, w2, os2) \<and> (\<not> isl r \<longrightarrow> wsynced (w2, os2) = length (wdata (w2, os2)))"
proof -
  obtain w os where st: "st = (w, os)" by (cases st)
  have "ready (w1, os1)" using assms(1) by (auto simp: settled_def split: prod.splits)
  from fileSync_spec [OF this assms(2)] show ?thesis
    using assms(1,3) unfolding st by (auto simp: settled_def same_log_def same_handle_def)
qed

lemma sync_wal_settled:
  assumes "ready st"
  shows "settled st (sync_wal st) \<and>
    (\<not> isl (fst (sync_wal st)) \<longrightarrow> wsynced (snd (sync_wal st)) = length (wdata (snd (sync_wal st))))"
proof -
  obtain r w1 os1 where f: "onWriter bw_Flush st = (r, w1, os1)" by (cases "onWriter bw_Flush st")
  have s: "settled st (r, w1, os1)" using flush_settled [OF assms] f by simp
  show ?thesis
  proof (cases r)
    case (Inl e)
    then show ?thesis using s f by (simp add: sync_wal_def andThen_def)
  next
    case (Inr x)
    let ?w = "w1\<lparr>totalSyncs := totalSyncs w1 + 1\<rparr>"
    have s1: "settled st (Inr x, ?w, os1)" "\<not> bwerr (writer ?w)"
      using s Inr by (auto simp: settled_def same_log_def ready_def split: prod.splits if_splits)
    obtain r2 w2 os2 where g: "fileSync (?w, os1) = (r2, w2, os2)" by (cases "fileSync (?w, os1)")
    have "sync_wal st = (r2, w2, os2)"
      using f Inr g by (simp add: sync_wal_def andThen_def modify_def)
    then show ?thesis using settled_sync [OF s1(1) g s1(2)] by simp
  qed
qed

lemma maybeSync_settled:
  assumes "ready st"
  shows "settled st (maybeSync st) \<and>
    (\<not> isl (fst (maybeSync st)) \<and> syncMode (fst st) = SyncAlways \<longrightarrow>
       wsynced (snd (maybeSync st)) = length (wdata (snd (maybeSync st))))"
proof -
  obtain w os where st: "st = (w, os)" by (cases st)
  have r: "ready (w\<lparr>batchCount := 0\<rparr>, os)" using assms st by (simp add: ready_def)
  show ?thesis
    using flush_settled [OF assms] sync_wal_settled [OF assms] sync_wal_settled [OF r]
    unfolding st by (auto simp: maybeSync_def split: if_splits)
qed

section \<open>Append\<close>

lemma Wal_Append_spec:
  assumes rd: "ready (w, os)" and A: "Wal_Append op k v (w, os) = (r, w', os')" and e: "e = newEntry (wsequence w + 1) op k v"
  shows "same_log w w' \<and> wsequence w' = wsequence w + 1 \<and> ready (w', os') \<and>
    (\<forall>q. q \<noteq> hpath (wfile w) \<longrightarrow> files os' q = files os q) \<and> wsynced (w, os) \<le> wsynced (w', os') \<and>
    (\<not> isl r \<longrightarrow> r = Inr (wsequence w + 1) \<and> \<not> bwerr (writer w')) \<and>
    (\<not> isl r \<and> syncMode w = SyncAlways \<longrightarrow> wsynced (w', os') = length (wdata (w', os'))) \<and>
    (\<exists>x. wdata (w', os') = wdata (w, os) @ x \<and> prefix x (buf (writer w) @ encEntry e) \<and>
      (if bwerr (writer w') then bwerr (writer w) \<longrightarrow> x = []
       else buf (writer w') = [] \<and> x = buf (writer w) @ encEntry e \<and> \<not> bwerr (writer w)))"
proof -
  let ?w = "w\<lparr>wsequence := wsequence w + 1\<rparr>"
  have rd': "ready (?w, os)" using rd by (simp add: ready_def)
  obtain r1 w1 os1 where E: "writeEntry e (?w, os) = (r1, w1, os1)" by (cases "writeEntry e (?w, os)")
  have "log_wrote (encEntry e) (?w, os) (r1, w1, os1)" using writeEntry_wrote [OF rd', of e] E by simp
  then obtain x where x: "same_handle (wfile w) (wfile w1)" "at_end (wfile w1) os1" "bufcap (writer w1) = bufcap (writer w)"
    "\<forall>q. q \<noteq> hpath (wfile w) \<longrightarrow> files os1 q = files os q" "wsynced (w1, os1) = wsynced (w, os)"
    "wdata (w1, os1) = wdata (w, os) @ x" "prefix x (buf (writer w) @ encEntry e)"
    "if \<not> isl r1 then x @ buf (writer w1) = buf (writer w) @ encEntry e \<and> \<not> bwerr (writer w1) \<and> \<not> bwerr (writer w)
     else bwerr (writer w1) \<and> (bwerr (writer w) \<longrightarrow> x = [])"
    "wpath w1 = wpath w" "syncMode w1 = syncMode w" "batchSize w1 = batchSize w" "wsequence w1 = wsequence w + 1"
    unfolding log_wrote_def by (auto elim!: wroteE)
  show ?thesis
  proof (cases r1)
    case (Inl err)
    then have "r = Inl err" "w' = w1" "os' = os1"
      using A E e by (auto simp: Wal_Append_def Let_def andThen_def modify_def)
    then show ?thesis using x Inl by (auto simp: same_log_def ready_def)
  next
    case (Inr u)
    let ?w1 = "w1\<lparr>totalWrites := totalWrites w1 + 1, batchCount := batchCount w1 + 1\<rparr>"
    obtain r2 w2 os2 where M: "maybeSync (?w1, os1) = (r2, w2, os2)" by (cases "maybeSync (?w1, os1)")
    have rd1: "ready (?w1, os1)" using x(2) by (simp add: ready_def)
    have ms: "settled (w1, os1) (r2, w2, os2)"
      "\<not> isl r2 \<and> syncMode w1 = SyncAlways \<longrightarrow> wsynced (w2, os2) = length (wdata (w2, os2))"
      using maybeSync_settled [OF rd1] M by simp_all
    from ms(1) obtain y where y: "same_log w1 w2" "wsequence w2 = wsequence w1" "ready (w2, os2)"
      "\<forall>q. q \<noteq> hpath (wfile w1) \<longrightarrow> files os2 q = files os1 q" "wsynced (w1, os1) \<le> wsynced (w2, os2)"
      "wdata (w2, os2) = wdata (w1, os1) @ y" "prefix y (buf (writer w1))"
      "if bwerr (writer w2) then isl r2 \<and> (bwerr (writer w1) \<longrightarrow> y = [])
       else buf (writer w2) = [] \<and> y = buf (writer w1) \<and> \<not> bwerr (writer w1)"
      unfolding settled_def prod.case fst_conv snd_conv by blast
    have r: "w' = w2" "os' = os2" "r = (case r2 of Inl err \<Rightarrow> Inl err | Inr _ \<Rightarrow> Inr (wsequence w + 1))"
      using A E e Inr M by (auto simp: Wal_Append_def Let_def andThen_def modify_def ret_def split: sum.splits)
    have xy: "x @ buf (writer w1) = buf (writer w) @ encEntry e" "\<not> bwerr (writer w1)" "\<not> bwerr (writer w)"
      using x(8) Inr by auto
    have "prefix (x @ y) (buf (writer w) @ encEntry e)" using y(7) by (simp add: xy(1) [symmetric])
    moreover have "wdata (w2, os2) = wdata (w, os) @ (x @ y)" using y(6) x(6) by simp
    moreover have "same_log w w2" using x y(1) by (auto simp: same_log_def same_handle_def)
    moreover have "hpath (wfile w1) = hpath (wfile w)" using x(1) by (rule same_handle_path)
    moreover have "if bwerr (writer w2) then bwerr (writer w) \<longrightarrow> x @ y = []
       else buf (writer w2) = [] \<and> x @ y = buf (writer w) @ encEntry e \<and> \<not> bwerr (writer w)"
      using y(8) xy by auto
    ultimately show ?thesis
      using x y r ms(2) by (auto split: sum.splits)
  qed
qed

section \<open>Histories of appends\<close>

type_synonym wal_op = "OpType \<times> slice \<times> slice"

primrec appendAll :: "wal_op list \<Rightarrow> WAL \<times> os \<Rightarrow> (go_error + 64 word) list \<times> WAL \<times> os" where
  "appendAll [] st = ([], st)"
| "appendAll (x # xs) st =
     (case x of (op, k, v) \<Rightarrow> case Wal_Append op k v st of (r, st1) \<Rightarrow>
      case appendAll xs st1 of (rs, st2) \<Rightarrow> (r # rs, st2))"

text \<open>The entries that a history attempts, numbered from \<open>seq + 1\<close>.\<close>

primrec entriesFrom :: "64 word \<Rightarrow> wal_op list \<Rightarrow> LogEntry list" where
  "entriesFrom seq [] = []"
| "entriesFrom seq (x # xs) = (case x of (op, k, v) \<Rightarrow> newEntry (seq + 1) op k v) # entriesFrom (seq + 1) xs"

lemma length_entriesFrom [simp]: "length (entriesFrom seq ops) = length ops"
  by (induction ops arbitrary: seq) auto

definition small_ops :: "wal_op list \<Rightarrow> bool" where
  "small_ops ops \<longleftrightarrow> (\<forall>(op, k, v) \<in> set ops. length (bytes_of k) < 2 ^ 32 \<and> length (bytes_of v) < 2 ^ 32)"

lemma newEntry_ok: "length (bytes_of k) < 2 ^ 32 \<Longrightarrow> length (bytes_of v) < 2 ^ 32 \<Longrightarrow> entry_ok (newEntry seq op k v)"
  by (simp add: newEntry_def entry_ok_def calculateEntryChecksum_def Let_def)

lemma entriesFrom_ok: "small_ops ops \<Longrightarrow> list_all entry_ok (entriesFrom seq ops)"
  by (induction ops arbitrary: seq) (auto simp: small_ops_def newEntry_ok)

abbreviation encAll :: "LogEntry list \<Rightarrow> bytes" where
  "encAll es \<equiv> concat (map encEntry es)"

text \<open>
  The log after a history \<open>es\<close> on a file that held \<open>b\<close>: while the writer is sound,
  the file is \<open>b\<close> and all of \<open>es\<close>; once it has failed, a prefix of that.
\<close>

definition wal_state :: "bytes \<Rightarrow> LogEntry list \<Rightarrow> WAL \<times> os \<Rightarrow> bool" where
  "wal_state b es st \<longleftrightarrow> ready st \<and> hpath (wfile (fst st)) = wpath (fst st) \<and> prefix b (wdata st) \<and>
     (if bwerr (writer (fst st)) then prefix (wdata st) (b @ encAll es)
      else buf (writer (fst st)) = [] \<and> wdata st = b @ encAll es)"

lemma Wal_Append_state:
  assumes st: "wal_state b es (w, os)" and A: "Wal_Append op k v (w, os) = (r, w', os')"
    and e: "e = newEntry (wsequence w + 1) op k v"
  shows "wal_state b (es @ [e]) (w', os') \<and> wsequence w' = wsequence w + 1 \<and> same_log w w' \<and>
    prefix (wdata (w, os)) (wdata (w', os')) \<and> wsynced (w, os) \<le> wsynced (w', os') \<and>
    (\<not> isl r \<longrightarrow> r = Inr (wsequence w + 1) \<and> wdata (w', os') = b @ encAll (es @ [e])) \<and>
    (\<not> isl r \<and> syncMode w = SyncAlways \<longrightarrow> wsynced (w', os') = length (wdata (w', os')))"
proof -
  have rd: "ready (w, os)" using st by (simp add: wal_state_def)
  note S = Wal_Append_spec [OF rd A e]
  then obtain x where x: "wdata (w', os') = wdata (w, os) @ x" "prefix x (buf (writer w) @ encEntry e)"
    "if bwerr (writer w') then bwerr (writer w) \<longrightarrow> x = []
     else buf (writer w') = [] \<and> x = buf (writer w) @ encEntry e \<and> \<not> bwerr (writer w)" by blast
  have hd: "prefix b (wdata (w', os'))"
    using st x(1) by (auto simp: wal_state_def)
  have "if bwerr (writer w') then prefix (wdata (w', os')) (b @ encAll (es @ [e]))
      else buf (writer w') = [] \<and> wdata (w', os') = b @ encAll (es @ [e])"
  proof (cases "bwerr (writer w)")
    case True
    then have "wdata (w', os') = wdata (w, os)" "bwerr (writer w')" using x by (auto split: if_splits)
    moreover have "prefix (wdata (w, os)) (b @ encAll es)" using st True by (simp add: wal_state_def)
    ultimately show ?thesis using prefix_append_mono [of "wdata (w, os)" "b @ encAll es" "encEntry e"] by simp
  next
    case False
    then have "buf (writer w) = []" "wdata (w, os) = b @ encAll es" using st by (simp_all add: wal_state_def)
    then show ?thesis using x by (auto split: if_splits)
  qed
  moreover have "hpath (wfile w') = wpath w'" using st S by (simp add: wal_state_def same_log_def same_handle_def)
  ultimately show ?thesis using S hd x(1) by (auto simp: wal_state_def split: if_splits)
qed

text \<open>
  The invariant along a history: \<open>acked\<close> says that the entry at index \<open>i\<close> of the history
  lies whole in the first \<open>n\<close> bytes of the file.
\<close>

definition acked :: "bytes \<Rightarrow> LogEntry list \<Rightarrow> nat \<Rightarrow> nat \<Rightarrow> bool" where
  "acked b es n i \<longleftrightarrow> length b + length (encAll (take (Suc i) es)) \<le> n"

lemma appendAll_state:
  assumes "wal_state b es (w, os)" "appendAll ops (w, os) = (rs, w', os')"
  shows "wal_state b (es @ entriesFrom (wsequence w) ops) (w', os') \<and> length rs = length ops \<and> same_log w w' \<and>
    prefix (wdata (w, os)) (wdata (w', os')) \<and> wsynced (w, os) \<le> wsynced (w', os') \<and>
    wsequence w' = wsequence w + of_nat (length ops) \<and>
    (\<forall>i < length ops. \<not> isl (rs ! i) \<longrightarrow>
       acked b (es @ entriesFrom (wsequence w) ops) (length (wdata (w', os'))) (length es + i) \<and>
       (syncMode w = SyncAlways \<longrightarrow> acked b (es @ entriesFrom (wsequence w) ops) (wsynced (w', os')) (length es + i)))"
  using assms
proof (induction ops arbitrary: es w os rs)
  case Nil
  then show ?case by (simp add: same_log_def)
next
  case (Cons x ops)
  obtain op k v where x: "x = (op, k, v)" by (cases x)
  let ?e = "newEntry (wsequence w + 1) op k v"
  obtain r w1 os1 where A: "Wal_Append op k v (w, os) = (r, w1, os1)" by (cases "Wal_Append op k v (w, os)")
  obtain rs1 where R: "appendAll ops (w1, os1) = (rs1, w', os')" "rs = r # rs1"
    using Cons.prems(2) A x by (auto split: prod.splits)
  note S = Wal_Append_state [OF Cons.prems(1) A refl]
  note IH = Cons.IH [OF S [THEN conjunct1] R(1)]
  let ?es = "es @ entriesFrom (wsequence w) (x # ops)"
  have es: "(es @ [?e]) @ entriesFrom (wsequence w1) ops = ?es" using S x by simp
  have first: "acked b ?es n (length es) \<longleftrightarrow> length (b @ encAll (es @ [?e])) \<le> n" for n
    using x by (simp add: acked_def)
  have len: "length (wdata (w1, os1)) \<le> length (wdata (w', os'))" using IH by (intro prefix_length_le) simp
  have all: "acked b ?es (length (wdata (w', os'))) (length es + i) \<and>
      (syncMode w = SyncAlways \<longrightarrow> acked b ?es (wsynced (w', os')) (length es + i))"
    if i: "i < length (x # ops)" "\<not> isl (rs ! i)" for i
  proof (cases i)
    case 0
    then have r: "\<not> isl r" using i(2) R(2) by simp
    have "acked b ?es (length (wdata (w1, os1))) (length es)" using S r first by simp
    then show ?thesis
      using 0 S IH r len first by (auto simp: acked_def)
  next
    case (Suc j)
    then have "\<not> isl (rs1 ! j)" "j < length ops" using i R(2) by auto
    then show ?thesis using IH Suc S unfolding es by (auto simp: same_log_def)
  qed
  have "wal_state b ?es (w', os') \<and> prefix (wdata (w, os)) (wdata (w', os'))"
    using IH S unfolding es by (auto intro: prefix_order.trans)
  moreover have "same_log w w'" using IH S by (auto simp: same_log_def same_handle_def)
  ultimately show ?case using IH S R(2) all by (auto simp: algebra_simps)
qed

end
