(* ===== verification/Wal_Recovery.thy ===== *)
theory Wal_Recovery
  imports Wal_History
begin

text \<open>
  Opening, replaying, checkpointing and rotating the log, and what it guarantees: acknowledged
  entries are read back in order, and how torn tails, checkpoints and rotations behave.
\<close>

section \<open>Runs without faults\<close>

lemma os_call_calm [simp]: "outcomes os = [] \<Longrightarrow> os_call os = (OsOk, os)"
  by (simp add: os_call_def)

lemma outcomes_set_file [simp]: "outcomes (set_file h f os) = outcomes os"
  by (simp add: set_file_def)

definition calm :: "WAL \<times> os \<Rightarrow> bool" where
  "calm st \<longleftrightarrow> outcomes (snd st) = [] \<and> hopen (wfile (fst st)) \<and> \<not> bwerr (writer (fst st))"

definition calm_op :: "'a walio \<Rightarrow> bool" where
  "calm_op m \<longleftrightarrow> (\<forall>st. calm st \<longrightarrow> (\<exists>x st'. m st = (Inr x, st') \<and> calm st'))"

lemma os_write_calm:
  "outcomes os = [] \<Longrightarrow> hopen h \<Longrightarrow> os_write h p os = (n, failed, h', os') \<Longrightarrow>
   \<not> failed \<and> outcomes os' = [] \<and> hopen h'"
  by (auto simp: os_write_def Let_def)

lemma bw_Flush_calm:
  assumes "outcomes os = []" "hopen h" "\<not> bwerr b" "bw_Flush (h, b, os) = (ok, h', b', os')"
  shows "ok \<and> outcomes os' = [] \<and> hopen h' \<and> \<not> bwerr b'"
proof -
  obtain n failed h1 os1 where w: "os_write h (buf b) os = (n, failed, h1, os1)" by (metis prod_cases4)
  show ?thesis using assms os_write_calm [OF assms(1,2) w] w by (auto simp: bw_Flush_def split: if_splits)
qed

lemma bw_Write_calm:
  "outcomes os = [] \<Longrightarrow> hopen h \<Longrightarrow> \<not> bwerr b \<Longrightarrow> bw_Write p (h, b, os) = (ok, h', b', os') \<Longrightarrow>
   ok \<and> outcomes os' = [] \<and> hopen h' \<and> \<not> bwerr b'"
proof (induction p "(h, b, os)" arbitrary: h b os rule: bw_Write.induct)
  case (1 p h b os)
  show ?case
  proof (cases "length p > bufcap b - length (buf b)")
    case False
    then have "bw_Write p (h, b, os) = (True, h, b\<lparr>buf := buf b @ p\<rparr>, os)"
      using 1(5) by (subst bw_Write.simps) simp
    then show ?thesis using 1(3-6) by auto
  next
    case big: True
    show ?thesis
    proof (cases "buf b = []")
      case True
      obtain n failed h1 os1 where w: "os_write h p os = (n, failed, h1, os1)" by (metis prod_cases4)
      note c = os_write_calm [OF 1(3,4) w]
      have "bw_Write p (h, b, os) = bw_Write (drop n p) (h1, b\<lparr>bwerr := failed\<rparr>, os1)"
        using 1(5) big True w by (subst bw_Write.simps) simp
      then have "bw_Write (drop n p) (h1, b\<lparr>bwerr := failed\<rparr>, os1) = (ok, h', b', os')" using 1(6) by simp
      then show ?thesis using 1(1) [OF _ True w [symmetric] refl refl refl] c big 1(5) by simp
    next
      case False
      let ?n = "bufcap b - length (buf b)"
      obtain r h1 b1 os1 where f: "bw_Flush (h, b\<lparr>buf := buf b @ take ?n p\<rparr>, os) = (r, h1, b1, os1)"
        by (metis prod_cases4)
      note c = bw_Flush_calm [OF 1(3,4) _ f]
      have "bw_Write p (h, b, os) = bw_Write (drop ?n p) (h1, b1, os1)"
        using 1(5) big False f by (subst bw_Write.simps) (simp add: Let_def)
      then have "bw_Write (drop ?n p) (h1, b1, os1) = (ok, h', b', os')" using 1(6) by simp
      then show ?thesis using 1(2) [OF _ False refl f [symmetric]] c big 1(5) by simp
    qed
  qed
qed

lemma bw_WriteByte_calm:
  assumes "outcomes os = []" "hopen h" "\<not> bwerr b" "bw_WriteByte c (h, b, os) = (ok, h', b', os')"
  shows "ok \<and> outcomes os' = [] \<and> hopen h' \<and> \<not> bwerr b'"
proof -
  obtain r h1 b1 os1 where f: "bw_Flush (h, b, os) = (r, h1, b1, os1)" by (metis prod_cases4)
  show ?thesis using assms bw_Flush_calm [OF assms(1-3) f] f by (auto simp: bw_WriteByte_def split: if_splits)
qed

lemma calm_opI: "(\<And>w os. calm (w, os) \<Longrightarrow> \<exists>x w' os'. m (w, os) = (Inr x, w', os') \<and> calm (w', os')) \<Longrightarrow> calm_op m"
  by (auto simp: calm_op_def)

lemma calm_opD: "calm_op m \<Longrightarrow> calm st \<Longrightarrow> \<exists>x st'. m st = (Inr x, st') \<and> calm st'"
  unfolding calm_op_def by blast

lemma calm_onWriter:
  assumes "\<And>h b os ok h' b' os'. outcomes os = [] \<Longrightarrow> hopen h \<Longrightarrow> \<not> bwerr b \<Longrightarrow> g (h, b, os) = (ok, h', b', os') \<Longrightarrow>
    ok \<and> outcomes os' = [] \<and> hopen h' \<and> \<not> bwerr b'"
  shows "calm_op (onWriter g)"
proof (rule calm_opI)
  fix w os assume c: "calm (w, os)"
  obtain ok h' b' os' where g: "g (wfile w, writer w, os) = (ok, h', b', os')" by (metis prod_cases4)
  then show "\<exists>x w' os'. onWriter g (w, os) = (Inr x, w', os') \<and> calm (w', os')"
    using assms [of os "wfile w" "writer w"] c by (simp add: onWriter_def calm_def)
qed

lemma calm_andThen: "calm_op m \<Longrightarrow> (\<And>x. calm_op (f x)) \<Longrightarrow> calm_op (andThen m f)"
proof (rule calm_opI)
  fix w os assume a: "calm_op m" "\<And>x. calm_op (f x)" "calm (w, os)"
  obtain x st1 where "m (w, os) = (Inr x, st1)" "calm st1" using calm_opD [OF a(1,3)] by blast
  moreover then obtain y w2 os2 where "f x st1 = (Inr y, w2, os2)" "calm (w2, os2)"
    using calm_opD [OF a(2)] by (metis surj_pair)
  ultimately show "\<exists>x w' os'. andThen m f (w, os) = (Inr x, w', os') \<and> calm (w', os')"
    by (simp add: andThen_def)
qed

lemma calm_modify: "(\<And>w. wfile (f w) = wfile w \<and> writer (f w) = writer w) \<Longrightarrow> calm_op (modify f)"
  by (auto simp: calm_op_def calm_def modify_def)

lemma calm_ret: "calm_op (ret x)"
  by (simp add: calm_op_def ret_def)

lemma calm_fileSync: "calm_op fileSync"
  by (auto simp: calm_op_def calm_def fileSync_def os_sync_def Let_def)

lemmas calm_writer = calm_onWriter [of "bw_Write p" for p, OF bw_Write_calm]
  calm_onWriter [of "bw_WriteByte c" for c, OF bw_WriteByte_calm] calm_onWriter [of bw_Flush, OF bw_Flush_calm]

lemmas calm_rules = calm_andThen calm_ret calm_fileSync calm_writer

lemma calm_writeHeader: "calm_op writeHeader"
  unfolding writeHeader_def by (intro calm_rules) assumption+

lemma calm_sync_wal: "calm_op sync_wal"
  unfolding sync_wal_def by (intro calm_rules calm_modify) (assumption | simp)+

lemma calm_writeEntry: "calm_op (writeEntry e)"
  unfolding writeEntry_def by (intro calm_rules calm_modify) (assumption | simp)+

lemma calm_flush: "calm_op (onWriter bw_Flush)"
  by (intro calm_rules) assumption+

lemma calm_maybeSync: "calm_op maybeSync"
proof (rule calm_opI)
  fix w os assume c: "calm (w, os)"
  then have "calm (w\<lparr>batchCount := 0\<rparr>, os)" by (simp add: calm_def)
  from calm_opD [OF calm_sync_wal this] calm_opD [OF calm_sync_wal c] calm_opD [OF calm_flush c]
  show "\<exists>x w' os'. maybeSync (w, os) = (Inr x, w', os') \<and> calm (w', os')"
    by (auto simp: maybeSync_def split: if_splits)
qed

lemma calm_Wal_Append: "calm_op (Wal_Append op k v)"
proof (rule calm_opI)
  fix w os assume c: "calm (w, os)"
  have "calm_op (andThen (modify (\<lambda>w. w\<lparr>wsequence := seq\<rparr>)) (\<lambda>_.
     andThen (writeEntry (newEntry seq op k v)) (\<lambda>_.
     andThen (modify (\<lambda>w. w\<lparr>totalWrites := totalWrites w + 1, batchCount := batchCount w + 1\<rparr>)) (\<lambda>_.
     andThen maybeSync (\<lambda>_. ret seq)))))" for seq
    by (intro calm_rules calm_modify calm_writeEntry calm_maybeSync) simp_all
  from calm_opD [OF this [of "wsequence w + 1"] c]
  show "\<exists>x w' os'. Wal_Append op k v (w, os) = (Inr x, w', os') \<and> calm (w', os')"
    by (simp add: Wal_Append_def Let_def)
qed

lemma appendAll_calm:
  "calm st \<Longrightarrow> appendAll ops st = (rs, st') \<Longrightarrow> calm st' \<and> (\<forall>r \<in> set rs. \<not> isl r)"
proof (induction ops arbitrary: st rs)
  case (Cons x ops)
  obtain op k v where x: "x = (op, k, v)" by (cases x)
  obtain y st1 where A: "Wal_Append op k v st = (Inr y, st1)" "calm st1"
    using calm_opD [OF calm_Wal_Append Cons.prems(1)] by blast
  then obtain rs1 where "appendAll ops st1 = (rs1, st')" "rs = Inr y # rs1"
    using Cons.prems(2) x by (auto split: prod.splits)
  then show ?case using Cons.IH [OF A(2)] by auto
qed simp

section \<open>Opening\<close>

lemma lastSeq_copy [simp]: "lastSeq (map entry_copy es) = lastSeq es"
  by (simp add: lastSeq_def last_map entry_copy_def)

lemma checkHeader_walHeader [simp]: "checkHeader (walHeader @ bs) = Inr bs" "checkHeader walHeader = Inr []"
  by (simp_all add: checkHeader_def walHeader_def ReadFull_def del: put_le.simps)

lemma length_walHeader [simp]: "length walHeader = 8"
  by (simp add: walHeader_def)

lemma os_open_new:
  assumes "os_open p True False os = (Some h, os')" "files os p = None"
  shows "h = \<lparr>hpath = p, happend = True, hoffset = 0, hopen = True\<rparr> \<and> os_file h os' = \<lparr>data = [], synced = 0\<rparr>"
proof -
  obtain r os1 where c: "os_call os = (r, os1)" by fastforce
  show ?thesis using assms c os_call_file [OF c]
    by (auto simp: os_open_def Let_def os_file_def set_file_def split: if_splits)
qed

lemma os_stat_spec:
  assumes "os_stat h os = (sz, os')" "hopen h"
  shows "os_file h os' = os_file h os \<and> (sz = None \<or> sz = Some (length (fdata h os)))"
proof -
  obtain r os1 where c: "os_call os = (r, os1)" by fastforce
  show ?thesis using assms c os_call_file [OF c] by (auto simp: os_stat_def split: if_splits)
qed

text \<open>A new file, under any faults: if the log opens, it is empty.\<close>

lemma NewWAL_fresh:
  assumes N: "NewWAL config os = (Inr w, os')" and fresh: "files os (cfgPath config) = None"
  shows "wal_state walHeader [] (w, os') \<and> wsequence w = 0 \<and> \<not> bwerr (writer w) \<and> wpath w = cfgPath config \<and>
    syncMode w = cfgSyncMode config \<and>
    bufcap (writer w) = nat (if cfgBufferSize config \<le> 0 then defaultBufferSize else cfgBufferSize config)"
proof -
  let ?p = "cfgPath config"
  have p: "?p \<noteq> []" using N by (auto simp: NewWAL_def)
  obtain mk os1 where 1: "os_mkdir os = (mk, os1)" by fastforce
  have mk: mk using N p 1 by (cases mk) (simp_all add: NewWAL_def Let_def)
  obtain fo os2 where 2: "os_open ?p True False os1 = (fo, os2)" by fastforce
  obtain h where h: "fo = Some h" using N p 1 mk 2 by (cases fo) (simp_all add: NewWAL_def Let_def)
  have os1: "files os1 = files os" using 1 by (auto simp: os_mkdir_def os_call_def split: list.splits)
  have "os_open ?p True False os1 = (Some h, os2)" "files os1 ?p = None" using 2 h os1 fresh by simp_all
  then have H: "h = \<lparr>hpath = ?p, happend = True, hoffset = 0, hopen = True\<rparr>"
    and f: "os_file h os2 = \<lparr>data = [], synced = 0\<rparr>"
    using os_open_new by blast+
  obtain sz os3 where 3: "os_stat h os2 = (sz, os3)" by fastforce
  have os3: "os_file h os3 = os_file h os2" using os_stat_spec [OF 3] H by simp
  define w0 where "w0 = \<lparr>wfile = h, wsequence = 0, wpath = ?p, syncMode = cfgSyncMode config,
    batchSize = (if cfgBatchSize config \<le> 0 then defaultBatchSize else cfgBatchSize config), batchCount = 0,
    totalWrites = 0, totalBytes = 0, totalSyncs = 0, lastCheckpoint = 0,
    writer = NewWriterSize (nat (if cfgBufferSize config \<le> 0 then defaultBufferSize else cfgBufferSize config))\<rparr>"
  have N1: "(case sz of None \<Rightarrow> closeAfter ErrIO (w0, os3)
      | Some sz \<Rightarrow> (case (if sz = 0 then writeHeader else validateAndRecover) (w0, os3) of
          (Inl e, st) \<Rightarrow> closeAfter e st | (Inr _, w', os4) \<Rightarrow> (Inr w', os4))) = (Inr w, os')"
    using N p 1 mk 2 h 3 unfolding NewWAL_def w0_def Let_def by simp
  have "sz \<noteq> None" using N1 by (cases sz) (auto simp: closeAfter_def split: prod.splits)
  then have sz: "sz = Some 0" using os_stat_spec [OF 3] H f by auto
  obtain r w1 os4 where W: "writeHeader (w0, os3) = (r, w1, os4)" by (cases "writeHeader (w0, os3)")
  have r: "\<not> isl r" "w1 = w" "os4 = os'" using N1 sz W by (auto simp: closeAfter_def split: sum.splits prod.splits)
  have "ready (w0, os3)" using H f os3 by (simp add: ready_def at_end_def w0_def)
  from writeHeader_wrote [OF this]
  have "log_wrote walHeader (w0, os3) (r, w, os')" "buf (writer w) = []" using W r by simp_all
  moreover from this(1) have "wrote walHeader (h, writer w0, os3) (True, wfile w, writer w, os')" "wpath w = ?p"
    "syncMode w = cfgSyncMode config" "wsequence w = 0"
    using r(1) by (simp_all add: log_wrote_def w0_def)
  moreover from this(1) have "same_handle h (wfile w)" "at_end (wfile w) os'" "\<not> bwerr (writer w)"
    "fdata (wfile w) os' = walHeader" "bufcap (writer w) = bufcap (writer w0)"
    using f os3 calculation(2) by (auto simp: w0_def NewWriterSize_def elim!: wroteE)
  ultimately show ?thesis
    using H by (simp add: wal_state_def ready_def same_handle_def w0_def NewWriterSize_def)
qed

lemma NewWAL_new_calm:
  assumes "cfgPath config \<noteq> []" "outcomes os = []" "files os (cfgPath config) = None"
  shows "\<exists>w os'. NewWAL config os = (Inr w, os') \<and> calm (w, os')"
proof -
  let ?h = "\<lparr>hpath = cfgPath config, happend = True, hoffset = 0, hopen = True\<rparr>"
  let ?os = "set_file ?h \<lparr>data = [], synced = 0\<rparr> os"
  let ?w = "\<lparr>wfile = ?h, wsequence = 0, wpath = cfgPath config, syncMode = cfgSyncMode config,
    batchSize = (if cfgBatchSize config \<le> 0 then defaultBatchSize else cfgBatchSize config), batchCount = 0,
    totalWrites = 0, totalBytes = 0, totalSyncs = 0, lastCheckpoint = 0,
    writer = NewWriterSize (nat (if cfgBufferSize config \<le> 0 then defaultBufferSize else cfgBufferSize config))\<rparr>"
  have "calm (?w, ?os)" using assms(2) by (simp add: calm_def NewWriterSize_def)
  from calm_opD [OF calm_writeHeader this] obtain w' os' where W: "writeHeader (?w, ?os) = (Inr (), w', os')" "calm (w', os')"
    by (metis old.unit.exhaust surj_pair)
  have "os_file ?h os = \<lparr>data = [], synced = 0\<rparr>" using assms(3) by (simp add: os_file_def)
  then have "NewWAL config os = (Inr w', os')"
    using assms W(1) by (simp add: NewWAL_def Let_def os_mkdir_def os_open_def os_stat_def)
  then show ?thesis using W(2) by blast
qed

text \<open>
  An existing file, without faults: the log opens at its end, with the sequence number of the
  last entry that can be read.
\<close>

lemma NewWAL_existing:
  assumes "cfgPath config \<noteq> []" "outcomes os = []" "files os (cfgPath config) = Some f" "data f = walHeader @ bs"
    "synced f \<le> length (data f)"
  shows "\<exists>w. NewWAL config os = (Inr w, os) \<and> wal_state (data f) [] (w, os) \<and> calm (w, os) \<and>
    wsequence w = lastSeq (readEntries bs) \<and> wpath w = cfgPath config \<and> syncMode w = cfgSyncMode config"
proof -
  let ?h = "\<lparr>hpath = cfgPath config, happend = True, hoffset = 0, hopen = True\<rparr>"
  have f: "os_file (?h\<lparr>hoffset := n\<rparr>) os = f" "os_file ?h os = f" for n using assms(3) by (simp_all add: os_file_def)
  have s: "set_file ?h f os = os" using assms(3) by (simp add: set_file_def map_upd_triv)
  show ?thesis
    using assms f s
    by (auto simp: NewWAL_def Let_def os_mkdir_def os_open_def os_stat_def validateAndRecover_def andThen_def onFile_def
        os_seek_def os_seek_end_def os_read_def wal_state_def ready_def at_end_def calm_def NewWriterSize_def)
qed

lemma wal_state_split: "wal_state (b @ encAll es) [] st \<Longrightarrow> \<not> bwerr (writer (fst st)) \<Longrightarrow> wal_state b es st"
  by (auto simp: wal_state_def)

section \<open>Reading a history back\<close>

lemma wal_readback:
  assumes st: "wal_state walHeader es st" and ok: "list_all entry_ok es"
    and m: "8 \<le> m" and p: "img = take m (wdata st)"
  shows "\<exists>rest n. checkHeader img = Inr rest \<and> n \<le> length es \<and> readEntries rest = map entry_copy (take n es) \<and>
    (\<forall>i < length es. acked walHeader es (length img) i \<longrightarrow> i < n)"
proof -
  obtain d where d: "wdata st = walHeader @ d" using st by (auto simp: wal_state_def prefix_def)
  have "prefix d (encAll es)" using st d by (auto simp: wal_state_def split: if_splits)
  moreover have "prefix (take (m - 8) d) d" by (rule take_is_prefix)
  ultimately have "prefix (take (m - 8) d) (encAll es)" by (rule prefix_order.trans [rotated])
  from wal.loop_prefix [OF ok this] obtain n where n: "n \<le> length es"
    "readEntries (take (m - 8) d) = map entry_copy (take n es)"
    "\<forall>k \<le> length es. length (encAll (take k es)) \<le> length (take (m - 8) d) \<longrightarrow> k \<le> n" by blast
  have img: "img = walHeader @ take (m - 8) d" using p d m by simp
  have "i < n" if "i < length es" "acked walHeader es (length img) i" for i
    using n(3) [rule_format, of "Suc i"] that by (simp add: acked_def img)
  then show ?thesis using n img by (intro exI [of _ "take (m - 8) d"] exI [of _ n]) simp
qed

lemma wal_readback_all:
  assumes "wal_state walHeader es st" "list_all entry_ok es" "\<not> bwerr (writer (fst st))"
  shows "\<exists>rest. wdata st = walHeader @ rest \<and> readEntries rest = map entry_copy es"
  using assms wal.loop_concat [of es "[]"] wal.loop_error wal.dec_Nil by (auto simp: wal_state_def)

text \<open>A run from opening a new file.\<close>

lemma history_state:
  assumes "NewWAL config os = (Inr w, os0)" "files os (cfgPath config) = None" "appendAll ops (w, os0) = (rs, w', os')"
  shows "wal_state walHeader (entriesFrom 0 ops) (w', os') \<and> length rs = length ops \<and>
    (\<forall>i < length ops. \<not> isl (rs ! i) \<longrightarrow> acked walHeader (entriesFrom 0 ops) (length (wdata (w', os'))) i \<and>
       (cfgSyncMode config = SyncAlways \<longrightarrow> acked walHeader (entriesFrom 0 ops) (wsynced (w', os')) i))"
proof -
  note N = NewWAL_fresh [OF assms(1,2)]
  from appendAll_state [OF N [THEN conjunct1] assms(3)] N show ?thesis by simp
qed

text \<open>A concrete log: an insertion and a deletion on a new file.\<close>

definition ex_wal_config :: WALConfig where
  "ex_wal_config = \<lparr>cfgPath = ''wal'', cfgSyncMode = SyncAlways, cfgBatchSize = 0, cfgBufferSize = 16\<rparr>"

definition ex_wal_os :: os where
  "ex_wal_os = \<lparr>files = \<lambda>_. None, outcomes = []\<rparr>"

definition ex_wal_ops :: "wal_op list" where
  "ex_wal_ops = [(OpInsert, Bytes [107], Bytes [118, 119]), (OpDelete, Bytes [107], NilSlice)]"

lemma ex_wal_small: "small_ops ex_wal_ops"
  by (simp add: small_ops_def ex_wal_ops_def)

lemma ex_wal_run:
  obtains w os0 rs w' os' where "NewWAL ex_wal_config ex_wal_os = (Inr w, os0)"
    "appendAll ex_wal_ops (w, os0) = (rs, w', os')" "\<forall>r \<in> set rs. \<not> isl r" "length rs = 2"
    "calm (w', os')" "wal_state walHeader (entriesFrom 0 ex_wal_ops) (w', os')" "files ex_wal_os (cfgPath ex_wal_config) = None"
proof -
  have f: "files ex_wal_os (cfgPath ex_wal_config) = None" by (simp add: ex_wal_os_def)
  obtain w os0 where N: "NewWAL ex_wal_config ex_wal_os = (Inr w, os0)" "calm (w, os0)"
    using NewWAL_new_calm [of ex_wal_config ex_wal_os] by (auto simp: ex_wal_config_def ex_wal_os_def)
  obtain rs w' os' where A: "appendAll ex_wal_ops (w, os0) = (rs, w', os')" by (cases "appendAll ex_wal_ops (w, os0)")
  have "length rs = 2" using history_state [OF N(1) f A] by (simp add: ex_wal_ops_def)
  then show ?thesis using that N(1) A appendAll_calm [OF N(2) A] history_state [OF N(1) f A] f by blast
qed

text \<open>
  C9. On a log opened on a new file, after any sequence of \<open>Append\<close> calls and under any
  pattern of I/O faults, the file has a valid header, and reading it back gives the entries of
  a prefix of the calls, in order and numbered from 1, that contains every call that returned
  without error.  So no acknowledged entry is lost when the process dies.
\<close>

theorem Wal_acknowledged_survive:
  assumes "NewWAL config os = (Inr w, os0)" "files os (cfgPath config) = None"
    "small_ops ops" "appendAll ops (w, os0) = (rs, w', os')"
  shows "\<exists>rest n. checkHeader (wdata (w', os')) = Inr rest \<and> n \<le> length ops \<and>
    readEntries rest = map entry_copy (take n (entriesFrom 0 ops)) \<and>
    (\<forall>i < length ops. \<not> isl (rs ! i) \<longrightarrow> i < n)"
proof -
  note H = history_state [OF assms(1,2,4)]
  have "8 \<le> length (wdata (w', os'))"
    using H by (auto simp: wal_state_def prefix_def)
  then obtain rest n where "checkHeader (wdata (w', os')) = Inr rest" "n \<le> length ops"
    "readEntries rest = map entry_copy (take n (entriesFrom 0 ops))"
    "\<forall>i < length ops. acked walHeader (entriesFrom 0 ops) (length (wdata (w', os'))) i \<longrightarrow> i < n"
    using wal_readback [OF H [THEN conjunct1] entriesFrom_ok [OF assms(3)] _ refl, of "length (wdata (w', os'))"] by auto
  then show ?thesis using H by blast
qed

theorem Wal_acknowledged_survive_witness:
  "\<exists>w os0 rs w' os'. NewWAL ex_wal_config ex_wal_os = (Inr w, os0) \<and> appendAll ex_wal_ops (w, os0) = (rs, w', os') \<and>
     length rs = 2 \<and> (\<forall>r \<in> set rs. \<not> isl r) \<and>
     (\<exists>rest n. checkHeader (wdata (w', os')) = Inr rest \<and> n \<le> length ex_wal_ops \<and>
        readEntries rest = map entry_copy (take n (entriesFrom 0 ex_wal_ops)) \<and>
        (\<forall>i < length ex_wal_ops. \<not> isl (rs ! i) \<longrightarrow> i < n))"
proof -
  obtain w os0 rs w' os' where "NewWAL ex_wal_config ex_wal_os = (Inr w, os0)"
    "appendAll ex_wal_ops (w, os0) = (rs, w', os')" "\<forall>r \<in> set rs. \<not> isl r" "length rs = 2"
    "files ex_wal_os (cfgPath ex_wal_config) = None" by (rule ex_wal_run)
  with Wal_acknowledged_survive [OF this(1,5) ex_wal_small this(2)] show ?thesis by blast
qed

text \<open>
  C10. In mode \<open>SyncAlways\<close>, an acknowledged entry also survives a power failure: in
  whatever part of the file beyond the synced prefix is lost, the rest still has a valid
  header and reads back a prefix of the history that contains the entry.
\<close>

theorem Wal_SyncAlways_durable:
  assumes "NewWAL config os = (Inr w, os0)" "files os (cfgPath config) = None" "cfgSyncMode config = SyncAlways"
    "small_ops ops" "appendAll ops (w, os0) = (rs, w', os')"
    "i < length ops" "\<not> isl (rs ! i)" "wsynced (w', os') \<le> m"
  shows "\<exists>rest n. checkHeader (take m (wdata (w', os'))) = Inr rest \<and> i < n \<and>
    readEntries rest = map entry_copy (take n (entriesFrom 0 ops))"
proof -
  note H = history_state [OF assms(1,2,5)]
  have a: "acked walHeader (entriesFrom 0 ops) (wsynced (w', os')) i" using H assms(3,6,7) by blast
  moreover have "wsynced (w', os') \<le> length (take m (wdata (w', os')))"
    using H assms(8) by (auto simp: wal_state_def ready_def at_end_def)
  ultimately have a: "acked walHeader (entriesFrom 0 ops) (length (take m (wdata (w', os')))) i" "8 \<le> m"
    using assms(8) by (auto simp: acked_def)
  show ?thesis
    using wal_readback [OF H [THEN conjunct1] entriesFrom_ok [OF assms(4)] a(2) refl] a(1) assms(6) by auto
qed

theorem Wal_SyncAlways_durable_witness:
  "\<exists>w os0 rs w' os'. NewWAL ex_wal_config ex_wal_os = (Inr w, os0) \<and> appendAll ex_wal_ops (w, os0) = (rs, w', os') \<and>
     (\<exists>rest n. checkHeader (take (wsynced (w', os')) (wdata (w', os'))) = Inr rest \<and> 1 < n \<and>
        readEntries rest = map entry_copy (take n (entriesFrom 0 ex_wal_ops)))"
proof -
  obtain w os0 rs w' os' where r: "NewWAL ex_wal_config ex_wal_os = (Inr w, os0)"
    "appendAll ex_wal_ops (w, os0) = (rs, w', os')" "\<forall>r \<in> set rs. \<not> isl r" "length rs = 2"
    "files ex_wal_os (cfgPath ex_wal_config) = None" by (rule ex_wal_run)
  have "1 < length ex_wal_ops" "\<not> isl (rs ! 1)" "cfgSyncMode ex_wal_config = SyncAlways"
    using r(3,4) by (simp_all add: ex_wal_ops_def ex_wal_config_def)
  from Wal_SyncAlways_durable [OF r(1,5) this(3) ex_wal_small r(2) this(1,2) order_refl] r show ?thesis by blast
qed

section \<open>Replay\<close>

lemma flush_calm_empty:
  "\<not> bwerr (writer w) \<Longrightarrow> buf (writer w) = [] \<Longrightarrow> onWriter bw_Flush (w, os) = (Inr (), w, os)"
  by (simp add: onWriter_def bw_Flush_def)

lemma os_file_handle [simp]: "os_file (h\<lparr>hoffset := n\<rparr>) os = os_file h os"
  by (simp add: os_file_def)

lemma Wal_Replay_calm:
  assumes c: "calm (w, os)" and b: "buf (writer w) = []"
    and rest: "wdata (w, os) = walHeader @ rest" "readEntries rest = es"
  shows "case replayLoop callback es 0 c0 of
      None \<Rightarrow> Wal_Replay ahead callback c0 (w, os) = None
    | Some (n, err, c1) \<Rightarrow> \<exists>off. Wal_Replay ahead callback c0 (w, os) =
        Some ((n, err), c1, w\<lparr>wfile := (wfile w)\<lparr>hoffset := off\<rparr>\<rparr>, os) \<and> (err = None \<longrightarrow> off = length (wdata (w, os)))"
proof -
  have nb: "\<not> bwerr (writer w)" using c by (simp add: calm_def)
  have drp: "drop 8 (data (os_file (wfile w) os)) = rest" "length (data (os_file (wfile w) os)) = 8 + length rest"
    using rest(1) by simp_all
  have "Wal_Replay ahead callback c0 (w, os) =
    (case replayLoop callback es 0 c0 of
        None \<Rightarrow> None
      | Some (count, Some err, c') \<Rightarrow>
          Some ((count, Some err), c', w\<lparr>wfile := (wfile w)\<lparr>hoffset := min ahead (8 + length rest)\<rparr>\<rparr>, os)
      | Some (count, None, c') \<Rightarrow> Some ((count, None), c', w\<lparr>wfile := (wfile w)\<lparr>hoffset := 8 + length rest\<rparr>\<rparr>, os))"
    using c drp rest(2)
    by (simp add: Wal_Replay_def andThen_def flush_calm_empty [OF nb b] onFile_def os_seek_def calm_def os_read_def
        os_seek_end_def Let_def split: option.split)
  then show ?thesis using drp(2) by (auto split: option.splits)
qed

lemma hoffset_state:
  "wal_state b es (w, os) \<Longrightarrow> off = length (wdata (w, os)) \<Longrightarrow>
   wal_state b es (w\<lparr>wfile := (wfile w)\<lparr>hoffset := off\<rparr>\<rparr>, os)"
  by (auto simp: wal_state_def ready_def at_end_def split: if_splits)

section \<open>Checkpoint and rotation\<close>

lemma andThen_Inr: "andThen m f st = (Inr y, st2) \<longleftrightarrow> (\<exists>x st1. m st = (Inr x, st1) \<and> f x st1 = (Inr y, st2))"
  by (auto simp: andThen_def split: prod.splits sum.splits)

lemma os_open_empty:
  assumes "os_open p appnd trunc os = (Some h, os')" "trunc \<or> files os p = None"
  shows "hpath h = p \<and> at_end h os' \<and> fdata h os' = [] \<and> (\<forall>q. q \<noteq> p \<longrightarrow> files os' q = files os q)"
proof -
  obtain r os1 where c: "os_call os = (r, os1)" by fastforce
  show ?thesis using assms c os_call_file [OF c]
    by (auto simp: os_open_def Let_def os_file_def set_file_def at_end_def split: if_splits)
qed

lemma reopen_spec:
  assumes "reopen appnd trunc (w, os) = (Inr u, w', os')" "trunc \<or> files os (wpath w) = None"
  shows "wal_state walHeader [] (w', os') \<and> \<not> bwerr (writer w') \<and> wpath w' = wpath w \<and> syncMode w' = syncMode w \<and>
    wsequence w' = wsequence w \<and> (\<forall>q. q \<noteq> wpath w \<longrightarrow> files os' q = files os q)"
proof -
  obtain h os1 where o: "os_open (wpath w) appnd trunc os = (Some h, os1)"
    using assms(1) by (auto simp: reopen_def split: prod.splits option.splits)
  let ?w = "w\<lparr>wfile := h, writer := NewWriterSize (nat defaultBufferSize)\<rparr>"
  have W: "writeHeader (?w, os1) = (Inr u, w', os')" using assms(1) o by (simp add: reopen_def)
  note e = os_open_empty [OF o assms(2)]
  have "ready (?w, os1)" using e by (simp add: ready_def)
  from writeHeader_wrote [OF this] have L: "log_wrote walHeader (?w, os1) (Inr u, w', os')" "buf (writer w') = []"
    using W by simp_all
  from L(1) have "wrote walHeader (h, NewWriterSize (nat defaultBufferSize), os1) (True, wfile w', writer w', os')"
    "wpath w' = wpath w" "syncMode w' = syncMode w" "wsequence w' = wsequence w"
    by (simp_all add: log_wrote_def)
  moreover from this(1) have "same_handle h (wfile w')" "at_end (wfile w') os'" "\<not> bwerr (writer w')"
    "fdata (wfile w') os' = walHeader" "\<forall>q. q \<noteq> hpath h \<longrightarrow> files os' q = files os1 q"
    using e L(2) by (auto simp: NewWriterSize_def elim!: wroteE)
  ultimately show ?thesis using e L(2) by (simp add: wal_state_def ready_def same_handle_def)
qed

lemma onFile_close: "onFile os_close (w, os) = (r, w', os') \<Longrightarrow>
    files os' = files os \<and> wpath w' = wpath w \<and> wsequence w' = wsequence w \<and> syncMode w' = syncMode w"
  by (auto simp: onFile_def os_close_def os_call_def Let_def split: prod.splits if_splits list.splits)

text \<open>Flush and sync, as checkpoint, rotation and closing begin.\<close>

lemma flush_sync_spec:
  assumes st: "wal_state b es (w, os)" and f: "onWriter bw_Flush (w, os) = (Inr u, w1, os1)"
    and s: "fileSync (w1, os1) = (Inr v, w2, os2)"
  shows "w2 = w1 \<and> wsequence w1 = wsequence w \<and> wpath w1 = wpath w \<and> syncMode w1 = syncMode w \<and>
    wal_state b es (w1, os2) \<and> \<not> bwerr (writer w1) \<and>
    (\<exists>f. files os2 (wpath w) = Some f \<and> data f = b @ encAll es \<and> synced f = length (data f))"
proof -
  have rd: "ready (w, os)" using st by (simp add: wal_state_def)
  have b: "\<not> bwerr (writer w)" using f by (auto simp: onWriter_def bw_Flush_def split: if_splits)
  then have "w1 = w" "os1 = os" using f st flush_calm_empty [of w os] by (auto simp: wal_state_def)
  moreover note fileSync_spec [OF rd s [unfolded \<open>w1 = w\<close> \<open>os1 = os\<close>]]
  moreover have "files os2 (hpath (wfile w)) \<noteq> None"
    using s rd unfolding \<open>w1 = w\<close> by (auto simp: fileSync_def os_sync_def ready_def at_end_def Let_def set_file_def split: if_splits prod.splits)
  ultimately show ?thesis using st b by (auto simp: wal_state_def os_file_def)
qed

lemma Wal_Checkpoint_Inr:
  assumes "wal_state b es (w, os)" "Wal_Checkpoint (w, os) = (Inr u, w', os')"
  shows "wal_state walHeader [] (w', os') \<and> \<not> bwerr (writer w') \<and> wsequence w' = wsequence w \<and> wpath w' = wpath w \<and>
    syncMode w' = syncMode w"
proof -
  obtain w1 os1 w2 os2 w3 os3 where *: "onWriter bw_Flush (w, os) = (Inr (), w1, os1)"
    "fileSync (w1, os1) = (Inr (), w2, os2)"
    "onFile os_close (w2\<lparr>lastCheckpoint := wsequence w2\<rparr>, os2) = (Inr (), w3, os3)"
    "reopen False True (w3, os3) = (Inr u, w', os')"
    using assms(2) unfolding Wal_Checkpoint_def andThen_Inr by (auto simp: modify_def)
  show ?thesis
    using flush_sync_spec [OF assms(1) *(1,2)] onFile_close [OF *(3)] reopen_spec [OF *(4)] by simp
qed

lemma archivePath_neq: "archivePath w \<noteq> wpath w"
  by (simp add: archivePath_def)

lemma Wal_RotateLog_Inr:
  assumes "wal_state b es (w, os)" "Wal_RotateLog (w, os) = (Inr p, w', os')"
  shows "p = archivePath w \<and> wal_state walHeader [] (w', os') \<and> \<not> bwerr (writer w') \<and> wsequence w' = wsequence w \<and>
    wpath w' = wpath w \<and> (\<exists>f. files os' p = Some f \<and> data f = b @ encAll es \<and> synced f = length (data f))"
proof -
  obtain w1 os1 w2 os2 w3 os3 where *: "onWriter bw_Flush (w, os) = (Inr (), w1, os1)"
    "fileSync (w1, os1) = (Inr (), w2, os2)" "onFile os_close (w2, os2) = (Inr (), w3, os3)"
    and r: "(case os_rename (wpath w3) (archivePath w3) os3 of (ok, os1) \<Rightarrow>
         if \<not> ok then (Inl ErrIO, w3, os1)
         else andThen (reopen True False) (\<lambda>_. ret (archivePath w3)) (w3, os1)) = (Inr p, w', os')"
    using assms(2) unfolding Wal_RotateLog_def andThen_Inr by auto
  note F = flush_sync_spec [OF assms(1) *(1,2)] and C = onFile_close [OF *(3)]
  obtain ok os4 where n: "os_rename (wpath w3) (archivePath w3) os3 = (ok, os4)" by fastforce
  have ok: ok using r n by (auto split: if_splits)
  have "reopen True False (w3, os4) = (Inr (), w', os')" "p = archivePath w3"
    using r n ok by (auto simp: andThen_Inr ret_def)
  moreover have a: "archivePath w3 = archivePath w" using F C by (simp add: archivePath_def)
  moreover have os4: "files os4 = ((files os3)(archivePath w3 := files os3 (wpath w3)))(wpath w3 := None)"
    using n ok by (auto simp: os_rename_def os_call_def Let_def split: if_splits list.splits)
  ultimately show ?thesis
    using reopen_spec [of True False w3 os4 "()" w' os'] F C archivePath_neq [of w] by auto
qed

text \<open>Without faults both succeed.\<close>

lemma reopen_calm:
  assumes "outcomes os = []"
  shows "\<exists>w' os'. reopen appnd trunc (w, os) = (Inr (), w', os') \<and> calm (w', os')"
proof -
  let ?h = "\<lparr>hpath = wpath w, happend = appnd, hoffset = 0, hopen = True\<rparr>"
  let ?os = "if trunc then set_file ?h \<lparr>data = [], synced = 0\<rparr> os else set_file ?h (os_file ?h os) os"
  have "calm (w\<lparr>wfile := ?h, writer := NewWriterSize (nat defaultBufferSize)\<rparr>, ?os)"
    using assms by (simp add: calm_def NewWriterSize_def)
  from calm_opD [OF calm_writeHeader this] obtain w' os' where
    "writeHeader (w\<lparr>wfile := ?h, writer := NewWriterSize (nat defaultBufferSize)\<rparr>, ?os) = (Inr (), w', os')" "calm (w', os')"
    by (metis old.unit.exhaust surj_pair)
  then show ?thesis
    using assms by (simp add: reopen_def os_open_def Let_def)
qed

lemma calm_Wal_Checkpoint: "calm_op Wal_Checkpoint"
proof -
  have "calm_op (andThen (onFile os_close) (\<lambda>_. reopen False True))"
  proof (rule calm_opI)
    fix w os assume c: "calm (w, os)"
    let ?w = "w\<lparr>wfile := (wfile w)\<lparr>hopen := False\<rparr>\<rparr>"
    have "onFile os_close (w, os) = (Inr (), ?w, os)" using c by (simp add: calm_def onFile_def os_close_def)
    moreover obtain w' os' where "reopen False True (?w, os) = (Inr (), w', os')" "calm (w', os')"
      using reopen_calm c by (metis calm_def snd_conv)
    ultimately show "\<exists>x w' os'. andThen (onFile os_close) (\<lambda>_. reopen False True) (w, os) = (Inr x, w', os') \<and> calm (w', os')"
      by (simp add: andThen_def)
  qed
  then show ?thesis
    unfolding Wal_Checkpoint_def
    by - (rule calm_andThen [OF calm_flush calm_andThen [OF calm_fileSync calm_andThen [OF calm_modify]]], simp_all)
qed

lemma Wal_RotateLog_calm:
  assumes c: "calm (w, os)" and st: "wal_state b es (w, os)"
  shows "\<exists>p w' os'. Wal_RotateLog (w, os) = (Inr p, w', os') \<and> calm (w', os')"
proof -
  have f: "onWriter bw_Flush (w, os) = (Inr (), w, os)" using c st flush_calm_empty [of w os] by (simp add: calm_def wal_state_def)
  obtain os2 where s: "fileSync (w, os) = (Inr (), w, os2)" "calm (w, os2)"
    using calm_opD [OF calm_fileSync c] fileSync_spec [of w os] st by (metis old.unit.exhaust surj_pair wal_state_def)
  then have "files os2 (wpath w) \<noteq> None" using flush_sync_spec [OF st f s(1)] by auto
  moreover define w1 where "w1 = w\<lparr>wfile := (wfile w)\<lparr>hopen := False\<rparr>\<rparr>"
  moreover define os3 where "os3 = os2\<lparr>files := ((files os2)(archivePath w1 := files os2 (wpath w)))(wpath w := None)\<rparr>"
  moreover have "outcomes os3 = []" using s(2) by (simp add: os3_def calm_def)
  moreover from this obtain w4 os4 where "reopen True False (w1, os3) = (Inr (), w4, os4)" "calm (w4, os4)"
    using reopen_calm by blast
  ultimately show ?thesis
    using s f by (simp add: Wal_RotateLog_def andThen_def onFile_def os_close_def os_rename_def calm_def ret_def)
qed

lemma ex_archive: "wsequence w = 2 \<Longrightarrow> wpath w = ''wal'' \<Longrightarrow> archivePath w = ''wal.2''"
proof -
  have "decimal 2 = ''2''" by code_simp
  then show "wsequence w = 2 \<Longrightarrow> wpath w = ''wal'' \<Longrightarrow> ?thesis" by (simp add: archivePath_def del: decimal.simps)
qed

lemma ex_wal_final:
  obtains w os where "calm (w, os)" "wal_state walHeader (entriesFrom 0 ex_wal_ops) (w, os)" "wsequence w = 2" "wpath w = ''wal''"
proof -
  obtain w os0 rs w' os' where r: "NewWAL ex_wal_config ex_wal_os = (Inr w, os0)"
    "appendAll ex_wal_ops (w, os0) = (rs, w', os')" "calm (w', os')" "wal_state walHeader (entriesFrom 0 ex_wal_ops) (w', os')"
    "files ex_wal_os (cfgPath ex_wal_config) = None" by (rule ex_wal_run)
  note N = NewWAL_fresh [OF r(1,5)]
  from appendAll_state [OF N [THEN conjunct1] r(2)] N show ?thesis
    using that r(3,4) by (simp add: same_log_def ex_wal_config_def ex_wal_ops_def)
qed

section \<open>Reopening\<close>

text \<open>
  C24. Reopening, without faults, an intact log that holds the entries \<open>es\<close> recovers the sequence
  number of the last of them; appends continue from it, are all acknowledged, and the file then
  reads back as \<open>es\<close> and the new entries.
\<close>

theorem Wal_reopen_continues:
  assumes "cfgPath config \<noteq> []" "outcomes os = []" "files os (cfgPath config) = Some f"
    "data f = walHeader @ concat (map encEntry es)" "synced f \<le> length (data f)" "list_all entry_ok es" "small_ops ops"
  shows "\<exists>w rs w' os' rest. NewWAL config os = (Inr w, os) \<and> wsequence w = lastSeq es \<and>
    appendAll ops (w, os) = (rs, w', os') \<and> (\<forall>r \<in> set rs. \<not> isl r) \<and>
    checkHeader (wdata (w', os')) = Inr rest \<and>
    readEntries rest = map entry_copy (es @ entriesFrom (lastSeq es) ops)"
proof -
  have "readEntries (encAll es) = map entry_copy es"
    using wal.loop_concat [OF assms(6), of "[]"] wal.loop_error wal.dec_Nil by auto
  then obtain w where w: "NewWAL config os = (Inr w, os)" "wal_state (data f) [] (w, os)" "calm (w, os)" "wsequence w = lastSeq es"
    using NewWAL_existing [OF assms(1-5)] by auto
  then have st: "wal_state walHeader es (w, os)"
    using wal_state_split [of walHeader es "(w, os)"] assms(4) by (simp add: calm_def)
  obtain rs w' os' where A: "appendAll ops (w, os) = (rs, w', os')" by (cases "appendAll ops (w, os)")
  note S = appendAll_state [OF st A] and C = appendAll_calm [OF w(3) A]
  obtain rest where "wdata (w', os') = walHeader @ rest"
    "readEntries rest = map entry_copy (es @ entriesFrom (wsequence w) ops)"
    using wal_readback_all [OF S [THEN conjunct1]] C assms(6) entriesFrom_ok [OF assms(7)] by (auto simp: calm_def)
  then show ?thesis using w A C by auto
qed

text \<open>A file with one entry, and with a damaged one.\<close>

definition ex_wal_file :: "bytes \<Rightarrow> os" where
  "ex_wal_file bs = \<lparr>files = [''wal'' \<mapsto> \<lparr>data = walHeader @ bs, synced = 0\<rparr>], outcomes = []\<rparr>"

theorem Wal_reopen_continues_witness:
  "\<exists>w rs w' os' rest. NewWAL ex_wal_config (ex_wal_file (encEntry ex_entry)) = (Inr w, ex_wal_file (encEntry ex_entry)) \<and>
     wsequence w = 1 \<and> appendAll ex_wal_ops (w, ex_wal_file (encEntry ex_entry)) = (rs, w', os') \<and> (\<forall>r \<in> set rs. \<not> isl r) \<and>
     checkHeader (wdata (w', os')) = Inr rest \<and> readEntries rest = map entry_copy ([ex_entry] @ entriesFrom 1 ex_wal_ops)"
proof -
  have "lastSeq [ex_entry] = 1" by (simp add: lastSeq_def ex_entry_def Let_def)
  with Wal_reopen_continues [of ex_wal_config "ex_wal_file (encEntry ex_entry)"
      "\<lparr>data = walHeader @ encEntry ex_entry, synced = 0\<rparr>" "[ex_entry]" ex_wal_ops]
  show ?thesis using ex_wal_small ex_entry_ok by (simp add: ex_wal_config_def ex_wal_file_def)
qed

text \<open>
  C37. The comment in \<open>validateAndRecover\<close> says that a corrupted tail is truncated; it is
  not.  If the file has a frame with a wrong checksum after \<open>es\<close>, the log opens without
  error, takes and acknowledges further appends, and the file still reads back as \<open>es\<close>:
  every later acknowledged entry is unreachable.
\<close>

theorem Wal_corrupt_tail_hides:
  assumes "cfgPath config \<noteq> []" "outcomes os = []" "files os (cfgPath config) = Some f"
    "data f = walHeader @ concat (map encEntry es) @ encEntry bad" "synced f \<le> length (data f)"
    "list_all entry_ok es" "Checksum bad \<noteq> calculateEntryChecksum bad"
    "length (bytes_of (Key bad)) < 2 ^ 32" "length (bytes_of (Value bad)) < 2 ^ 32"
  shows "\<exists>w rs w' os' rest. NewWAL config os = (Inr w, os) \<and> appendAll ops (w, os) = (rs, w', os') \<and>
    (\<forall>r \<in> set rs. \<not> isl r) \<and> checkHeader (wdata (w', os')) = Inr rest \<and> readEntries rest = map entry_copy es"
proof -
  have read: "readEntries (encAll es @ encEntry bad @ more) = map entry_copy es" for more
    using wal.loop_concat [OF assms(6)] wal.loop_error [OF readEntry_bad [OF assms(8,9,7), of more]] by simp
  then obtain w where w: "NewWAL config os = (Inr w, os)" "wal_state (data f) [] (w, os)" "calm (w, os)"
    using NewWAL_existing [OF assms(1-5)] by auto
  obtain rs w' os' where A: "appendAll ops (w, os) = (rs, w', os')" by (cases "appendAll ops (w, os)")
  note S = appendAll_state [OF w(2) A] and C = appendAll_calm [OF w(3) A]
  have "wdata (w', os') = walHeader @ encAll es @ encEntry bad @ encAll (entriesFrom (wsequence w) ops)"
    using S C assms(4) by (simp add: wal_state_def calm_def)
  then show ?thesis using w A C read by auto
qed

definition ex_bad_entry :: LogEntry where
  "ex_bad_entry = ex_entry\<lparr>Checksum := Checksum ex_entry + 1\<rparr>"

lemma ex_bad_entry: "Checksum ex_bad_entry \<noteq> calculateEntryChecksum ex_bad_entry"
  by (simp add: ex_bad_entry_def ex_entry_def Let_def calculateEntryChecksum_def)

theorem Wal_corrupt_tail_hides_witness:
  "\<exists>w rs w' os' rest. NewWAL ex_wal_config (ex_wal_file (encEntry ex_entry @ encEntry ex_bad_entry)) =
       (Inr w, ex_wal_file (encEntry ex_entry @ encEntry ex_bad_entry)) \<and>
     appendAll ex_wal_ops (w, ex_wal_file (encEntry ex_entry @ encEntry ex_bad_entry)) = (rs, w', os') \<and>
     (\<forall>r \<in> set rs. \<not> isl r) \<and> checkHeader (wdata (w', os')) = Inr rest \<and> readEntries rest = map entry_copy [ex_entry]"
proof -
  have "length (bytes_of (Key ex_bad_entry)) < 2 ^ 32" "length (bytes_of (Value ex_bad_entry)) < 2 ^ 32"
    by (simp_all add: ex_bad_entry_def ex_entry_def Let_def)
  with Wal_corrupt_tail_hides [of ex_wal_config "ex_wal_file (encEntry ex_entry @ encEntry ex_bad_entry)"
      "\<lparr>data = walHeader @ encEntry ex_entry @ encEntry ex_bad_entry, synced = 0\<rparr>" "[ex_entry]" ex_bad_entry ex_wal_ops]
  show ?thesis using ex_entry_ok ex_bad_entry by (simp add: ex_wal_config_def ex_wal_file_def)
qed

section \<open>Replaying\<close>

text \<open>The state of a callback after calls on entries, one after the other, that it answers without an error.\<close>

primrec fed :: "'c wal_callback \<Rightarrow> LogEntry list \<Rightarrow> 'c \<Rightarrow> 'c option" where
  "fed callback [] c = Some c"
| "fed callback (e # es) c = (case callback e c of Some (Inr _, c') \<Rightarrow> fed callback es c' | _ \<Rightarrow> None)"

lemma replayLoop_fed:
  "fed callback good c = Some c' \<Longrightarrow> replayLoop callback (good @ bad) n c = replayLoop callback bad (n + length good) c'"
  by (induction good arbitrary: n c) (auto split: option.splits sum.splits)

text \<open>
  C25. \<open>Replay\<close> without faults on a log with history \<open>es\<close> calls its callback on the
  entries in order.  If every call succeeds, it returns the number of all entries and the log is as it
  was, ready for appending.  If the calls on the entries \<open>good\<close> succeed and the one on the entry after
  them fails, it returns the number of the good ones and that error, and the later entries are
  not fed to the callback; a callback that panics makes it panic.
\<close>

theorem Wal_Replay_spec:
  assumes "outcomes os = []" "wal_state walHeader es (w, os)" "\<not> bwerr (writer w)" "list_all entry_ok es"
    "map entry_copy es = good @ bad" "fed callback good c0 = Some c"
  shows "(bad = [] \<longrightarrow> (\<exists>w'. Wal_Replay ahead callback c0 (w, os) = Some ((length es, None), c, w', os) \<and>
      wsequence w' = wsequence w \<and> wal_state walHeader es (w', os))) \<and>
    (\<forall>e rest err c1. bad = e # rest \<and> callback e c = Some (Inl err, c1) \<longrightarrow>
      (\<exists>w'. Wal_Replay ahead callback c0 (w, os) = Some ((length good, Some err), c1, w', os) \<and> wsequence w' = wsequence w)) \<and>
    (\<forall>e rest. bad = e # rest \<and> callback e c = None \<longrightarrow> Wal_Replay ahead callback c0 (w, os) = None)"
proof -
  have c: "calm (w, os)" using assms(1-3) by (simp add: calm_def wal_state_def ready_def at_end_def)
  have b: "buf (writer w) = []" using assms(2,3) by (simp add: wal_state_def)
  obtain rest where rest: "wdata (w, os) = walHeader @ rest" "readEntries rest = map entry_copy es"
    using wal_readback_all [OF assms(2,4)] assms(3) by auto
  note R = Wal_Replay_calm [OF c b rest, where callback = callback and ?c0.0 = c0 and ahead = ahead]
  have L: "replayLoop callback (map entry_copy es) 0 c0 = replayLoop callback bad (length good) c"
    using replayLoop_fed [OF assms(6), of bad 0] assms(5) by simp
  have n: "length es = length good + length bad" using arg_cong [OF assms(5), of length] by simp
  show ?thesis
  proof (intro conjI allI impI)
    assume "bad = []"
    then obtain off where "Wal_Replay ahead callback c0 (w, os) = Some ((length es, None), c, w\<lparr>wfile := (wfile w)\<lparr>hoffset := off\<rparr>\<rparr>, os)"
      "off = length (wdata (w, os))" using R L n by auto
    then show "\<exists>w'. Wal_Replay ahead callback c0 (w, os) = Some ((length es, None), c, w', os) \<and>
      wsequence w' = wsequence w \<and> wal_state walHeader es (w', os)" using hoffset_state [OF assms(2), of off] by auto
  qed (use R L in auto)
qed

theorem Wal_Replay_spec_witness:
  "\<exists>w' os' w1 w2. wal_state walHeader (entriesFrom 0 ex_wal_ops) (w', os') \<and>
     Wal_Replay 0 (\<lambda>e keys. Some (Inr (), keys @ [Key e])) [] (w', os') =
       Some ((2, None), [Bytes [107], Bytes [107]], w1, os') \<and>
     Wal_Replay 0 (\<lambda>e keys. Some (if keys = [] then Inr () else Inl ErrIO, keys @ [Key e])) [] (w', os') =
       Some ((1, Some ErrIO), [Bytes [107], Bytes [107]], w2, os')"
proof -
  obtain w os0 rs w' os' where r: "calm (w', os')" "wal_state walHeader (entriesFrom 0 ex_wal_ops) (w', os')"
    by (rule ex_wal_run)
  have calm: "outcomes os' = []" "\<not> bwerr (writer w')" using r(1) by (simp_all add: calm_def)
  note R = Wal_Replay_spec [OF calm(1) r(2) calm(2) entriesFrom_ok [OF ex_wal_small]]
  let ?es = "map entry_copy (entriesFrom 0 ex_wal_ops)"
  let ?f = "\<lambda>e keys. Some (Inr () :: go_error + unit, keys @ [Key e])"
    and ?g = "\<lambda>e keys. Some (if keys = [] then Inr () else Inl ErrIO :: go_error + unit, keys @ [Key e])"
  obtain e1 e2 where e: "?es = [e1] @ [e2]" "Key e1 = Bytes [107]" "Key e2 = Bytes [107]" "length (entriesFrom 0 ex_wal_ops) = 2"
    by (simp add: ex_wal_ops_def entry_copy_def newEntry_def Let_def slice_copy_def)
  have "?es = ?es @ []" "fed ?f ?es [] = Some [Bytes [107], Bytes [107]]" using e by simp_all
  from R [OF this, of 0] e(4) obtain w1 where 1: "Wal_Replay 0 ?f [] (w', os') = Some ((2, None), [Bytes [107], Bytes [107]], w1, os')" by auto
  have "fed ?g [e1] [] = Some [Bytes [107]]" using e(2) by simp
  from R [OF e(1) this, of 0] e(3) obtain w2 where 2: "Wal_Replay 0 ?g [] (w', os') = Some ((1, Some ErrIO), [Bytes [107], Bytes [107]], w2, os')" by auto
  show ?thesis using r(2) 1 2 by blast
qed

section \<open>Checkpoint and rotation: guarantees\<close>

text \<open>
  C26. A successful \<open>Checkpoint\<close>, under any faults, leaves a log without entries that goes
  on counting: later entries read back alone, numbered after the checkpoint.  But the sequence
  number is only in memory: reopening right after the checkpoint restarts it at 0, although the
  comment says that it is kept.
\<close>

theorem Wal_Checkpoint_spec:
  assumes "wal_state walHeader es (w, os)" "Wal_Checkpoint (w, os) = (Inr u, w', os')" "small_ops ops"
    "appendAll ops (w', os') = (rs, w'', os'')"
  shows "(\<exists>rest n. checkHeader (wdata (w'', os'')) = Inr rest \<and>
      readEntries rest = map entry_copy (take n (entriesFrom (wsequence w) ops)) \<and>
      (\<forall>i < length ops. \<not> isl (rs ! i) \<longrightarrow> i < n)) \<and>
    (wpath w \<noteq> [] \<longrightarrow> (\<exists>w2. NewWAL (config\<lparr>cfgPath := wpath w\<rparr>) (os'\<lparr>outcomes := []\<rparr>) = (Inr w2, os'\<lparr>outcomes := []\<rparr>) \<and>
       wsequence w2 = 0))"
proof (intro conjI impI)
  note C = Wal_Checkpoint_Inr [OF assms(1,2)]
  note S = appendAll_state [OF C [THEN conjunct1] assms(4)]
  have "8 \<le> length (wdata (w'', os''))" using S by (auto simp: wal_state_def prefix_def)
  with wal_readback [OF _ _ _ refl, of "entriesFrom (wsequence w) ops" "(w'', os'')" "length (wdata (w'', os''))"]
  show "\<exists>rest n. checkHeader (wdata (w'', os'')) = Inr rest \<and>
      readEntries rest = map entry_copy (take n (entriesFrom (wsequence w) ops)) \<and>
      (\<forall>i < length ops. \<not> isl (rs ! i) \<longrightarrow> i < n)"
    using S C entriesFrom_ok [OF assms(3), of "wsequence w"] by simp blast
  assume p: "wpath w \<noteq> []"
  let ?os = "os'\<lparr>outcomes := []\<rparr>"
  have d: "wdata (w', os') = walHeader" "hpath (wfile w') = wpath w" "wsynced (w', os') \<le> 8"
    using C by (auto simp: wal_state_def ready_def at_end_def)
  then obtain f where "files os' (wpath w) = Some f" "data f = walHeader @ []" "synced f \<le> length (data f)"
    by (cases "files os' (wpath w)") (auto simp: os_file_def walHeader_def)
  then show "\<exists>w2. NewWAL (config\<lparr>cfgPath := wpath w\<rparr>) ?os = (Inr w2, ?os) \<and> wsequence w2 = 0"
    using NewWAL_existing [of "config\<lparr>cfgPath := wpath w\<rparr>" ?os f "[]"] p
    by (auto simp: readEntries.simps lastSeq_def readEntry_def ReadFull_def)
qed

theorem Wal_Checkpoint_spec_witness:
  "\<exists>w os w' os' rs w'' os''. wsequence w = 2 \<and> wpath w = ''wal'' \<and> Wal_Checkpoint (w, os) = (Inr (), w', os') \<and>
     appendAll ex_wal_ops (w', os') = (rs, w'', os'') \<and>
     (\<exists>rest n. checkHeader (wdata (w'', os'')) = Inr rest \<and>
        readEntries rest = map entry_copy (take n (entriesFrom 2 ex_wal_ops)) \<and>
        (\<forall>i < length ex_wal_ops. \<not> isl (rs ! i) \<longrightarrow> i < n)) \<and>
     (\<exists>w2. NewWAL (ex_wal_config\<lparr>cfgPath := ''wal''\<rparr>) (os'\<lparr>outcomes := []\<rparr>) = (Inr w2, os'\<lparr>outcomes := []\<rparr>) \<and>
        wsequence w2 = 0)"
proof -
  obtain w os where r: "calm (w, os)" "wal_state walHeader (entriesFrom 0 ex_wal_ops) (w, os)" "wsequence w = 2" "wpath w = ''wal''"
    by (rule ex_wal_final)
  obtain w' os' where C: "Wal_Checkpoint (w, os) = (Inr (), w', os')" using calm_opD [OF calm_Wal_Checkpoint r(1)]
    by (metis old.unit.exhaust surj_pair)
  obtain rs w'' os'' where A: "appendAll ex_wal_ops (w', os') = (rs, w'', os'')" by (cases "appendAll ex_wal_ops (w', os')")
  have "wpath w \<noteq> []" using r(4) by simp
  with Wal_Checkpoint_spec [OF r(2) C ex_wal_small A, of ex_wal_config] r(3,4)
  have "\<exists>rest n. checkHeader (wdata (w'', os'')) = Inr rest \<and>
        readEntries rest = map entry_copy (take n (entriesFrom 2 ex_wal_ops)) \<and>
        (\<forall>i < length ex_wal_ops. \<not> isl (rs ! i) \<longrightarrow> i < n)"
    "\<exists>w2. NewWAL (ex_wal_config\<lparr>cfgPath := ''wal''\<rparr>) (os'\<lparr>outcomes := []\<rparr>) = (Inr w2, os'\<lparr>outcomes := []\<rparr>) \<and>
        wsequence w2 = 0"
    by metis+
  then show ?thesis using r(3,4) C A by blast
qed

text \<open>
  C27. A successful \<open>RotateLog\<close>, under any faults, returns the path of an archive that holds
  the whole synced history and leaves an empty log that goes on counting.
\<close>

theorem Wal_RotateLog_spec:
  assumes "wal_state walHeader es (w, os)" "list_all entry_ok es" "Wal_RotateLog (w, os) = (Inr p, w', os')"
  shows "p = archivePath w \<and> wsequence w' = wsequence w \<and> wal_state walHeader [] (w', os') \<and>
    (\<exists>f rest. files os' p = Some f \<and> synced f = length (data f) \<and> checkHeader (data f) = Inr rest \<and>
       readEntries rest = map entry_copy es)"
proof -
  have "readEntries (encAll es) = map entry_copy es"
    using wal.loop_concat [OF assms(2), of "[]"] wal.loop_error wal.dec_Nil by auto
  then show ?thesis using Wal_RotateLog_Inr [OF assms(1,3)] by auto
qed

theorem Wal_RotateLog_spec_witness:
  "\<exists>w os w' os'. Wal_RotateLog (w, os) = (Inr ''wal.2'', w', os') \<and>
     (\<exists>f rest. files os' ''wal.2'' = Some f \<and> synced f = length (data f) \<and> checkHeader (data f) = Inr rest \<and>
        readEntries rest = map entry_copy (entriesFrom 0 ex_wal_ops))"
proof -
  obtain w os where r: "calm (w, os)" "wal_state walHeader (entriesFrom 0 ex_wal_ops) (w, os)" "wsequence w = 2" "wpath w = ''wal''"
    by (rule ex_wal_final)
  obtain p w' os' where C: "Wal_RotateLog (w, os) = (Inr p, w', os')"
    using Wal_RotateLog_calm [OF r(1,2)] by blast
  have "archivePath w = ''wal.2''" using r(3,4) by (rule ex_archive)
  then have p: "p = ''wal.2''" using Wal_RotateLog_Inr [OF r(2) C] by simp
  show ?thesis using Wal_RotateLog_spec [OF r(2) entriesFrom_ok [OF ex_wal_small] C] C unfolding p by blast
qed

text \<open>
  C38. The archive is named after the sequence number only, so two rotations with no append
  between them write the same archive: the second one replaces the archived history by an empty
  log.
\<close>

theorem Wal_RotateLog_twice_loses:
  assumes "wal_state walHeader es (w, os)" "Wal_RotateLog (w, os) = (Inr p, w1, os1)"
    "Wal_RotateLog (w1, os1) = (Inr p', w2, os2)"
  shows "p' = p \<and> (\<exists>f. files os2 p = Some f \<and> data f = walHeader)"
proof -
  note A = Wal_RotateLog_Inr [OF assms(1,2)]
  then have "wal_state walHeader [] (w1, os1)" by blast
  note B = Wal_RotateLog_Inr [OF this assms(3)]
  have "p' = p" using A B by (simp add: archivePath_def)
  moreover obtain f where "files os2 p' = Some f" "data f = walHeader @ encAll []" using B by blast
  ultimately show ?thesis by simp
qed

theorem Wal_RotateLog_twice_loses_witness:
  "\<exists>w os w1 os1 w2 os2. wal_state walHeader (entriesFrom 0 ex_wal_ops) (w, os) \<and>
     Wal_RotateLog (w, os) = (Inr ''wal.2'', w1, os1) \<and> Wal_RotateLog (w1, os1) = (Inr ''wal.2'', w2, os2) \<and>
     (\<exists>f. files os2 ''wal.2'' = Some f \<and> data f = walHeader)"
proof -
  obtain w os where r: "calm (w, os)" "wal_state walHeader (entriesFrom 0 ex_wal_ops) (w, os)" "wsequence w = 2" "wpath w = ''wal''"
    by (rule ex_wal_final)
  obtain p w1 os1 where C: "Wal_RotateLog (w, os) = (Inr p, w1, os1)" "calm (w1, os1)"
    using Wal_RotateLog_calm [OF r(1,2)] by blast
  have "archivePath w = ''wal.2''" using r(3,4) by (rule ex_archive)
  then have p: "p = ''wal.2''" "wal_state walHeader [] (w1, os1)" using Wal_RotateLog_Inr [OF r(2) C(1)] by simp_all
  obtain p' w2 os2 where D: "Wal_RotateLog (w1, os1) = (Inr p', w2, os2)"
    using Wal_RotateLog_calm [OF C(2) p(2)] by blast
  from Wal_RotateLog_twice_loses [OF r(2) C(1) D] r(2) C(1) D p(1) show ?thesis by blast
qed

end
