(* ===== verification/Durable_Btree.thy ===== *)
theory Durable_Btree
  imports Sharded_Store Wal_Recovery
begin

text \<open>
  The durable tree, \<^verbatim>\<open>src/bptree/durable_btree.go\<close>: a sharded tree behind a log.

  An operation takes the store and the operating system to its result and their new values;
  \<open>None\<close> is a panic.  Wrapping an error with \<^verbatim>\<open>fmt.Errorf\<close> keeps the error.  The
  mutex \<^verbatim>\<open>mu\<close> makes each operation one step.
\<close>

section \<open>State\<close>

record DurableConfig =
  dcWALPath :: string
  dcNumShards :: int
  dcSyncMode :: SyncMode
  dcBatchSize :: int

record DurableBTree =
  dtree :: ShardedBTree
  dwal :: WAL
  dconfig :: DurableConfig

record DurableStats =
  TreeStats :: ShardStats
  dsWALStats :: WALStats

section \<open>Recovery\<close>

text \<open>The callback of \<open>recover\<close>; it never fails, so how far \<open>Replay\<close> reads ahead does not matter.\<close>

definition applyEntry :: "LogEntry \<Rightarrow> ShardedBTree \<Rightarrow> ShardedBTree option" where
  "applyEntry entry tree =
     (if Op entry = OpInsert then Sharded_Insert tree (Key entry) (Value entry)
      else if Op entry = OpDelete then map_option snd (Sharded_Delete tree (Key entry))
      else if Op entry = OpClear then Some (Sharded_Clear tree)
      else Some tree)"

definition recoverCallback :: "ShardedBTree wal_callback" where
  "recoverCallback entry tree = map_option (\<lambda>tree'. (Inr (), tree')) (applyEntry entry tree)"

definition Durable_recover ::
  "DurableBTree \<times> os \<Rightarrow> ((nat \<times> go_error option) \<times> DurableBTree \<times> os) option" where
  "Durable_recover st =
     (case st of (db, os) \<Rightarrow>
        map_option (\<lambda>(r, tree, w, os'). (r, db\<lparr>dtree := tree, dwal := w\<rparr>, os'))
          (Wal_Replay 0 recoverCallback (dtree db) (dwal db, os)))"

definition NewDurableBTree :: "int \<Rightarrow> DurableConfig \<Rightarrow> os \<Rightarrow> ((go_error + DurableBTree) \<times> os) option" where
  "NewDurableBTree numCPU config os =
     (if dcWALPath config = [] then Some (Inl ErrPathRequired, os)
      else
        case NewWAL \<lparr>cfgPath = dcWALPath config, cfgSyncMode = dcSyncMode config,
                     cfgBatchSize = dcBatchSize config, cfgBufferSize = 0\<rparr> os of
          (Inl err, os1) \<Rightarrow> Some (Inl err, os1)
        | (Inr wal, os1) \<Rightarrow>
            let tree = NewShardedBTree numCPU \<lparr>cfgNumShards = dcNumShards config\<rparr>;
                db = \<lparr>dtree = tree, dwal = wal, dconfig = config\<rparr>
            in (case Durable_recover (db, os1) of
                  None \<Rightarrow> None
                | Some ((_, Some err), db', os2) \<Rightarrow>
                    (case Wal_Close (dwal db', os2) of (_, _, os3) \<Rightarrow> Some (Inl err, os3))
                | Some ((_, None), db', os2) \<Rightarrow> Some (Inr db', os2)))"

section \<open>Writing\<close>

type_synonym 'a durable = "DurableBTree \<times> os \<Rightarrow> ((go_error + 'a) \<times> DurableBTree \<times> os) option"

definition Durable_Insert :: "Keytype \<Rightarrow> Valuetype \<Rightarrow> unit durable" where
  "Durable_Insert key val = (\<lambda>(db, os).
     case AppendInsert key val (dwal db, os) of
       (Inl err, w, os') \<Rightarrow> Some (Inl err, db\<lparr>dwal := w\<rparr>, os')
     | (Inr _, w, os') \<Rightarrow>
         do {
           tree \<leftarrow> Sharded_Insert (dtree db) key val;
           Some (Inr (), db\<lparr>dtree := tree, dwal := w\<rparr>, os')
         })"

definition Durable_Put :: "Keytype \<Rightarrow> Valuetype \<Rightarrow> unit durable" where
  "Durable_Put key val = Durable_Insert key val"

definition Durable_Delete :: "Keytype \<Rightarrow> bool durable" where
  "Durable_Delete key = (\<lambda>(db, os).
     case AppendDelete key (dwal db, os) of
       (Inl err, w, os') \<Rightarrow> Some (Inl err, db\<lparr>dwal := w\<rparr>, os')
     | (Inr _, w, os') \<Rightarrow>
         do {
           (deleted, tree) \<leftarrow> Sharded_Delete (dtree db) key;
           Some (Inr deleted, db\<lparr>dtree := tree, dwal := w\<rparr>, os')
         })"

definition Durable_Clear :: "unit durable" where
  "Durable_Clear = (\<lambda>(db, os).
     case AppendClear (dwal db, os) of
       (Inl err, w, os') \<Rightarrow> Some (Inl err, db\<lparr>dwal := w\<rparr>, os')
     | (Inr _, w, os') \<Rightarrow> Some (Inr (), db\<lparr>dtree := Sharded_Clear (dtree db), dwal := w\<rparr>, os'))"

text \<open>The logging loop of \<open>BulkInsert\<close>: it stops at the first error.\<close>

primrec bulkLog :: "(Keytype \<times> Valuetype) list \<Rightarrow> unit walio" where
  "bulkLog [] = ret ()"
| "bulkLog (kv # rest) = andThen (AppendInsert (fst kv) (snd kv)) (\<lambda>_. bulkLog rest)"

definition Durable_BulkInsert :: "nat list \<Rightarrow> Keytype list \<Rightarrow> Valuetype list \<Rightarrow> unit durable" where
  "Durable_BulkInsert sched ks vs = (\<lambda>(db, os).
     if length ks \<noteq> length vs then Some (Inl ErrLengthMismatch, db, os)
     else
       case andThen (bulkLog (zip ks vs)) (\<lambda>_. Wal_Sync) (dwal db, os) of
         (Inl err, w, os') \<Rightarrow> Some (Inl err, db\<lparr>dwal := w\<rparr>, os')
       | (Inr _, w, os') \<Rightarrow>
           do {
             (_, tree) \<leftarrow> Sharded_BulkInsert sched (dtree db) ks vs;
             Some (Inr (), db\<lparr>dtree := tree, dwal := w\<rparr>, os')
           })"

section \<open>Reading\<close>

definition Durable_Find :: "Keytype \<Rightarrow> Valuetype durable" where
  "Durable_Find key = (\<lambda>(db, os).
     do { (r, tree) \<leftarrow> Sharded_Find (dtree db) key; Some (r, db\<lparr>dtree := tree\<rparr>, os) })"

definition Durable_Get :: "Keytype \<Rightarrow> Valuetype durable" where
  "Durable_Get key = Durable_Find key"

definition Durable_GetRange :: "DurableBTree \<Rightarrow> slice \<Rightarrow> slice \<Rightarrow> (go_error + Keytype list \<times> Valuetype list) option" where
  "Durable_GetRange db startKey endKey = Sharded_GetRange (dtree db) startKey endKey"

definition Durable_Count :: "DurableBTree \<Rightarrow> int" where
  "Durable_Count db = Sharded_Count (dtree db)"

definition Durable_ForEach :: "DurableBTree \<Rightarrow> 's callback \<Rightarrow> 's \<Rightarrow> 's option" where
  "Durable_ForEach db callback st = Sharded_ForEach (dtree db) callback st"

section \<open>The log\<close>

definition onWal :: "'a walio \<Rightarrow> DurableBTree \<times> os \<Rightarrow> (go_error + 'a) \<times> DurableBTree \<times> os" where
  "onWal m = (\<lambda>(db, os). case m (dwal db, os) of (r, w, os') \<Rightarrow> (r, db\<lparr>dwal := w\<rparr>, os'))"

definition Durable_Checkpoint :: "DurableBTree \<times> os \<Rightarrow> (go_error + unit) \<times> DurableBTree \<times> os" where
  "Durable_Checkpoint = onWal Wal_Checkpoint"

definition Durable_Sync :: "DurableBTree \<times> os \<Rightarrow> (go_error + unit) \<times> DurableBTree \<times> os" where
  "Durable_Sync = onWal Wal_Sync"

definition Durable_Close :: "DurableBTree \<times> os \<Rightarrow> (go_error + unit) \<times> DurableBTree \<times> os" where
  "Durable_Close = onWal Wal_Close"

definition Durable_Stats :: "DurableBTree \<times> os \<Rightarrow> (DurableStats \<times> os) option" where
  "Durable_Stats st =
     (case st of (db, os) \<Rightarrow>
        do {
          ts \<leftarrow> Sharded_Stats (dtree db);
          let (ws, os') = Wal_Stats (dwal db, os);
          Some (\<lparr>TreeStats = ts, dsWALStats = ws\<rparr>, os')
        })"

definition Durable_WALPath :: "DurableBTree \<Rightarrow> string" where
  "Durable_WALPath db = Wal_Path (dwal db)"

definition Durable_WALSequence :: "DurableBTree \<Rightarrow> 64 word" where
  "Durable_WALSequence db = Wal_Sequence (dwal db)"

end
