(* ===== verification/Durable_Recovery.thy ===== *)
theory Durable_Recovery
  imports Durable_Btree
begin

text \<open>
  What the durable tree guarantees across restarts: which operations a store that is opened
  again has applied, after any I/O faults of the run before.
\<close>

section \<open>Shards that never panic\<close>

definition shard_safe :: "ShardedBTree \<Rightarrow> bool" where
  "shard_safe s \<longleftrightarrow> shard_frame s \<and> (\<forall>sh \<in> set (shards s). reach sh)"

lemma shard_frame_update: "shard_frame s \<Longrightarrow> length (shards s') = length (shards s) \<Longrightarrow> numShards s' = numShards s \<Longrightarrow> shard_frame s'"
  by (auto simp: shard_frame_def)

lemma shard_safe_at: "shard_safe s \<Longrightarrow> reach (shards s ! route s k)"
  using route_less [of s k] by (auto simp: shard_safe_def)

lemma shard_safe_update:
  assumes "shard_safe s" "reach t" "shards s' = (shards s)[i := t]" "numShards s' = numShards s"
  shows "shard_safe s'"
  using assms shard_frame_update [of s s'] set_update_subset_insert [of "shards s" i t]
  by (auto simp: shard_safe_def)

lemma Sharded_Insert_safe:
  assumes "shard_safe s" "k \<noteq> NilSlice"
  shows "\<exists>s'. Sharded_Insert s k v = Some s' \<and> shard_safe s'"
proof -
  let ?i = "route s (bytes_of k)"
  have r: "reach (shards s ! ?i)" using assms(1) by (rule shard_safe_at)
  obtain t where t: "Btree_Insert (shards s ! ?i) k v = Some t" using Btree_Insert_shape reach_shape [OF r] by blast
  have "reach t" using reach_insert [OF r assms(2) t] .
  moreover have "shard_frame s" using assms(1) by (simp add: shard_safe_def)
  ultimately show ?thesis
    using t shard_safe_update [OF assms(1)] by (simp add: Sharded_Insert_def getShard_eq)
qed

lemma Sharded_Delete_safe:
  assumes "shard_safe s"
  shows "\<exists>b s'. Sharded_Delete s k = Some (b, s') \<and> shard_safe s'"
proof -
  let ?i = "route s (bytes_of k)"
  have r: "reach (shards s ! ?i)" using assms(1) by (rule shard_safe_at)
  obtain b t where t: "Btree_Delete (shards s ! ?i) k = Some (b, t)" using Btree_Delete_shape reach_shape [OF r] by blast
  have "reach t" using reach_delete [OF r t] .
  moreover have "shard_frame s" using assms(1) by (simp add: shard_safe_def)
  ultimately show ?thesis
    using t shard_safe_update [OF assms(1)] by (simp add: Sharded_Delete_def getShard_eq Let_def)
qed

lemma Sharded_Clear_safe: "shard_safe s \<Longrightarrow> shard_safe (Sharded_Clear s)"
  by (auto simp: shard_safe_def Sharded_Clear_def shard_frame_def intro: reach_new)

text \<open>The store that recovery starts from.\<close>

definition newTree :: "int \<Rightarrow> DurableConfig \<Rightarrow> ShardedBTree" where
  "newTree numCPU config = NewShardedBTree numCPU \<lparr>cfgNumShards = dcNumShards config\<rparr>"

definition shards_ok :: "int \<Rightarrow> DurableConfig \<Rightarrow> bool" where
  "shards_ok numCPU config \<longleftrightarrow>
     (let n = (if dcNumShards config \<le> 0 then numCPU else dcNumShards config) in 0 < n \<and> n < 2 ^ 32)"

lemma newTree_inv: "shards_ok numCPU config \<Longrightarrow> shard_inv (newTree numCPU config) \<and> shard_map (newTree numCPU config) = Map.empty"
  unfolding newTree_def by (rule NewShardedBTree_inv [OF refl]) (auto simp: shards_ok_def Let_def split: if_splits)

lemma newTree_safe: "shards_ok numCPU config \<Longrightarrow> shard_safe (newTree numCPU config)"
  using newTree_inv [of numCPU config]
  by (auto simp: shard_safe_def newTree_def NewShardedBTree_def Let_def intro: reach_new)

section \<open>Applying entries\<close>

primrec applyAll :: "LogEntry list \<Rightarrow> ShardedBTree \<Rightarrow> ShardedBTree option" where
  "applyAll [] t = Some t"
| "applyAll (e # es) t = Option.bind (applyEntry e t) (applyAll es)"

lemma applyAll_append: "applyAll (es @ fs) t = Option.bind (applyAll es t) (applyAll fs)"
  by (induction es arbitrary: t) (auto split: bind_splits)

lemma applyEntry_safe:
  assumes "shard_safe t" "Key e \<noteq> NilSlice"
  shows "\<exists>t'. applyEntry e t = Some t' \<and> shard_safe t'"
  using Sharded_Insert_safe [OF assms, of "Value e"] Sharded_Delete_safe [OF assms(1), of "Key e"]
    Sharded_Clear_safe [OF assms(1)] assms(1)
  by (auto simp: applyEntry_def)

lemma applyAll_safe:
  "shard_safe t \<Longrightarrow> \<forall>e \<in> set es. Key e \<noteq> NilSlice \<Longrightarrow> \<exists>t'. applyAll es t = Some t' \<and> shard_safe t'"
proof (induction es arbitrary: t)
  case (Cons e es)
  then obtain t1 where "applyEntry e t = Some t1" "shard_safe t1" using applyEntry_safe [of t e] by auto
  then show ?case using Cons by auto
qed simp

lemma copy_keys: "\<forall>e \<in> set (map entry_copy es). Key e \<noteq> NilSlice"
  by (simp add: entry_copy_def)

lemma replayLoop_recover:
  "replayLoop recoverCallback es n t = map_option (\<lambda>t'. (n + length es, None, t')) (applyAll es t)"
proof (induction es arbitrary: n t)
  case (Cons e es)
  then show ?case by (cases "applyEntry e t") (simp_all add: recoverCallback_def)
qed simp

section \<open>Opening\<close>

abbreviation walConfig :: "DurableConfig \<Rightarrow> WALConfig" where
  "walConfig config \<equiv> \<lparr>cfgPath = dcWALPath config, cfgSyncMode = dcSyncMode config,
     cfgBatchSize = dcBatchSize config, cfgBufferSize = 0\<rparr>"

lemma NewDurableBTree_existing:
  assumes "dcWALPath config \<noteq> []" "outcomes os = []" "files os (dcWALPath config) = Some f"
    "data f = walHeader @ bs" "synced f \<le> length (data f)" "applyAll (readEntries bs) (newTree numCPU config) = Some t"
  shows "\<exists>db. NewDurableBTree numCPU config os = Some (Inr db, os) \<and> dtree db = t \<and> calm (dwal db, os) \<and>
    wal_state (data f) [] (dwal db, os) \<and> wsequence (dwal db) = lastSeq (readEntries bs)"
proof -
  obtain w where w: "NewWAL (walConfig config) os = (Inr w, os)" "wal_state (data f) [] (w, os)" "calm (w, os)"
    "wsequence w = lastSeq (readEntries bs)"
    using NewWAL_existing [of "walConfig config" os f bs] assms by auto
  have "wdata (w, os) = walHeader @ bs" "buf (writer w) = []"
    using w(2,3) assms(4) by (auto simp: wal_state_def calm_def)
  from Wal_Replay_calm [OF w(3) this(2,1) refl, where callback = recoverCallback and ?c0.0 = "newTree numCPU config" and ahead = 0] assms(6)
  have R: "Wal_Replay 0 recoverCallback (newTree numCPU config) (w, os) =
      Some ((length (readEntries bs), None), t, w\<lparr>wfile := (wfile w)\<lparr>hoffset := length (wdata (w, os))\<rparr>\<rparr>, os)"
    by (simp add: replayLoop_recover)
  let ?w = "w\<lparr>wfile := (wfile w)\<lparr>hoffset := length (wdata (w, os))\<rparr>\<rparr>"
  have "NewDurableBTree numCPU config os = Some (Inr \<lparr>dtree = t, dwal = ?w, dconfig = config\<rparr>, os)"
    using assms(1) w(1) R by (simp add: NewDurableBTree_def Durable_recover_def newTree_def)
  moreover have "wal_state (data f) [] (?w, os)" using hoffset_state [OF w(2) refl] .
  moreover have "calm (?w, os)" using w(3) by (simp add: calm_def)
  ultimately show ?thesis using w(4) by auto
qed

text \<open>A new file, under any faults: if the store opens, it is empty.\<close>

lemma Wal_Replay_new:
  assumes st: "wal_state walHeader [] (w, os)" and nb: "\<not> bwerr (writer w)"
    and R: "Wal_Replay ahead callback c (w, os) = Some ((n, None), c', w', os')"
  shows "c' = c \<and> wal_state walHeader [] (w', os') \<and> \<not> bwerr (writer w') \<and> wsequence w' = wsequence w \<and>
    wpath w' = wpath w \<and> syncMode w' = syncMode w \<and> writer w' = writer w"
proof -
  have b: "buf (writer w) = []" and d: "wdata (w, os) = walHeader" and o: "hopen (wfile w)"
    using st nb by (auto simp: wal_state_def ready_def at_end_def)
  obtain r1 os1 where c1: "os_call os = (r1, os1)" by fastforce
  have r1: "r1 = OsOk"
    using R o c1 by (auto simp: Wal_Replay_def andThen_def flush_calm_empty [OF nb b] onFile_def os_seek_def split: if_splits)
  obtain r2 os2 where c2: "os_call os1 = (r2, os2)" by fastforce
  have f: "os_file (wfile w) os2 = os_file (wfile w) os" using os_call_file [OF c1] os_call_file [OF c2] by simp
  have f1: "os_file (wfile w) os1 = os_file (wfile w) os" using os_call_file [OF c1] by simp
  have e: "readEntries [] = []" by (simp add: readEntries.simps readEntry_def ReadFull_def)
  obtain r3 os3 where c3: "os_call os2 = (r3, os3)" by fastforce
  have f3: "os_file (wfile w) os3 = os_file (wfile w) os" using f os_call_file [OF c3] by simp
  have "c' = c \<and> w' = w\<lparr>wfile := (wfile w)\<lparr>hoffset := 8\<rparr>\<rparr> \<and> os' = os3"
    using R o c1 r1 c2 c3 f f1 d
    by (cases r2; cases r3) (simp_all add: Wal_Replay_def andThen_def flush_calm_empty [OF nb b] onFile_def os_seek_def os_read_def e os_seek_end_def)
  moreover have "wsynced (w, os) \<le> 8" using st d by (auto simp: wal_state_def ready_def at_end_def)
  ultimately show ?thesis using st f3 d b nb by (simp add: wal_state_def ready_def at_end_def)
qed

lemma NewDurableBTree_fresh:
  assumes N: "NewDurableBTree numCPU config os = Some (Inr db, os')" and fresh: "files os (dcWALPath config) = None"
  shows "wal_state walHeader [] (dwal db, os') \<and> \<not> bwerr (writer (dwal db)) \<and> wsequence (dwal db) = 0 \<and>
    wpath (dwal db) = dcWALPath config \<and> syncMode (dwal db) = dcSyncMode config \<and> dtree db = newTree numCPU config \<and>
    dcWALPath config \<noteq> [] \<and> bufcap (writer (dwal db)) = nat defaultBufferSize"
proof -
  have p: "dcWALPath config \<noteq> []" using N by (auto simp: NewDurableBTree_def)
  obtain w os1 where w: "NewWAL (walConfig config) os = (Inr w, os1)"
    using N p by (auto simp: NewDurableBTree_def split: prod.splits sum.splits)
  note W = NewWAL_fresh [OF w]
  obtain n t w' where R: "Wal_Replay 0 recoverCallback (newTree numCPU config) (w, os1) = Some ((n, None), t, w', os')"
    "dtree db = t" "dwal db = w'"
    using N p w by (auto simp: NewDurableBTree_def Durable_recover_def newTree_def Let_def split: option.splits prod.splits)
  from Wal_Replay_new [OF _ _ R(1)] W fresh R(2,3) p show ?thesis by simp
qed

lemma NewDurableBTree_new_calm:
  assumes "dcWALPath config \<noteq> []" "outcomes os = []" "files os (dcWALPath config) = None"
  shows "\<exists>db os'. NewDurableBTree numCPU config os = Some (Inr db, os') \<and> calm (dwal db, os')"
proof -
  obtain w os' where w: "NewWAL (walConfig config) os = (Inr w, os')" "calm (w, os')"
    using NewWAL_new_calm [of "walConfig config" os] assms by auto
  have W: "wal_state walHeader [] (w, os')" using NewWAL_fresh [OF w(1)] assms by simp
  have "wdata (w, os') = walHeader @ []" "buf (writer w) = []"
    using W w(2) by (auto simp: wal_state_def calm_def)
  moreover have "readEntries [] = []" by (simp add: readEntries.simps readEntry_def ReadFull_def)
  ultimately show ?thesis
    using Wal_Replay_calm [OF w(2), of "[]" "[]", where callback = recoverCallback and ?c0.0 = "newTree numCPU config" and ahead = 0] w assms(1)
    by (auto simp: NewDurableBTree_def Durable_recover_def newTree_def replayLoop_recover calm_def)
qed

text \<open>
  Opening the log again, without faults, after a history \<open>es\<close>: the recovered tree is that
  of a prefix of \<open>es\<close>, and of all of \<open>es\<close> if the writer has not failed.
\<close>

lemma reopen_store:
  assumes sh: "shards_ok numCPU config" and st: "wal_state walHeader es (w, os)"
    and p: "wpath w = dcWALPath config" "dcWALPath config \<noteq> []" and ok: "list_all entry_ok es"
  shows "\<exists>m db2. NewDurableBTree numCPU config (os\<lparr>outcomes := []\<rparr>) = Some (Inr db2, os\<lparr>outcomes := []\<rparr>) \<and>
    m \<le> length es \<and> applyAll (take m (map entry_copy es)) (newTree numCPU config) = Some (dtree db2) \<and>
    (\<forall>i < length es. acked walHeader es (length (wdata (w, os))) i \<longrightarrow> i < m) \<and>
    (\<not> bwerr (writer w) \<longrightarrow> m = length es)"
proof -
  have "8 \<le> length (wdata (w, os))" using st by (auto simp: wal_state_def prefix_def)
  with wal_readback [OF st ok _ refl, of "length (wdata (w, os))"]
  obtain d m where m: "wdata (w, os) = walHeader @ d" "m \<le> length es" "readEntries d = take m (map entry_copy es)"
    "\<forall>i < length es. acked walHeader es (length (wdata (w, os))) i \<longrightarrow> i < m"
    using st by (auto simp: wal_state_def prefix_def take_map)
  have keys: "\<forall>e \<in> set (take m (map entry_copy es)). Key e \<noteq> NilSlice"
    using copy_keys [of es] in_set_takeD by fastforce
  obtain t where t: "applyAll (take m (map entry_copy es)) (newTree numCPU config) = Some t"
    using applyAll_safe [OF newTree_safe [OF sh] keys] by blast
  let ?os = "os\<lparr>outcomes := []\<rparr>"
  have "hpath (wfile w) = dcWALPath config" using st p by (simp add: wal_state_def)
  then obtain f where f: "files ?os (dcWALPath config) = Some f" "data f = walHeader @ d" "synced f \<le> length (data f)"
    using m(1) st by (cases "files os (dcWALPath config)") (auto simp: os_file_def wal_state_def ready_def at_end_def walHeader_def)
  obtain db2 where D: "NewDurableBTree numCPU config ?os = Some (Inr db2, ?os)" "dtree db2 = t"
    using NewDurableBTree_existing [OF p(2) _ f, of numCPU t] t m(3) by auto
  have "m = length es" if "\<not> bwerr (writer w)"
  proof (cases es)
    case (Cons a list)
    have "wdata (w, os) = walHeader @ encAll es" using st that by (simp add: wal_state_def)
    then have "acked walHeader es (length (wdata (w, os))) (length es - 1)" using Cons by (simp add: acked_def)
    then have "length es - 1 < m" using m(4) Cons by auto
    then show ?thesis using m(2) by simp
  qed (use m(2) in simp)
  then show ?thesis using D t m(2,4) by (intro exI conjI) (assumption | simp)+
qed

section \<open>Runs under faults\<close>

datatype dop = DInsert Keytype Valuetype | DDelete Keytype | DClear

primrec dop_log :: "dop \<Rightarrow> wal_op" where
  "dop_log (DInsert k v) = (OpInsert, k, v)"
| "dop_log (DDelete k) = (OpDelete, k, NilSlice)"
| "dop_log DClear = (OpClear, NilSlice, NilSlice)"

primrec run_dop :: "dop \<Rightarrow> unit durable" where
  "run_dop (DInsert k v) st = Durable_Insert k v st"
| "run_dop (DDelete k) st = map_option (\<lambda>(r, st'). (map_sum id (\<lambda>_. ()) r, st')) (Durable_Delete k st)"
| "run_dop DClear st = Durable_Clear st"

primrec run_dops :: "dop list \<Rightarrow> DurableBTree \<times> os \<Rightarrow> ((go_error + unit) list \<times> DurableBTree \<times> os) option" where
  "run_dops [] st = Some ([], st)"
| "run_dops (d # ds) st =
     do {
       (r, st1) \<leftarrow> run_dop d st;
       (rs, st2) \<leftarrow> run_dops ds st1;
       Some (r # rs, st2)
     }"

text \<open>Keys and values of the operations are non-nil slices below 4 GiB.\<close>

primrec ok_dop :: "dop \<Rightarrow> bool" where
  "ok_dop (DInsert k v) \<longleftrightarrow> k \<noteq> NilSlice \<and> v \<noteq> NilSlice \<and> length (bytes_of k) < 2 ^ 32 \<and> length (bytes_of v) < 2 ^ 32"
| "ok_dop (DDelete k) \<longleftrightarrow> k \<noteq> NilSlice \<and> length (bytes_of k) < 2 ^ 32"
| "ok_dop DClear \<longleftrightarrow> True"

lemma ok_dops_small: "list_all ok_dop ds \<Longrightarrow> small_ops (map dop_log ds)"
proof (induction ds)
  case (Cons d ds)
  then show ?case by (cases d) (simp_all add: small_ops_def)
qed (simp add: small_ops_def)

text \<open>The entry that an operation logs, as recovery reads it.\<close>

definition dop_entry :: "64 word \<Rightarrow> dop \<Rightarrow> LogEntry" where
  "dop_entry seq d = (case dop_log d of (op, k, v) \<Rightarrow> entry_copy (newEntry seq op k v))"

primrec dop_entries :: "64 word \<Rightarrow> dop list \<Rightarrow> LogEntry list" where
  "dop_entries seq [] = []"
| "dop_entries seq (d # ds) = dop_entry (seq + 1) d # dop_entries (seq + 1) ds"

lemma dop_entries_eq: "dop_entries seq ds = map entry_copy (entriesFrom seq (map dop_log ds))"
  by (induction ds arbitrary: seq) (auto simp: dop_entry_def split: prod.splits)

lemma length_dop_entries [simp]: "length (dop_entries seq ds) = length ds"
  by (simp add: dop_entries_eq)

lemmas dop_simps = dop_entry_def entry_copy_def newEntry_def Let_def applyEntry_def OpInsert_def OpDelete_def OpClear_def

text \<open>One operation logs its entry; it applies it if and only if it succeeds.\<close>

lemma run_dop_spec:
  assumes "shard_safe (dtree db)" "ok_dop d"
  shows "\<exists>r r0 db' os'. run_dop d (db, os) = Some (r, db', os') \<and>
    (case dop_log d of (op, k, v) \<Rightarrow> Wal_Append op k v (dwal db, os)) = (r0, dwal db', os') \<and> isl r = isl r0 \<and>
    shard_safe (dtree db') \<and>
    (if isl r then dtree db' = dtree db else applyEntry (dop_entry seq d) (dtree db) = Some (dtree db'))"
proof (cases d)
  case (DInsert k v)
  obtain r0 w os' where A: "Wal_Append OpInsert k v (dwal db, os) = (r0, w, os')" by (cases "Wal_Append OpInsert k v (dwal db, os)")
  obtain t where "Sharded_Insert (dtree db) k v = Some t" "shard_safe t"
    using Sharded_Insert_safe [OF assms(1)] assms(2) DInsert by auto
  then show ?thesis
    using A DInsert assms by (cases r0) (auto simp: Durable_Insert_def AppendInsert_def dop_simps slice_copy_id)
next
  case (DDelete k)
  obtain r0 w os' where A: "Wal_Append OpDelete k NilSlice (dwal db, os) = (r0, w, os')"
    by (cases "Wal_Append OpDelete k NilSlice (dwal db, os)")
  obtain b t where "Sharded_Delete (dtree db) k = Some (b, t)" "shard_safe t"
    using Sharded_Delete_safe [OF assms(1)] by blast
  then show ?thesis
    using A DDelete assms by (cases r0) (auto simp: Durable_Delete_def AppendDelete_def dop_simps slice_copy_id)
next
  case DClear
  obtain r0 w os' where A: "Wal_Append OpClear NilSlice NilSlice (dwal db, os) = (r0, w, os')"
    by (cases "Wal_Append OpClear NilSlice NilSlice (dwal db, os)")
  then show ?thesis
    using DClear assms Sharded_Clear_safe [OF assms(1)]
    by (cases r0) (auto simp: Durable_Clear_def AppendClear_def dop_simps)
qed

text \<open>A run: the log has seen every operation, the tree has the acknowledged ones.\<close>

definition ackedOnly :: "LogEntry list \<Rightarrow> (go_error + unit) list \<Rightarrow> LogEntry list" where
  "ackedOnly es rs = map fst (filter (\<lambda>(e, r). \<not> isl r) (zip es rs))"

lemma ackedOnly_simps [simp]:
  "ackedOnly [] rs = []" "ackedOnly (e # es) (r # rs) = (if isl r then ackedOnly es rs else e # ackedOnly es rs)"
  by (simp_all add: ackedOnly_def)

lemma ackedOnly_all: "length es = length rs \<Longrightarrow> \<forall>r \<in> set rs. \<not> isl r \<Longrightarrow> ackedOnly es rs = es"
  by (induction es rs rule: list_induct2) simp_all

lemma run_dops_spec:
  assumes "shard_safe (dtree db)" "list_all ok_dop ds" "wsequence (dwal db) = seq" "wal_state b es (dwal db, os)"
  shows "\<exists>rs rs0 db' os'. run_dops ds (db, os) = Some (rs, db', os') \<and>
    appendAll (map dop_log ds) (dwal db, os) = (rs0, dwal db', os') \<and> map isl rs = map isl rs0 \<and>
    applyAll (ackedOnly (dop_entries seq ds) rs) (dtree db) = Some (dtree db')"
  using assms
proof (induction ds arbitrary: db os seq es)
  case (Cons d ds)
  obtain op k v where l: "dop_log d = (op, k, v)" by (cases "dop_log d")
  obtain r r0 db1 os1 where 1: "run_dop d (db, os) = Some (r, db1, os1)"
    "Wal_Append op k v (dwal db, os) = (r0, dwal db1, os1)" "isl r = isl r0" "shard_safe (dtree db1)"
    "if isl r then dtree db1 = dtree db else applyEntry (dop_entry (seq + 1) d) (dtree db) = Some (dtree db1)"
    using run_dop_spec [OF Cons.prems(1), of d os "seq + 1"] Cons.prems(2) l by auto
  note A = Wal_Append_state [OF Cons.prems(4) 1(2) refl]
  have "list_all ok_dop ds" "wsequence (dwal db1) = seq + 1"
    "wal_state b (es @ [newEntry (wsequence (dwal db) + 1) op k v]) (dwal db1, os1)"
    using A Cons.prems(2,3) by simp_all
  from Cons.IH [OF 1(4) this] obtain rs rs0 db' os' where
    "run_dops ds (db1, os1) = Some (rs, db', os')" "appendAll (map dop_log ds) (dwal db1, os1) = (rs0, dwal db', os')"
    "map isl rs = map isl rs0" "applyAll (ackedOnly (dop_entries (seq + 1) ds) rs) (dtree db1) = Some (dtree db')"
    by blast
  with 1 l show ?case by (cases "isl r") simp_all
qed simp

lemma map_isl_nth: "map isl rs = map isl rs0 \<Longrightarrow> i < length rs \<Longrightarrow> isl (rs ! i) = isl (rs0 ! i)"
  by (metis length_map nth_map)

text \<open>
  C4. Crash recovery: on a store opened on a new log, run any sequence of inserts, deletes and
  clears under any I/O faults, and open the log again.  No operation panics; the store in
  memory has applied exactly the operations that were acknowledged; the recovered store has
  applied, in order, a prefix of all operations that contains every acknowledged one; and if
  none failed the two stores are equal.
\<close>

theorem Durable_recovery:
  assumes "shards_ok numCPU config" "NewDurableBTree numCPU config os = Some (Inr db, os0)"
    "files os (dcWALPath config) = None" "list_all ok_dop ds"
  shows "\<exists>rs db' os' m db2. run_dops ds (db, os0) = Some (rs, db', os') \<and> length rs = length ds \<and>
    applyAll (ackedOnly (dop_entries 0 ds) rs) (newTree numCPU config) = Some (dtree db') \<and>
    NewDurableBTree numCPU config (os'\<lparr>outcomes := []\<rparr>) = Some (Inr db2, os'\<lparr>outcomes := []\<rparr>) \<and>
    m \<le> length ds \<and> applyAll (take m (dop_entries 0 ds)) (newTree numCPU config) = Some (dtree db2) \<and>
    (\<forall>i < length ds. \<not> isl (rs ! i) \<longrightarrow> i < m) \<and> ((\<forall>r \<in> set rs. \<not> isl r) \<longrightarrow> dtree db2 = dtree db')"
proof -
  note N = NewDurableBTree_fresh [OF assms(2,3)]
  have safe: "shard_safe (dtree db)" using newTree_safe [OF assms(1)] N by simp
  obtain rs rs0 db' os' where R: "run_dops ds (db, os0) = Some (rs, db', os')"
    "appendAll (map dop_log ds) (dwal db, os0) = (rs0, dwal db', os')" "map isl rs = map isl rs0"
    "applyAll (ackedOnly (dop_entries 0 ds) rs) (dtree db) = Some (dtree db')"
    using run_dops_spec [OF safe assms(4)] N by blast
  note S = appendAll_state [OF N [THEN conjunct1] R(2)]
  have st: "wal_state walHeader (entriesFrom 0 (map dop_log ds)) (dwal db', os')" and len: "length rs = length ds"
    and p: "wpath (dwal db') = dcWALPath config" "dcWALPath config \<noteq> []"
    using S N arg_cong [OF R(3), of length] by (simp_all add: same_log_def)
  obtain m db2 where m: "NewDurableBTree numCPU config (os'\<lparr>outcomes := []\<rparr>) = Some (Inr db2, os'\<lparr>outcomes := []\<rparr>)"
    "m \<le> length ds" "applyAll (take m (dop_entries 0 ds)) (newTree numCPU config) = Some (dtree db2)"
    "\<forall>i < length ds. acked walHeader (entriesFrom 0 (map dop_log ds)) (length (wdata (dwal db', os'))) i \<longrightarrow> i < m"
    using reopen_store [OF assms(1) st p entriesFrom_ok [OF ok_dops_small [OF assms(4)]]] by (auto simp: dop_entries_eq)
  have acked: "i < m" if "i < length ds" "\<not> isl (rs ! i)" for i
  proof -
    have "\<not> isl (rs0 ! i)" using map_isl_nth [OF R(3), of i] that len by simp
    then show ?thesis using S N m(4) that(1) by simp
  qed
  have "dtree db2 = dtree db'" if all: "\<forall>r \<in> set rs. \<not> isl r"
  proof -
    have "m = length ds"
    proof (cases ds)
      case (Cons a list)
      then have "length ds - 1 < m" using acked [of "length ds - 1"] all len by simp
      then show ?thesis using m(2) by simp
    qed (use m(2) in simp)
    then show ?thesis using R(4) m(3) N ackedOnly_all [OF _ all, of "dop_entries 0 ds"] len by simp
  qed
  then show ?thesis using R(1,4) N len m(1-3) acked by (intro exI conjI) (assumption | simp)+
qed

text \<open>A concrete configuration and run.\<close>

definition ex_dconfig :: DurableConfig where
  "ex_dconfig = \<lparr>dcWALPath = ''wal'', dcNumShards = 2, dcSyncMode = SyncNone, dcBatchSize = 0\<rparr>"

lemma ex_dconfig [simp]: "shards_ok 4 ex_dconfig" "dcWALPath ex_dconfig = ''wal''" "dcSyncMode ex_dconfig = SyncNone"
  by (simp_all add: ex_dconfig_def shards_ok_def)

lemma ex_durable:
  obtains db os0 where "NewDurableBTree 4 ex_dconfig ex_wal_os = Some (Inr db, os0)" "calm (dwal db, os0)"
    "files ex_wal_os (dcWALPath ex_dconfig) = None"
  using NewDurableBTree_new_calm [of ex_dconfig ex_wal_os 4] by (auto simp: ex_wal_os_def)

theorem Durable_recovery_witness:
  "let ds = [DInsert (Bytes [1]) (Bytes [7]), DClear, DInsert (Bytes [2]) (Bytes [8]), DDelete (Bytes [2])] in
   \<exists>db os0 rs db' os' m db2. NewDurableBTree 4 ex_dconfig ex_wal_os = Some (Inr db, os0) \<and>
     run_dops ds (db, os0) = Some (rs, db', os') \<and>
     NewDurableBTree 4 ex_dconfig (os'\<lparr>outcomes := []\<rparr>) = Some (Inr db2, os'\<lparr>outcomes := []\<rparr>) \<and>
     applyAll (take m (dop_entries 0 ds)) (newTree 4 ex_dconfig) = Some (dtree db2) \<and>
     (\<forall>i < length ds. \<not> isl (rs ! i) \<longrightarrow> i < m)"
proof -
  let ?ds = "[DInsert (Bytes [1]) (Bytes [7]), DClear, DInsert (Bytes [2]) (Bytes [8]), DDelete (Bytes [2])]"
  obtain db os0 where N: "NewDurableBTree 4 ex_dconfig ex_wal_os = Some (Inr db, os0)"
    "files ex_wal_os (dcWALPath ex_dconfig) = None" by (rule ex_durable)
  have "list_all ok_dop ?ds" by simp
  from Durable_recovery [OF ex_dconfig(1) N this] N(1) show ?thesis unfolding Let_def by blast
qed

section \<open>A store across restarts\<close>

primrec dop_of :: "cmd \<Rightarrow> dop" where
  "dop_of (CInsert k v) = DInsert k v"
| "dop_of (CDelete k) = DDelete k"

lemma applyAll_cmds:
  "list_all ok_dop (map dop_of cs) \<Longrightarrow>
   applyAll (dop_entries seq (map dop_of cs)) t = run_cmds Sharded_Insert Sharded_Delete cs t"
proof (induction cs arbitrary: seq t)
  case (Cons c cs)
  have "applyEntry (dop_entry (seq + 1) (dop_of c)) t = run_cmd Sharded_Insert Sharded_Delete c t"
    using Cons.prems by (cases c) (simp_all add: dop_simps slice_copy_id)
  then show ?case using Cons by (cases "run_cmd Sharded_Insert Sharded_Delete c t") simp_all
qed simp

lemma run_dops_calm:
  assumes "calm (dwal db, os)" "shard_safe (dtree db)" "list_all ok_dop ds" "wal_state b es (dwal db, os)"
    "run_dops ds (db, os) = Some (rs, db', os')"
  shows "calm (dwal db', os') \<and> (\<forall>r \<in> set rs. \<not> isl r)"
proof -
  obtain rs0 where R: "appendAll (map dop_log ds) (dwal db, os) = (rs0, dwal db', os')" "map isl rs = map isl rs0"
    using run_dops_spec [OF assms(2,3) refl assms(4)] assms(5) by auto
  have "\<not> isl r" if "r \<in> set rs" for r
  proof -
    have "isl r \<in> set (map isl rs0)" using that R(2) by (metis imageI set_map)
    then show ?thesis using appendAll_calm [OF assms(1) R(1)] by auto
  qed
  then show ?thesis using appendAll_calm [OF assms(1) R(1)] by blast
qed

lemma run_restart:
  assumes "shards_ok numCPU config" "NewDurableBTree numCPU config os = Some (Inr db, os0)"
    "files os (dcWALPath config) = None" "list_all ok_dop ds" "calm (dwal db, os0)"
  shows "\<exists>rs db' os' db2. run_dops ds (db, os0) = Some (rs, db', os') \<and> (\<forall>r \<in> set rs. \<not> isl r) \<and> calm (dwal db', os') \<and>
    wal_state walHeader (entriesFrom 0 (map dop_log ds)) (dwal db', os') \<and> wpath (dwal db') = dcWALPath config \<and>
    syncMode (dwal db') = dcSyncMode config \<and>
    NewDurableBTree numCPU config os' = Some (Inr db2, os') \<and>
    applyAll (dop_entries 0 ds) (newTree numCPU config) = Some (dtree db2) \<and> dtree db' = dtree db2"
proof -
  note N = NewDurableBTree_fresh [OF assms(2,3)]
  have safe: "shard_safe (dtree db)" using newTree_safe [OF assms(1)] N by simp
  obtain rs rs0 db' os' where R: "run_dops ds (db, os0) = Some (rs, db', os')"
    "appendAll (map dop_log ds) (dwal db, os0) = (rs0, dwal db', os')" "map isl rs = map isl rs0"
    "applyAll (ackedOnly (dop_entries 0 ds) rs) (dtree db) = Some (dtree db')"
    using run_dops_spec [OF safe assms(4)] N by blast
  note S = appendAll_state [OF N [THEN conjunct1] R(2)]
  have C: "calm (dwal db', os')" "\<forall>r \<in> set rs. \<not> isl r"
    using run_dops_calm [OF assms(5) safe assms(4) N [THEN conjunct1] R(1)] by blast+
  have st: "wal_state walHeader (entriesFrom 0 (map dop_log ds)) (dwal db', os')" and len: "length rs = length ds"
    and p: "wpath (dwal db') = dcWALPath config" "dcWALPath config \<noteq> []" "syncMode (dwal db') = dcSyncMode config"
    using S N arg_cong [OF R(3), of length] by (simp_all add: same_log_def)
  have os': "os'\<lparr>outcomes := []\<rparr> = os'" "\<not> bwerr (writer (dwal db'))" using C(1) by (simp_all add: calm_def)
  obtain db2 where "NewDurableBTree numCPU config os' = Some (Inr db2, os')"
    "applyAll (dop_entries 0 ds) (newTree numCPU config) = Some (dtree db2)"
    using reopen_store [OF assms(1) st p(1,2) entriesFrom_ok [OF ok_dops_small [OF assms(4)]]] os'
    by (auto simp: dop_entries_eq)
  moreover have "applyAll (dop_entries 0 ds) (newTree numCPU config) = Some (dtree db')"
    using R(4) N ackedOnly_all [OF _ C(2), of "dop_entries 0 ds"] len by simp
  ultimately show ?thesis using R(1) C st p by auto
qed

text \<open>
  C5. Without faults, a durable store on a new log acknowledges every operation of a run of
  inserts of new keys and of deletes, and after reopening answers every \<open>Find\<close> and every
  \<open>GetRange\<close> as the finite map that the run builds.
\<close>

theorem Durable_restart_refines_map:
  assumes "shards_ok numCPU config" "dcWALPath config \<noteq> []" "outcomes os = []" "files os (dcWALPath config) = None"
    "fresh_cmds Map.empty cs" "list_all ok_dop (map dop_of cs)"
  shows "\<exists>db os0 rs db' os' db2. NewDurableBTree numCPU config os = Some (Inr db, os0) \<and>
    run_dops (map dop_of cs) (db, os0) = Some (rs, db', os') \<and> (\<forall>r \<in> set rs. \<not> isl r) \<and>
    NewDurableBTree numCPU config os' = Some (Inr db2, os') \<and>
    (\<forall>key. \<exists>st. Durable_Find key (db2, os') = Some (find_result (map_cmds cs Map.empty (bytes_of key)), st)) \<and>
    (\<forall>lo hi. bytes_of lo \<le> bytes_of hi \<longrightarrow> (\<exists>ks vs. Durable_GetRange db2 lo hi = Some (Inr (ks, vs)) \<and>
       lists_map ks vs (map_range lo hi (map_cmds cs Map.empty))))"
proof -
  obtain db os0 where N: "NewDurableBTree numCPU config os = Some (Inr db, os0)" "calm (dwal db, os0)"
    using NewDurableBTree_new_calm [OF assms(2-4)] by blast
  obtain rs db' os' db2 where R: "run_dops (map dop_of cs) (db, os0) = Some (rs, db', os')" "\<forall>r \<in> set rs. \<not> isl r"
    "NewDurableBTree numCPU config os' = Some (Inr db2, os')"
    "applyAll (dop_entries 0 (map dop_of cs)) (newTree numCPU config) = Some (dtree db2)"
    using run_restart [OF assms(1) N(1) assms(4,6) N(2)] by blast
  note I = newTree_inv [OF assms(1)]
  have "run_cmds Sharded_Insert Sharded_Delete cs (newTree numCPU config) = Some (dtree db2)"
    using R(4) applyAll_cmds [OF assms(6)] by simp
  then have t: "shard_inv (dtree db2)" "shard_map (dtree db2) = map_cmds cs Map.empty"
    using sharded.run_cmds_fresh [of "newTree numCPU config" cs] I assms(5) by auto
  have "\<exists>st. Durable_Find key (db2, os') = Some (find_result (map_cmds cs Map.empty (bytes_of key)), st)" for key
    using sharded.find_law [OF t(1), of key] t(2) by (auto simp: Durable_Find_def)
  moreover have "\<exists>ks vs. Durable_GetRange db2 lo hi = Some (Inr (ks, vs)) \<and> lists_map ks vs (map_range lo hi (map_cmds cs Map.empty))"
    if "bytes_of lo \<le> bytes_of hi" for lo hi
    using sharded.range_law [OF t(1) that] t(2) by (simp add: Durable_GetRange_def)
  ultimately show ?thesis using N(1) R(1-3) by blast
qed

theorem Durable_restart_refines_map_witness:
  "let cs = [CInsert (Bytes [1]) (Bytes [7]), CInsert (Bytes [2]) (Bytes [8]), CDelete (Bytes [1])] in
   fresh_cmds Map.empty cs \<and>
   (\<exists>db os0 rs db' os' db2. NewDurableBTree 4 ex_dconfig ex_wal_os = Some (Inr db, os0) \<and>
     run_dops (map dop_of cs) (db, os0) = Some (rs, db', os') \<and> (\<forall>r \<in> set rs. \<not> isl r) \<and>
     NewDurableBTree 4 ex_dconfig os' = Some (Inr db2, os') \<and>
     (\<forall>key. \<exists>st. Durable_Find key (db2, os') = Some (find_result (map_cmds cs Map.empty (bytes_of key)), st)))"
proof -
  let ?cs = "[CInsert (Bytes [1]) (Bytes [7]), CInsert (Bytes [2]) (Bytes [8]), CDelete (Bytes [1])]"
  have c: "fresh_cmds Map.empty ?cs" "list_all ok_dop (map dop_of ?cs)" by simp_all
  have o: "outcomes ex_wal_os = []" "files ex_wal_os (dcWALPath ex_dconfig) = None" "dcWALPath ex_dconfig \<noteq> []"
    by (simp_all add: ex_wal_os_def)
  from Durable_restart_refines_map [OF ex_dconfig(1) o(3,1,2) c] c(1) show ?thesis unfolding Let_def by blast
qed

section \<open>Checkpoint\<close>

text \<open>
  C40. The durable tree has no other copy on disk than its log, so a successful
  \<open>Checkpoint\<close>, which empties the log, loses the store on the next restart: the tree in
  memory is unchanged, and reopening gives an empty one.
\<close>

theorem Durable_Checkpoint_loses:
  assumes "shards_ok numCPU config" "wal_state walHeader es (dwal db, os)" "wpath (dwal db) = dcWALPath config"
    "dcWALPath config \<noteq> []" "Durable_Checkpoint (db, os) = (Inr u, db', os')"
  shows "dtree db' = dtree db \<and> (\<exists>db2. NewDurableBTree numCPU config (os'\<lparr>outcomes := []\<rparr>) =
      Some (Inr db2, os'\<lparr>outcomes := []\<rparr>) \<and> dtree db2 = newTree numCPU config \<and>
      (\<forall>key. \<exists>st. Durable_Find key (db2, os'\<lparr>outcomes := []\<rparr>) = Some (Inl ErrKeyNotFound, st)))"
proof -
  have C: "Wal_Checkpoint (dwal db, os) = (Inr u, dwal db', os')" and t: "dtree db' = dtree db"
    using assms(5) by (auto simp: Durable_Checkpoint_def onWal_def split: prod.splits)
  note W = Wal_Checkpoint_Inr [OF assms(2) C]
  obtain db2 where D: "NewDurableBTree numCPU config (os'\<lparr>outcomes := []\<rparr>) = Some (Inr db2, os'\<lparr>outcomes := []\<rparr>)"
    "dtree db2 = newTree numCPU config"
    using reopen_store [OF assms(1) W [THEN conjunct1] _ assms(4)] W assms(3) by auto
  have "\<exists>st. Durable_Find key (db2, os'\<lparr>outcomes := []\<rparr>) = Some (Inl ErrKeyNotFound, st)" for key
    using sharded.find_law [of "newTree numCPU config" key] newTree_inv [OF assms(1)] D(2) by (auto simp: Durable_Find_def)
  then show ?thesis using t D by blast
qed

theorem Durable_Checkpoint_loses_witness:
  "\<exists>db os db' os' db2. (\<exists>st. Durable_Find (Bytes [1]) (db, os) = Some (Inr (Bytes [7]), st)) \<and>
     Durable_Checkpoint (db, os) = (Inr (), db', os') \<and> dtree db' = dtree db \<and>
     NewDurableBTree 4 ex_dconfig (os'\<lparr>outcomes := []\<rparr>) = Some (Inr db2, os'\<lparr>outcomes := []\<rparr>) \<and>
     (\<exists>st. Durable_Find (Bytes [1]) (db2, os'\<lparr>outcomes := []\<rparr>) = Some (Inl ErrKeyNotFound, st))"
proof -
  let ?cs = "[CInsert (Bytes [1]) (Bytes [7])]"
  obtain db0 os0 where N: "NewDurableBTree 4 ex_dconfig ex_wal_os = Some (Inr db0, os0)" "calm (dwal db0, os0)"
    "files ex_wal_os (dcWALPath ex_dconfig) = None" by (rule ex_durable)
  have ok: "list_all ok_dop (map dop_of ?cs)" by simp
  obtain db db2 :: DurableBTree and os where R: "calm (dwal db, os)" "wal_state walHeader (entriesFrom 0 (map dop_log (map dop_of ?cs))) (dwal db, os)"
    "wpath (dwal db) = dcWALPath ex_dconfig" "applyAll (dop_entries 0 (map dop_of ?cs)) (newTree 4 ex_dconfig) = Some (dtree db2)"
    "dtree db = dtree db2"
    using run_restart [OF ex_dconfig(1) N(1,3) ok N(2)] by blast
  have "run_cmds Sharded_Insert Sharded_Delete ?cs (newTree 4 ex_dconfig) = Some (dtree db)"
    using R(4) unfolding R(5) applyAll_cmds [OF ok] .
  then have "shard_inv (dtree db)" "shard_map (dtree db) = map_cmds ?cs Map.empty"
    using sharded.run_cmds_fresh [of "newTree 4 ex_dconfig" ?cs] newTree_inv [OF ex_dconfig(1)] by auto
  then have F: "\<exists>st. Durable_Find (Bytes [1]) (db, os) = Some (Inr (Bytes [7]), st)"
    using sharded.find_law [of "dtree db" "Bytes [1]"] by (auto simp: Durable_Find_def)
  obtain w' os' where "Wal_Checkpoint (dwal db, os) = (Inr (), w', os')"
    using calm_opD [OF calm_Wal_Checkpoint R(1)] by (metis old.unit.exhaust surj_pair)
  then have C: "Durable_Checkpoint (db, os) = (Inr (), db\<lparr>dwal := w'\<rparr>, os')" by (simp add: Durable_Checkpoint_def onWal_def)
  have p: "dcWALPath ex_dconfig \<noteq> []" by simp
  from Durable_Checkpoint_loses [OF ex_dconfig(1) R(2,3) p C] F C show ?thesis by blast
qed

section \<open>Bulk insertion\<close>

definition ok_pair :: "Keytype \<times> Valuetype \<Rightarrow> bool" where
  "ok_pair kv \<longleftrightarrow> ok_dop (DInsert (fst kv) (snd kv))"

definition pair_ops :: "(Keytype \<times> Valuetype) list \<Rightarrow> wal_op list" where
  "pair_ops ps = map (\<lambda>kv. (OpInsert, fst kv, snd kv)) ps"

lemma pair_ops_simps [simp]:
  "pair_ops [] = []" "pair_ops (kv # ps) = (OpInsert, fst kv, snd kv) # pair_ops ps" "length (pair_ops ps) = length ps"
  "take j (pair_ops ps) = pair_ops (take j ps)"
  by (simp_all add: pair_ops_def take_map)

lemma pair_ops_small: "list_all ok_pair ps \<Longrightarrow> small_ops (pair_ops ps)"
  by (induction ps) (auto simp: ok_pair_def small_ops_def)

lemma applyAll_pairs:
  "list_all ok_pair ps \<Longrightarrow> applyAll (map entry_copy (entriesFrom seq (pair_ops ps))) t = insert_all t ps"
proof (induction ps arbitrary: seq t)
  case (Cons kv ps)
  have "applyEntry (entry_copy (newEntry (seq + 1) OpInsert (fst kv) (snd kv))) t = Sharded_Insert t (fst kv) (snd kv)"
    using Cons.prems by (simp add: dop_simps ok_pair_def slice_copy_id)
  then show ?case using Cons by (cases kv; cases "Sharded_Insert t (fst kv) (snd kv)") simp_all
qed simp

lemma insert_all_safe:
  "shard_safe t \<Longrightarrow> list_all ok_pair ps \<Longrightarrow> \<exists>t'. insert_all t ps = Some t' \<and> shard_safe t'"
proof (induction ps arbitrary: t)
  case (Cons kv ps)
  then obtain t1 where "Sharded_Insert t (fst kv) (snd kv) = Some t1" "shard_safe t1"
    using Sharded_Insert_safe [of t "fst kv" "snd kv"] by (auto simp: ok_pair_def)
  then show ?case using Cons by (cases kv) auto
qed simp

text \<open>The logging loop attempts the first \<open>j\<close> pairs; all of them if it succeeds.\<close>

lemma bulkLog_attempts:
  assumes "wal_state b es (w, os)" "bulkLog ps (w, os) = (r, w', os')"
  shows "\<exists>j \<le> length ps. wal_state b (es @ entriesFrom (wsequence w) (pair_ops (take j ps))) (w', os') \<and> same_log w w' \<and>
    prefix (wdata (w, os)) (wdata (w', os')) \<and> (\<not> isl r \<longrightarrow> j = length ps \<and> (bwerr (writer w') \<longrightarrow> bwerr (writer w)))"
  using assms
proof (induction ps arbitrary: w os es)
  case Nil
  then show ?case by (auto simp: ret_def same_log_def)
next
  case (Cons kv ps)
  obtain r1 w1 os1 where A: "Wal_Append OpInsert (fst kv) (snd kv) (w, os) = (r1, w1, os1)"
    by (cases "Wal_Append OpInsert (fst kv) (snd kv) (w, os)")
  let ?e = "newEntry (wsequence w + 1) OpInsert (fst kv) (snd kv)"
  note S = Wal_Append_state [OF Cons.prems(1) A refl]
  have rd: "ready (w, os)" using Cons.prems(1) by (simp add: wal_state_def)
  note S' = Wal_Append_spec [OF rd A refl]
  show ?case
  proof (cases r1)
    case (Inl e)
    then have "w' = w1" "os' = os1" "isl r" using Cons.prems(2) A by (auto simp: andThen_def AppendInsert_def)
    then show ?thesis using S by (intro exI [of _ 1]) (cases kv, simp)
  next
    case (Inr x)
    then have "bulkLog ps (w1, os1) = (r, w', os')" using Cons.prems(2) A by (simp add: andThen_def AppendInsert_def)
    from Cons.IH [OF S [THEN conjunct1] this] obtain j where j: "j \<le> length ps"
      "wal_state b ((es @ [?e]) @ entriesFrom (wsequence w1) (pair_ops (take j ps))) (w', os')" "same_log w1 w'" "prefix (wdata (w1, os1)) (wdata (w', os'))"
      "\<not> isl r \<longrightarrow> j = length ps \<and> (bwerr (writer w') \<longrightarrow> bwerr (writer w1))" by blast
    have "same_log w w'" using j(3) S by (auto simp: same_log_def same_handle_def)
    moreover have "prefix (wdata (w, os)) (wdata (w', os'))" using j(4) S prefix_order.trans by blast
    ultimately show ?thesis using j(1,2,5) S S' Inr by (intro exI [of _ "Suc j"]) (cases kv, auto)
  qed
qed

lemma settled_state:
  assumes "wal_state b es (w, os)" "settled (w, os) (r, w', os')"
  shows "wal_state b es (w', os') \<and> same_log w w' \<and> prefix (wdata (w, os)) (wdata (w', os')) \<and>
    (\<not> isl r \<longrightarrow> \<not> bwerr (writer w'))"
proof -
  from assms(2) obtain x where x: "same_log w w'" "ready (w', os')" "wdata (w', os') = wdata (w, os) @ x"
    "prefix x (buf (writer w))" "if bwerr (writer w') then isl r \<and> (bwerr (writer w) \<longrightarrow> x = [])
       else buf (writer w') = [] \<and> x = buf (writer w) \<and> \<not> bwerr (writer w)"
    unfolding settled_def prod.case fst_conv snd_conv by blast
  show ?thesis using assms(1) x by (cases "bwerr (writer w)") (auto simp: wal_state_def same_log_def same_handle_def split: if_splits)
qed

lemma bulkLog_sync:
  assumes "wal_state b es (w, os)" "andThen (bulkLog ps) (\<lambda>_. Wal_Sync) (w, os) = (r, w', os')"
  shows "\<exists>j \<le> length ps. wal_state b (es @ entriesFrom (wsequence w) (pair_ops (take j ps))) (w', os') \<and> same_log w w' \<and>
    prefix (wdata (w, os)) (wdata (w', os')) \<and> (\<not> isl r \<longrightarrow> j = length ps \<and> \<not> bwerr (writer w'))"
proof -
  obtain r1 w1 os1 where L: "bulkLog ps (w, os) = (r1, w1, os1)" by (cases "bulkLog ps (w, os)")
  obtain j where j: "j \<le> length ps" "wal_state b (es @ entriesFrom (wsequence w) (pair_ops (take j ps))) (w1, os1)"
    "same_log w w1" "prefix (wdata (w, os)) (wdata (w1, os1))" "\<not> isl r1 \<longrightarrow> j = length ps"
    using bulkLog_attempts [OF assms(1) L] by blast
  show ?thesis
  proof (cases r1)
    case (Inl e)
    then have "r = Inl e" "w' = w1" "os' = os1" using assms(2) L by (auto simp: andThen_def)
    then show ?thesis using j by (intro exI [of _ j]) simp
  next
    case (Inr x)
    then have "sync_wal (w1, os1) = (r, w', os')" using assms(2) L by (simp add: andThen_def Wal_Sync_def)
    moreover have "ready (w1, os1)" using j(2) by (simp add: wal_state_def)
    ultimately have "settled (w1, os1) (r, w', os')" using sync_wal_settled by metis
    note S = settled_state [OF j(2) this]
    have "same_log w w'" using j(3) S by (auto simp: same_log_def same_handle_def)
    then show ?thesis using j S Inr prefix_order.trans by (intro exI [of _ j]) auto
  qed
qed

lemma acked_whole:
  assumes "es \<noteq> []" "length (b @ encAll es) \<le> n"
  shows "acked b (es @ fs) n (length es - 1)"
proof -
  have "Suc (length es - 1) = length es" using assms(1) by (cases es) simp_all
  then show ?thesis using assms(2) by (simp add: acked_def)
qed

lemma take_entriesFrom: "take n (entriesFrom seq ops) = entriesFrom seq (take n ops)"
  by (induction ops arbitrary: n seq) (auto simp: take_Cons split: nat.splits prod.splits)

text \<open>
  C28. \<open>BulkInsert\<close> of non-nil pairs, under any faults and every schedule of its goroutines,
  on a store whose log describes its tree: it does not panic.  If it succeeds, the tree has all
  pairs, and so has the recovered tree.  If it fails, the tree is unchanged, but recovery
  applies the first \<open>m\<close> pairs: the batch is not atomic.
\<close>

theorem Durable_BulkInsert_spec:
  assumes "shards_ok numCPU config" "wal_state walHeader es (dwal db, os)" "\<not> bwerr (writer (dwal db))"
    "wpath (dwal db) = dcWALPath config" "dcWALPath config \<noteq> []" "list_all entry_ok es"
    "applyAll (map entry_copy es) (newTree numCPU config) = Some (dtree db)"
    "length ks = length vs" "list_all ok_pair (zip ks vs)"
  shows "\<exists>r db' os' m db2. Durable_BulkInsert sched ks vs (db, os) = Some (r, db', os') \<and>
    (if isl r then dtree db' = dtree db else insert_all (dtree db) (zip ks vs) = Some (dtree db') \<and> m = length ks) \<and>
    NewDurableBTree numCPU config (os'\<lparr>outcomes := []\<rparr>) = Some (Inr db2, os'\<lparr>outcomes := []\<rparr>) \<and>
    m \<le> length ks \<and> insert_all (dtree db) (take m (zip ks vs)) = Some (dtree db2)"
proof -
  let ?ps = "zip ks vs"
  have safe: "shard_safe (dtree db)"
    using applyAll_safe [OF newTree_safe [OF assms(1)] copy_keys, of es] assms(7) by auto
  obtain t where t: "insert_all (dtree db) ?ps = Some t" using insert_all_safe [OF safe assms(9)] by blast
  obtain r w' os' where L: "andThen (bulkLog ?ps) (\<lambda>_. Wal_Sync) (dwal db, os) = (r, w', os')"
    by (cases "andThen (bulkLog ?ps) (\<lambda>_. Wal_Sync) (dwal db, os)")
  obtain j where j: "j \<le> length ?ps" "wal_state walHeader (es @ entriesFrom (wsequence (dwal db)) (pair_ops (take j ?ps))) (w', os')"
    "same_log (dwal db) w'" "prefix (wdata (dwal db, os)) (wdata (w', os'))" "\<not> isl r \<longrightarrow> j = length ?ps \<and> \<not> bwerr (writer w')"
    using bulkLog_sync [OF assms(2) L] by blast
  let ?fs = "entriesFrom (wsequence (dwal db)) (pair_ops (take j ?ps))"
  have ok: "list_all ok_pair (take n ?ps)" for n using assms(9) by (auto simp: list_all_iff dest: in_set_takeD)
  have "list_all entry_ok (es @ ?fs)" using assms(6) entriesFrom_ok [OF pair_ops_small [OF ok]] by simp
  from reopen_store [OF assms(1) j(2) _ assms(5) this] j(3) assms(4) obtain m db2 where
    m: "NewDurableBTree numCPU config (os'\<lparr>outcomes := []\<rparr>) = Some (Inr db2, os'\<lparr>outcomes := []\<rparr>)"
    "m \<le> length (es @ ?fs)" "applyAll (take m (map entry_copy (es @ ?fs))) (newTree numCPU config) = Some (dtree db2)"
    "\<forall>i < length (es @ ?fs). acked walHeader (es @ ?fs) (length (wdata (w', os'))) i \<longrightarrow> i < m"
    "\<not> bwerr (writer w') \<longrightarrow> m = length (es @ ?fs)"
    by (auto simp: same_log_def)
  have "length (walHeader @ encAll es) \<le> length (wdata (w', os'))"
    using prefix_length_le [OF j(4)] assms(2,3) by (simp add: wal_state_def)
  then have ge: "length es \<le> m" using acked_whole [of es walHeader _ ?fs] m(4) [rule_format, of "length es - 1"]
    by (cases es) auto
  let ?m = "m - length es"
  have "take m (map entry_copy (es @ ?fs)) = map entry_copy es @ map entry_copy (take ?m ?fs)"
    using ge by (simp add: take_map)
  moreover have "take ?m ?fs = entriesFrom (wsequence (dwal db)) (pair_ops (take (min ?m j) ?ps))"
    by (simp add: take_entriesFrom)
  ultimately have "insert_all (dtree db) (take (min ?m j) ?ps) = Some (dtree db2)"
    using m(3) assms(7) applyAll_pairs [OF ok] by (simp add: applyAll_append)
  moreover have "min ?m j = length ks" if "\<not> isl r" using that j(5) m(5) assms(8) by simp
  moreover have "shard_frame (dtree db)" using safe by (simp add: shard_safe_def)
  then have "Durable_BulkInsert sched ks vs (db, os) =
      Some (if isl r then (r, db\<lparr>dwal := w'\<rparr>, os') else (Inr (), db\<lparr>dtree := t, dwal := w'\<rparr>, os'))"
    using L assms(8) t Sharded_BulkInsert_sequential [of "dtree db" ks vs sched]
    by (cases r) (simp_all add: Durable_BulkInsert_def)
  moreover have "min ?m j \<le> length ks" using j(1) assms(8) by simp
  ultimately show ?thesis
    using m(1) t by (intro exI [of _ r] exI [of _ "if isl r then db\<lparr>dwal := w'\<rparr> else db\<lparr>dtree := t, dwal := w'\<rparr>"]
        exI [of _ os'] exI [of _ "min ?m j"] exI [of _ db2]) (cases r, simp_all)
qed

theorem Durable_BulkInsert_spec_witness:
  "\<exists>db os0 r db' os' m db2. NewDurableBTree 4 ex_dconfig ex_wal_os = Some (Inr db, os0) \<and>
     Durable_BulkInsert [1, 0] [Bytes [1], Bytes [2]] [Bytes [7], Bytes [8]] (db, os0) = Some (r, db', os') \<and>
     NewDurableBTree 4 ex_dconfig (os'\<lparr>outcomes := []\<rparr>) = Some (Inr db2, os'\<lparr>outcomes := []\<rparr>) \<and>
     insert_all (dtree db) (take m (zip [Bytes [1], Bytes [2]] [Bytes [7], Bytes [8]])) = Some (dtree db2)"
proof -
  obtain db os0 where N: "NewDurableBTree 4 ex_dconfig ex_wal_os = Some (Inr db, os0)"
    "files ex_wal_os (dcWALPath ex_dconfig) = None" by (rule ex_durable)
  note F = NewDurableBTree_fresh [OF N]
  have "list_all ok_pair (zip [Bytes [1], Bytes [2]] [Bytes [7], Bytes [8]])" "length [Bytes [1], Bytes [2]] = length [Bytes [7], Bytes [8]]"
    by (simp_all add: ok_pair_def)
  moreover have "applyAll (map entry_copy []) (newTree 4 ex_dconfig) = Some (dtree db)" using F by simp
  ultimately show ?thesis
    using Durable_BulkInsert_spec [OF ex_dconfig(1), of "[]" db os0 "[Bytes [1], Bytes [2]]" "[Bytes [7], Bytes [8]]" "[1, 0]"] F N(1)
    by auto
qed

section \<open>A batch that is applied in part\<close>

text \<open>Appends that fit the buffer, in mode \<open>SyncNone\<close>: one system call, the flush.\<close>

lemma bw_Write_fits:
  "\<not> bwerr b \<Longrightarrow> length (buf b) + length p \<le> bufcap b \<Longrightarrow> bw_Write p (h, b, os) = (True, h, b\<lparr>buf := buf b @ p\<rparr>, os)"
  by (subst bw_Write.simps) auto

lemma bw_WriteByte_fits:
  "\<not> bwerr b \<Longrightarrow> length (buf b) < bufcap b \<Longrightarrow> bw_WriteByte c (h, b, os) = (True, h, b\<lparr>buf := buf b @ [c]\<rparr>, os)"
  by (simp add: bw_WriteByte_def)

lemma writeEntry_fits:
  assumes "\<not> bwerr (writer w)" "length (buf (writer w)) + length (encEntry e) \<le> bufcap (writer w)"
  shows "writeEntry e (w, os) = (Inr (), w\<lparr>writer := (writer w)\<lparr>buf := buf (writer w) @ encEntry e\<rparr>,
    totalBytes := totalBytes w + of_nat (4 + entryLen e)\<rparr>, os)"
  using assms
  by (simp add: writeEntry_def andThen_def onWriter_def modify_def bw_Write_fits bw_WriteByte_fits encEntry_length entryLen_def
      encEntry_def entryWrites_def del: put_le.simps)

lemma flush_one:
  assumes "at_end h os" "\<not> bwerr b" "buf b \<noteq> []" "outcomes os = a # rs"
  shows "\<exists>h' b' os'. bw_Flush (h, b, os) = (a = OsOk, h', b', os') \<and> outcomes os' = rs \<and>
    (a = OsOk \<longrightarrow> \<not> bwerr b') \<and> (a = OsFail 0 \<longrightarrow> fdata h' os' = fdata h os)"
  using assms by (cases a) (auto simp: bw_Flush_def os_write_def os_call_def Let_def overwrite_def at_end_def)

lemma Append_one_write:
  assumes st: "wal_state b es (w, os)" and nb: "\<not> bwerr (writer w)" and m: "syncMode w = SyncNone"
    and e: "e = newEntry (wsequence w + 1) op k v" and fits: "length (encEntry e) \<le> bufcap (writer w)"
    and o: "outcomes os = a # rs"
  shows "\<exists>w' os'. Wal_Append op k v (w, os) = (if a = OsOk then Inr (wsequence w + 1) else Inl ErrIO, w', os') \<and>
    outcomes os' = rs \<and> (a = OsOk \<longrightarrow> \<not> bwerr (writer w')) \<and> (a = OsFail 0 \<longrightarrow> wdata (w', os') = wdata (w, os))"
proof -
  have b: "buf (writer w) = []" and h: "hopen (wfile w)" using st nb by (simp_all add: wal_state_def ready_def at_end_def)
  have ne: "encEntry e \<noteq> []" using encEntry_length [of e] by auto
  have ae: "at_end (wfile w) os" using st by (simp add: wal_state_def ready_def)
  define w2 where "w2 = w\<lparr>wsequence := wsequence w + 1, writer := (writer w)\<lparr>buf := encEntry e\<rparr>,
    totalBytes := totalBytes w + of_nat (4 + entryLen e), totalWrites := totalWrites w + 1, batchCount := batchCount w + 1\<rparr>"
  have A: "Wal_Append op k v (w, os) = andThen (onWriter bw_Flush) (\<lambda>_. ret (wsequence w + 1)) (w2, os)"
    using writeEntry_fits [of "w\<lparr>wsequence := wsequence w + 1\<rparr>" e os] nb b fits m e
    by (simp add: Wal_Append_def Let_def andThen_def modify_def maybeSync_def w2_def)
  have "wfile w2 = wfile w" "\<not> bwerr (writer w2)" "buf (writer w2) \<noteq> []" using nb ne by (simp_all add: w2_def)
  with flush_one [of "wfile w2" os "writer w2"] ae o obtain h' b' os' where
    "bw_Flush (wfile w2, writer w2, os) = (a = OsOk, h', b', os')" "outcomes os' = rs" "a = OsOk \<longrightarrow> \<not> bwerr b'"
    "a = OsFail 0 \<longrightarrow> fdata h' os' = fdata (wfile w) os" by auto
  then show ?thesis unfolding A by (simp add: andThen_def onWriter_def ret_def)
qed

text \<open>Of a batch whose write number \<open>j\<close> fails, the log keeps the first \<open>j\<close> pairs.\<close>

lemma bulkLog_partial:
  assumes "wal_state b es (w, os)" "\<not> bwerr (writer w)" "syncMode w = SyncNone"
    "\<forall>kv \<in> set ps. 25 + length (bytes_of (fst kv)) + length (bytes_of (snd kv)) \<le> bufcap (writer w)"
    "outcomes os = replicate j OsOk @ OsFail 0 # rs" "j < length ps"
  shows "\<exists>w' os'. bulkLog ps (w, os) = (Inl ErrIO, w', os') \<and> same_log w w' \<and>
    wal_state b (es @ entriesFrom (wsequence w) (pair_ops (take j ps))) (w', os') \<and>
    wdata (w', os') = b @ encAll (es @ entriesFrom (wsequence w) (pair_ops (take j ps)))"
  using assms
proof (induction ps arbitrary: w os es j)
  case (Cons kv ps)
  let ?e = "newEntry (wsequence w + 1) OpInsert (fst kv) (snd kv)"
  have fits: "length (encEntry ?e) \<le> bufcap (writer w)"
    using Cons.prems(4) by (simp add: encEntry_length entryLen_def newEntry_def Let_def)
  show ?case
  proof (cases j)
    case 0
    then obtain w' os' where A: "Wal_Append OpInsert (fst kv) (snd kv) (w, os) = (Inl ErrIO, w', os')" "wdata (w', os') = wdata (w, os)"
      using Append_one_write [OF Cons.prems(1-3) refl fits] Cons.prems(5) by auto
    have d: "wdata (w, os) = b @ encAll es" using Cons.prems(1,2) by (simp add: wal_state_def)
    have rd: "ready (w, os)" using Cons.prems(1) by (simp add: wal_state_def)
    note S = Wal_Append_state [OF Cons.prems(1) A(1) refl]
    have "wal_state b es (w', os')"
      using S A(2) d by (auto simp: wal_state_def split: if_splits)
    then show ?thesis using A d 0 S by (simp add: andThen_def AppendInsert_def)
  next
    case (Suc i)
    then obtain w1 os1 where A: "Wal_Append OpInsert (fst kv) (snd kv) (w, os) = (Inr (wsequence w + 1), w1, os1)"
      "\<not> bwerr (writer w1)" "outcomes os1 = replicate i OsOk @ OsFail 0 # rs"
      using Append_one_write [OF Cons.prems(1-3) refl fits] Cons.prems(5) by auto
    note S = Wal_Append_state [OF Cons.prems(1) A(1) refl]
    have L: "bufcap (writer w1) = bufcap (writer w)" "syncMode w1 = SyncNone" "wsequence w1 = wsequence w + 1"
      using S Cons.prems(3) by (simp_all add: same_log_def)
    obtain w' os' where "bulkLog ps (w1, os1) = (Inl ErrIO, w', os')" "same_log w1 w'"
      "wal_state b ((es @ [?e]) @ entriesFrom (wsequence w1) (pair_ops (take i ps))) (w', os')"
      "wdata (w', os') = b @ encAll ((es @ [?e]) @ entriesFrom (wsequence w1) (pair_ops (take i ps)))"
      using Cons.IH [OF S [THEN conjunct1] A(2) L(2) _ A(3)] Cons.prems(4,6) Suc L(1) by auto
    moreover from this(2) have "same_log w w'" using S by (auto simp: same_log_def same_handle_def)
    ultimately show ?thesis using A(1) Suc L(3) by (simp add: andThen_def AppendInsert_def prod.case_eq_if)
  qed
qed simp

text \<open>
  C39. The comment on \<open>BulkInsert\<close> promises an atomic batch.  If, in mode \<open>SyncNone\<close>
  and with entries that fit the buffer, the log's write for the pair at index \<open>j\<close> fails without
  writing a byte, the call returns an error and leaves the tree unchanged, but the first \<open>j\<close> pairs are
  in the log: a restart applies them.
\<close>

theorem Durable_BulkInsert_partial:
  assumes "shards_ok numCPU config" "wal_state walHeader es (dwal db, os)" "\<not> bwerr (writer (dwal db))"
    "wpath (dwal db) = dcWALPath config" "dcWALPath config \<noteq> []" "list_all entry_ok es"
    "applyAll (map entry_copy es) (newTree numCPU config) = Some (dtree db)"
    "length ks = length vs" "list_all ok_pair (zip ks vs)" "syncMode (dwal db) = SyncNone"
    "\<forall>kv \<in> set (zip ks vs). 25 + length (bytes_of (fst kv)) + length (bytes_of (snd kv)) \<le> bufcap (writer (dwal db))"
    "outcomes os = replicate j OsOk @ OsFail 0 # rs" "j < length ks"
  shows "\<exists>db' os' db2. Durable_BulkInsert sched ks vs (db, os) = Some (Inl ErrIO, db', os') \<and> dtree db' = dtree db \<and>
    NewDurableBTree numCPU config (os'\<lparr>outcomes := []\<rparr>) = Some (Inr db2, os'\<lparr>outcomes := []\<rparr>) \<and>
    insert_all (dtree db) (take j (zip ks vs)) = Some (dtree db2)"
proof -
  let ?ps = "zip ks vs"
  let ?fs = "entriesFrom (wsequence (dwal db)) (pair_ops (take j ?ps))"
  obtain w' os' where L: "bulkLog ?ps (dwal db, os) = (Inl ErrIO, w', os')" "same_log (dwal db) w'"
    "wal_state walHeader (es @ ?fs) (w', os')" "wdata (w', os') = walHeader @ encAll (es @ ?fs)"
    using bulkLog_partial [OF assms(2,3,10,11,12)] assms(8,13) by auto
  have ok: "list_all ok_pair (take j ?ps)" using assms(9) by (auto simp: list_all_iff dest: in_set_takeD)
  have "list_all entry_ok (es @ ?fs)" using assms(6) entriesFrom_ok [OF pair_ops_small [OF ok]] by simp
  from reopen_store [OF assms(1) L(3) _ assms(5) this] L(2) assms(4) obtain m db2 where
    m: "NewDurableBTree numCPU config (os'\<lparr>outcomes := []\<rparr>) = Some (Inr db2, os'\<lparr>outcomes := []\<rparr>)"
    "m \<le> length (es @ ?fs)" "applyAll (take m (map entry_copy (es @ ?fs))) (newTree numCPU config) = Some (dtree db2)"
    "\<forall>i < length (es @ ?fs). acked walHeader (es @ ?fs) (length (wdata (w', os'))) i \<longrightarrow> i < m"
    by (auto simp: same_log_def)
  have "length (es @ ?fs) \<le> m"
  proof (cases "es @ ?fs = []")
    case False
    then show ?thesis
      using acked_whole [OF False, of walHeader "length (wdata (w', os'))" "[]"] L(4) m(4) [rule_format, of "length (es @ ?fs) - 1"]
      by (cases "es @ ?fs") auto
  qed simp
  then have "insert_all (dtree db) (take j ?ps) = Some (dtree db2)"
    using m(2,3) assms(7) applyAll_pairs [OF ok] by (simp add: applyAll_append)
  then show ?thesis using L(1) m(1) assms(8) by (simp add: Durable_BulkInsert_def andThen_def)
qed

theorem Durable_BulkInsert_partial_witness:
  "\<exists>db os db' os' db2. dtree db = newTree 4 ex_dconfig \<and>
     Durable_BulkInsert [] [Bytes [1], Bytes [2]] [Bytes [7], Bytes [8]] (db, os) = Some (Inl ErrIO, db', os') \<and>
     dtree db' = dtree db \<and>
     NewDurableBTree 4 ex_dconfig (os'\<lparr>outcomes := []\<rparr>) = Some (Inr db2, os'\<lparr>outcomes := []\<rparr>) \<and>
     insert_all (dtree db) [(Bytes [1], Bytes [7])] = Some (dtree db2)"
proof -
  let ?ks = "[Bytes [1], Bytes [2]]" and ?vs = "[Bytes [7], Bytes [8]]"
  obtain db os0 where N: "NewDurableBTree 4 ex_dconfig ex_wal_os = Some (Inr db, os0)"
    "files ex_wal_os (dcWALPath ex_dconfig) = None" by (rule ex_durable)
  note F = NewDurableBTree_fresh [OF N]
  let ?os = "os0\<lparr>outcomes := replicate 1 OsOk @ OsFail 0 # []\<rparr>"
  have st: "wal_state walHeader [] (dwal db, ?os)"
    using F by (auto simp: wal_state_def ready_def at_end_def)
  have ok: "list_all ok_pair (zip ?ks ?vs)" "length ?ks = length ?vs" "1 < length ?ks" by (simp_all add: ok_pair_def)
  have fits: "\<forall>kv \<in> set (zip ?ks ?vs). 25 + length (bytes_of (fst kv)) + length (bytes_of (snd kv)) \<le> bufcap (writer (dwal db))"
    using F by (simp add: defaultBufferSize_def)
  have *: "applyAll (map entry_copy []) (newTree 4 ex_dconfig) = Some (dtree db)" "list_all entry_ok []"
    "outcomes ?os = replicate 1 OsOk @ OsFail 0 # []" "syncMode (dwal db) = SyncNone" using F by simp_all
  obtain db' os' db2 where "Durable_BulkInsert [] ?ks ?vs (db, ?os) = Some (Inl ErrIO, db', os')" "dtree db' = dtree db"
    "NewDurableBTree 4 ex_dconfig (os'\<lparr>outcomes := []\<rparr>) = Some (Inr db2, os'\<lparr>outcomes := []\<rparr>)"
    "insert_all (dtree db) (take 1 (zip ?ks ?vs)) = Some (dtree db2)"
    using Durable_BulkInsert_partial [OF ex_dconfig(1) st _ _ _ *(2,1) ok(2,1) *(4) fits *(3) ok(3)] F by blast
  moreover from this(4) have "insert_all (dtree db) [(Bytes [1], Bytes [7])] = Some (dtree db2)" by simp
  moreover have "dtree db = newTree 4 ex_dconfig" using F by simp
  ultimately show ?thesis by blast
qed

end
