(* ===== verification/Secondary_Index.thy ===== *)
theory Secondary_Index
  imports Sharded_Store Byte_Codec
begin

text \<open>
  Secondary indexes, \<^verbatim>\<open>src/bptree/secondary_index.go\<close>: a sharded tree from index keys
  to primary keys (unique index) or to encoded lists of primary keys.

  A \<^verbatim>\<open>KeyExtractor\<close> is a function that may panic (\<open>None\<close>) and may return nil.  The
  number of shards of an index is positive, so its tree does not read the number of processors.
  The mutex \<^verbatim>\<open>mu\<close> makes each operation one step.  \<^verbatim>\<open>int\<close> is the mathematical one.
\<close>

section \<open>State\<close>

type_synonym KeyExtractor = "Valuetype \<Rightarrow> slice option"

record SecondaryIndex =
  iname :: string
  itree :: ShardedBTree
  extractor :: KeyExtractor
  unique :: bool
  ientries :: "64 word"

record IndexConfig =
  icName :: string
  icExtractor :: KeyExtractor
  icUnique :: bool
  icNumShards :: int

record IndexStats =
  isName :: string
  isEntries :: "64 word"
  isUnique :: bool
  isTreeStats :: ShardStats

definition NewSecondaryIndex :: "IndexConfig \<Rightarrow> SecondaryIndex" where
  "NewSecondaryIndex config =
     (let n = (if icNumShards config \<le> 0 then 4 else icNumShards config) in
      \<lparr>iname = icName config, itree = NewShardedBTree 1 \<lparr>cfgNumShards = n\<rparr>,
       extractor = icExtractor config, unique = icUnique config, ientries = 0\<rparr>)"

definition Idx_Name :: "SecondaryIndex \<Rightarrow> string" where
  "Idx_Name idx = iname idx"

definition Idx_IsUnique :: "SecondaryIndex \<Rightarrow> bool" where
  "Idx_IsUnique idx = unique idx"

section \<open>Lists of primary keys\<close>

definition encodePrimaryKeys :: "slice list \<Rightarrow> slice" where
  "encodePrimaryKeys ks =
     Bytes (PutUint32 (of_nat (length ks)) @
       concat (map (\<lambda>k. PutUint32 (of_nat (length (bytes_of k))) @ bytes_of k) ks))"

text \<open>The decoding loop, with the number of turns that are left.\<close>

primrec decodeLoop :: "nat \<Rightarrow> nat \<Rightarrow> bytes \<Rightarrow> slice list \<Rightarrow> slice list" where
  "decodeLoop 0 offset dat ks = ks"
| "decodeLoop (Suc n) offset dat ks =
     (if \<not> offset < length dat then ks
      else if offset + 4 > length dat then ks
      else
        let keyLen = unat (get_le (take 4 (drop offset dat)) :: 32 word);
            offset1 = offset + 4
        in if offset1 + keyLen > length dat then ks
           else decodeLoop n (offset1 + keyLen) dat (ks @ [Bytes (take keyLen (drop offset1 dat))]))"

definition decodePrimaryKeys :: "slice \<Rightarrow> slice list" where
  "decodePrimaryKeys s =
     (let dat = bytes_of s in
      if length dat < 4 then []
      else decodeLoop (unat (get_le (take 4 dat) :: 32 word)) 4 dat [])"

section \<open>Maintenance\<close>

definition Idx_Index :: "Keytype \<Rightarrow> Valuetype \<Rightarrow> SecondaryIndex \<Rightarrow> ((go_error + unit) \<times> SecondaryIndex) option" where
  "Idx_Index primaryKey val idx =
     do {
       indexKey \<leftarrow> extractor idx val;
       if indexKey = NilSlice then Some (Inr (), idx)
       else if unique idx then
         do {
           (r, tree) \<leftarrow> Sharded_Find (itree idx) indexKey;
           (case r of
              Inr _ \<Rightarrow> Some (Inl ErrDuplicateKey, idx\<lparr>itree := tree\<rparr>)
            | Inl _ \<Rightarrow>
                do {
                  tree' \<leftarrow> Sharded_Insert tree indexKey primaryKey;
                  Some (Inr (), idx\<lparr>itree := tree', ientries := ientries idx + 1\<rparr>)
                })
         }
       else
         do {
           (r, tree) \<leftarrow> Sharded_Find (itree idx) indexKey;
           (case r of
              Inl _ \<Rightarrow>
                do {
                  tree' \<leftarrow> Sharded_Insert tree indexKey (encodePrimaryKeys [primaryKey]);
                  Some (Inr (), idx\<lparr>itree := tree', ientries := ientries idx + 1\<rparr>)
                }
            | Inr existing \<Rightarrow>
                let ks = decodePrimaryKeys existing in
                if list_ex (\<lambda>k. bytes_Equal k primaryKey) ks then Some (Inr (), idx\<lparr>itree := tree\<rparr>)
                else
                  do {
                    tree' \<leftarrow> Sharded_Insert tree indexKey (encodePrimaryKeys (ks @ [primaryKey]));
                    Some (Inr (), idx\<lparr>itree := tree', ientries := ientries idx + 1\<rparr>)
                  })
         }
     }"

definition decEntries :: "SecondaryIndex \<Rightarrow> SecondaryIndex" where
  "decEntries idx = (if ientries idx > 0 then idx\<lparr>ientries := ientries idx - 1\<rparr> else idx)"

definition Idx_Remove :: "Keytype \<Rightarrow> Valuetype \<Rightarrow> SecondaryIndex \<Rightarrow> ((go_error + unit) \<times> SecondaryIndex) option" where
  "Idx_Remove primaryKey val idx =
     do {
       indexKey \<leftarrow> extractor idx val;
       if indexKey = NilSlice then Some (Inr (), idx)
       else if unique idx then
         do {
           (_, tree) \<leftarrow> Sharded_Delete (itree idx) indexKey;
           Some (Inr (), decEntries (idx\<lparr>itree := tree\<rparr>))
         }
       else
         do {
           (r, tree) \<leftarrow> Sharded_Find (itree idx) indexKey;
           (case r of
              Inl _ \<Rightarrow> Some (Inr (), idx\<lparr>itree := tree\<rparr>)
            | Inr existing \<Rightarrow>
                let newKeys = filter (\<lambda>k. \<not> bytes_Equal k primaryKey) (decodePrimaryKeys existing) in
                do {
                  tree' \<leftarrow> (if length newKeys = 0 then map_option snd (Sharded_Delete tree indexKey)
                            else Sharded_Insert tree indexKey (encodePrimaryKeys newKeys));
                  Some (Inr (), decEntries (idx\<lparr>itree := tree'\<rparr>))
                })
         }
     }"

definition Idx_Update ::
  "Keytype \<Rightarrow> Valuetype \<Rightarrow> Valuetype \<Rightarrow> SecondaryIndex \<Rightarrow> ((go_error + unit) \<times> SecondaryIndex) option" where
  "Idx_Update primaryKey oldValue newValue idx =
     do {
       oldIndexKey \<leftarrow> extractor idx oldValue;
       newIndexKey \<leftarrow> extractor idx newValue;
       if bytes_Equal oldIndexKey newIndexKey then Some (Inr (), idx)
       else
         do {
           (r, idx1) \<leftarrow> Idx_Remove primaryKey oldValue idx;
           (case r of
              Inl err \<Rightarrow> Some (Inl err, idx1)
            | Inr _ \<Rightarrow> Idx_Index primaryKey newValue idx1)
         }
     }"

section \<open>Queries\<close>

definition Idx_FindOne :: "slice \<Rightarrow> SecondaryIndex \<Rightarrow> ((go_error + Keytype) \<times> SecondaryIndex) option" where
  "Idx_FindOne indexKey idx =
     (if \<not> unique idx then Some (Inl ErrNotUnique, idx)
      else
        do {
          (r, tree) \<leftarrow> Sharded_Find (itree idx) indexKey;
          Some (r, idx\<lparr>itree := tree\<rparr>)
        })"

definition Idx_FindAll :: "slice \<Rightarrow> SecondaryIndex \<Rightarrow> ((go_error + Keytype list) \<times> SecondaryIndex) option" where
  "Idx_FindAll indexKey idx =
     do {
       (r, tree) \<leftarrow> Sharded_Find (itree idx) indexKey;
       Some (case r of
               Inl err \<Rightarrow> Inl err
             | Inr val \<Rightarrow> Inr (if unique idx then [val] else decodePrimaryKeys val),
             idx\<lparr>itree := tree\<rparr>)
     }"

definition Idx_FindRange :: "slice \<Rightarrow> slice \<Rightarrow> SecondaryIndex \<Rightarrow> (go_error + Keytype list) option" where
  "Idx_FindRange startKey endKey idx =
     do {
       r \<leftarrow> Sharded_GetRange (itree idx) startKey endKey;
       (case r of
          Inl err \<Rightarrow> Some (Inl err)
        | Inr (_, vs) \<Rightarrow>
            Some (Inr (concat (map (\<lambda>v. if unique idx then [v] else decodePrimaryKeys v) vs))))
     }"

definition Idx_Count :: "SecondaryIndex \<Rightarrow> 64 word" where
  "Idx_Count idx = ientries idx"

definition Idx_Stats :: "SecondaryIndex \<Rightarrow> IndexStats option" where
  "Idx_Stats idx =
     do {
       ts \<leftarrow> Sharded_Stats (itree idx);
       Some \<lparr>isName = iname idx, isEntries = ientries idx, isUnique = unique idx, isTreeStats = ts\<rparr>
     }"

definition Idx_Clear :: "SecondaryIndex \<Rightarrow> SecondaryIndex" where
  "Idx_Clear idx = idx\<lparr>itree := Sharded_Clear (itree idx), ientries := 0\<rparr>"

section \<open>Extractors\<close>

text \<open>\<^verbatim>\<open>bytes.Index\<close>: the first position at which the pattern starts.\<close>

fun bytes_Index :: "bytes \<Rightarrow> bytes \<Rightarrow> nat option" where
  "bytes_Index [] pat = (if pat = [] then Some 0 else None)"
| "bytes_Index (c # cs) pat = (if prefix pat (c # cs) then Some 0 else map_option Suc (bytes_Index cs pat))"

text \<open>The scanning loops \<^verbatim>\<open>for i < len(value) && p(value[i]) { i++ }\<close>.\<close>

function scanWhile :: "(byte \<Rightarrow> bool) \<Rightarrow> bytes \<Rightarrow> nat \<Rightarrow> nat" where
  "scanWhile p v i = (if i < length v \<and> p (v ! i) then scanWhile p v (i + 1) else i)"
  by pat_completeness auto
termination
  by (relation "measure (\<lambda>(p, v, i). length v - i)") auto

declare scanWhile.simps [simp del]

definition searchPattern :: "string \<Rightarrow> bytes" where
  "searchPattern fieldName = map of_char ([CHR 0x22] @ fieldName @ [CHR 0x22] @ '':'')"

text \<open>The bytes are a quote (34), a comma (44), a closing brace (125), a blank (32) and a tab (9).\<close>

definition JSONFieldExtractor :: "string \<Rightarrow> KeyExtractor" where
  "JSONFieldExtractor fieldName val =
     (let v = bytes_of val; pat = searchPattern fieldName in
      Some (case bytes_Index v pat of
          None \<Rightarrow> NilSlice
        | Some ix \<Rightarrow>
            let start = scanWhile (\<lambda>c. c = 32 \<or> c = 9) v (ix + length pat) in
            if start \<ge> length v then NilSlice
            else if v ! start = 34 then
              let start1 = start + 1; fin = scanWhile (\<lambda>c. c \<noteq> 34) v start1 in
              if fin = start1 then NilSlice else Bytes (drop start1 (take fin v))
            else
              let fin = scanWhile (\<lambda>c. c \<noteq> 44 \<and> c \<noteq> 125 \<and> c \<noteq> 32) v start in
              if fin > start then Bytes (drop start (take fin v)) else NilSlice))"

text \<open>Slicing: a slice of nil is nil, bounds outside of the slice or in the wrong order panic.\<close>

definition slice_of :: "slice \<Rightarrow> int \<Rightarrow> int \<Rightarrow> slice option" where
  "slice_of s lo hi =
     (if 0 \<le> lo \<and> lo \<le> hi \<and> hi \<le> int (length (bytes_of s)) then
        Some (case s of NilSlice \<Rightarrow> NilSlice | Bytes bs \<Rightarrow> Bytes (drop (nat lo) (take (nat hi) bs)))
      else None)"

definition PrefixExtractor :: "int \<Rightarrow> KeyExtractor" where
  "PrefixExtractor len val =
     (if int (length (bytes_of val)) < len then Some val else slice_of val 0 len)"

definition OffsetExtractor :: "int \<Rightarrow> int \<Rightarrow> KeyExtractor" where
  "OffsetExtractor offset len val =
     (if int (length (bytes_of val)) < offset + len then Some NilSlice
      else slice_of val offset (offset + len))"

primrec compositeLoop :: "KeyExtractor list \<Rightarrow> Valuetype \<Rightarrow> slice \<Rightarrow> slice option" where
  "compositeLoop [] val result = Some result"
| "compositeLoop (ext # exts) val result =
     do {
       part \<leftarrow> ext val;
       if part = NilSlice then Some NilSlice
       else compositeLoop exts val
         (Bytes (bytes_of result @ PutUint32 (of_nat (length (bytes_of part))) @ bytes_of part))
     }"

definition CompositeExtractor :: "KeyExtractor list \<Rightarrow> KeyExtractor" where
  "CompositeExtractor extractors val = compositeLoop extractors val NilSlice"

end
