(* ===== verification/Index_Store.thy ===== *)
theory Index_Store
  imports Secondary_Index
begin

text \<open>
  The contract of a secondary index and its proof for \<open>SecondaryIndex\<close>, the round trip of
  the key lists, and the extractors.
\<close>

section \<open>Lists of primary keys\<close>

definition small_keys :: "slice list \<Rightarrow> bool" where
  "small_keys ks \<longleftrightarrow> length ks < 2 ^ 32 \<and> (\<forall>k \<in> set ks. length (bytes_of k) < 2 ^ 32)"

lemma unat_of_nat32: "n < 2 ^ 32 \<Longrightarrow> unat (of_nat n :: 32 word) = n"
  by (simp add: unat_of_nat)

abbreviation encKey :: "slice \<Rightarrow> bytes" where
  "encKey k \<equiv> PutUint32 (of_nat (length (bytes_of k))) @ bytes_of k"

lemma decodeLoop_enc:
  "\<forall>k \<in> set ks. length (bytes_of k) < 2 ^ 32 \<Longrightarrow>
   decodeLoop (length ks) (length pre) (pre @ concat (map encKey ks)) acc = acc @ map slice_copy ks"
proof (induction ks arbitrary: pre acc)
  case (Cons k ks)
  let ?rest = "concat (map encKey ks)"
  let ?len = "PutUint32 (of_nat (length (bytes_of k)))"
  have n: "unat (get_le ?len :: 32 word) = length (bytes_of k)" using Cons.prems by (simp add: unat_of_nat32 del: put_le.simps)
  have IH: "decodeLoop (length ks) (length (pre @ encKey k)) ((pre @ encKey k) @ ?rest) (acc @ [slice_copy k]) =
      (acc @ [slice_copy k]) @ map slice_copy ks"
    using Cons.prems by (intro Cons.IH) simp
  have "decodeLoop (length (k # ks)) (length pre) (pre @ concat (map encKey (k # ks))) acc =
      decodeLoop (length ks) (length (pre @ encKey k)) ((pre @ encKey k) @ ?rest) (acc @ [slice_copy k])"
    using n by (simp add: Let_def slice_copy_def add.assoc del: put_le.simps)
  then show ?case using IH by simp
qed simp

lemma decode_encode:
  assumes "small_keys ks"
  shows "decodePrimaryKeys (encodePrimaryKeys ks) = map slice_copy ks"
proof -
  have "decodeLoop (length ks) (length (PutUint32 (of_nat (length ks))))
      (PutUint32 (of_nat (length ks)) @ concat (map encKey ks)) [] = [] @ map slice_copy ks"
    by (rule decodeLoop_enc) (use assms in \<open>simp add: small_keys_def\<close>)
  then show ?thesis
    using assms by (simp add: decodePrimaryKeys_def encodePrimaryKeys_def small_keys_def unat_of_nat32 Let_def del: put_le.simps)
qed

lemma decode_copy [simp]: "decodePrimaryKeys (slice_copy v) = decodePrimaryKeys v"
  by (simp add: decodePrimaryKeys_def)

section \<open>The contract\<close>

text \<open>The index key of a record: none if the extractor answers nil.\<close>

definition index_of :: "KeyExtractor \<Rightarrow> Valuetype \<Rightarrow> bytes option" where
  "index_of e v = (case e v of Some (Bytes b) \<Rightarrow> Some b | _ \<Rightarrow> None)"

lemma index_of_Some: "index_of e v = Some b \<longleftrightarrow> e v = Some (Bytes b)"
  by (auto simp: index_of_def split: option.splits slice.splits)

lemma index_of_None: "e v \<noteq> None \<Longrightarrow> index_of e v = None \<longleftrightarrow> e v = Some NilSlice"
  by (auto simp: index_of_def split: option.splits slice.splits)

text \<open>\<open>tracks ks e m\<close>: under every index key, \<open>ks\<close> lists the primary keys of the records with that index key.\<close>

definition tracks :: "(bytes \<Rightarrow> bytes list) \<Rightarrow> KeyExtractor \<Rightarrow> (bytes \<rightharpoonup> Valuetype) \<Rightarrow> bool" where
  "tracks ks e m \<longleftrightarrow> (\<forall>b p. p \<in> set (ks b) \<longleftrightarrow> (\<exists>v. m p = Some v \<and> index_of e v = Some b))"

locale index_store =
  fixes inv :: "'i \<Rightarrow> bool"
    and keys_of :: "'i \<Rightarrow> bytes \<Rightarrow> bytes list"
    and ext :: "'i \<Rightarrow> KeyExtractor"
    and uniq :: "'i \<Rightarrow> bool"
    and grow_ok :: "'i \<Rightarrow> bytes \<Rightarrow> bool"
    and shrink_ok :: "'i \<Rightarrow> bytes \<Rightarrow> bytes \<Rightarrow> bool"
    and add :: "Keytype \<Rightarrow> Valuetype \<Rightarrow> 'i \<Rightarrow> ((go_error + unit) \<times> 'i) option"
    and rem :: "Keytype \<Rightarrow> Valuetype \<Rightarrow> 'i \<Rightarrow> ((go_error + unit) \<times> 'i) option"
    and fnd :: "slice \<Rightarrow> 'i \<Rightarrow> ((go_error + Keytype list) \<times> 'i) option"
  assumes skip_law: "ext i v = Some NilSlice \<Longrightarrow> add pk v i = Some (Inr (), i) \<and> rem pk v i = Some (Inr (), i)"
    and dup_law: "inv i \<Longrightarrow> uniq i \<Longrightarrow> index_of (ext i) v = Some b \<Longrightarrow> keys_of i b \<noteq> [] \<Longrightarrow>
      \<exists>i'. add pk v i = Some (Inl ErrDuplicateKey, i') \<and> inv i' \<and> keys_of i' = keys_of i \<and> ext i' = ext i \<and> uniq i' = uniq i"
    and add_law: "inv i \<Longrightarrow> index_of (ext i) v = Some b \<Longrightarrow> bytes_of pk \<notin> set (keys_of i b) \<Longrightarrow> grow_ok i b \<Longrightarrow>
      length (bytes_of pk) < 2 ^ 32 \<Longrightarrow>
      \<exists>i'. add pk v i = Some (Inr (), i') \<and> inv i' \<and> keys_of i' = (keys_of i)(b := keys_of i b @ [bytes_of pk]) \<and>
        ext i' = ext i \<and> uniq i' = uniq i"
    and rem_law: "inv i \<Longrightarrow> index_of (ext i) v = Some b \<Longrightarrow> (uniq i \<Longrightarrow> set (keys_of i b) \<subseteq> {bytes_of pk}) \<Longrightarrow>
      shrink_ok i b (bytes_of pk) \<Longrightarrow>
      \<exists>i'. rem pk v i = Some (Inr (), i') \<and> inv i' \<and>
        keys_of i' = (keys_of i)(b := filter (\<lambda>p. p \<noteq> bytes_of pk) (keys_of i b)) \<and> ext i' = ext i \<and> uniq i' = uniq i"
    and find_law: "inv i \<Longrightarrow>
      \<exists>i'. fnd ik i = Some (if keys_of i (bytes_of ik) = [] then Inl ErrKeyNotFound else Inr (map Bytes (keys_of i (bytes_of ik))), i') \<and>
        inv i' \<and> keys_of i' = keys_of i \<and> ext i' = ext i \<and> uniq i' = uniq i"
    and uniq_law: "inv i \<Longrightarrow> uniq i \<Longrightarrow> length (keys_of i b) \<le> 1"
    and fresh_grow: "inv i \<Longrightarrow> keys_of i b = [] \<Longrightarrow> grow_ok i b"
begin

text \<open>Indexing a new record.\<close>

lemma add_tracks:
  assumes inv: "inv i" and tot: "ext i v \<noteq> None" and tr: "tracks (keys_of i) (ext i) m" and new: "m (bytes_of pk) = None"
    and len: "length (bytes_of pk) < 2 ^ 32" and ok: "\<And>b. index_of (ext i) v = Some b \<Longrightarrow> grow_ok i b"
  shows "\<exists>i'. add pk v i = Some (Inr (), i') \<and> inv i' \<and> tracks (keys_of i') (ext i') (m(bytes_of pk \<mapsto> v)) \<and>
    ext i' = ext i \<and> uniq i' = uniq i"
proof (cases "index_of (ext i) v")
  case None
  then have "add pk v i = Some (Inr (), i)" using skip_law [of i v] index_of_None [of "ext i" v] tot by simp
  moreover have "tracks (keys_of i) (ext i) (m(bytes_of pk \<mapsto> v))"
    using tr None new unfolding tracks_def by (metis fun_upd_apply option.distinct(1) option.inject)
  ultimately show ?thesis using inv by simp
next
  case (Some b)
  have notin: "bytes_of pk \<notin> set (keys_of i b')" for b' using tr new unfolding tracks_def by fastforce
  obtain i' where i': "add pk v i = Some (Inr (), i')" "inv i'" "keys_of i' = (keys_of i)(b := keys_of i b @ [bytes_of pk])"
    "ext i' = ext i" "uniq i' = uniq i"
    using add_law [OF inv Some notin ok [OF Some] len] by blast
  have "p \<in> set (keys_of i' b') \<longleftrightarrow> (\<exists>w. (m(bytes_of pk \<mapsto> v)) p = Some w \<and> index_of (ext i) w = Some b')" for b' p
  proof (cases "p = bytes_of pk")
    case True
    then show ?thesis using notin [of b'] i'(3) Some by auto
  next
    case False
    then have "p \<in> set (keys_of i' b') \<longleftrightarrow> p \<in> set (keys_of i b')" using i'(3) by simp
    then show ?thesis using False tr by (simp add: tracks_def)
  qed
  then have "tracks (keys_of i') (ext i') (m(bytes_of pk \<mapsto> v))" using i'(4) by (simp add: tracks_def)
  then show ?thesis using i' by blast
qed

text \<open>Removing a record.\<close>

lemma rem_tracks:
  assumes inv: "inv i" and tot: "ext i v \<noteq> None" and tr: "tracks (keys_of i) (ext i) m" and old: "m (bytes_of pk) = Some v"
    and ok: "\<And>b. index_of (ext i) v = Some b \<Longrightarrow> shrink_ok i b (bytes_of pk)"
  shows "\<exists>i'. rem pk v i = Some (Inr (), i') \<and> inv i' \<and> tracks (keys_of i') (ext i') (m(bytes_of pk := None)) \<and>
    ext i' = ext i \<and> uniq i' = uniq i"
proof (cases "index_of (ext i) v")
  case None
  then have "rem pk v i = Some (Inr (), i)" using skip_law [of i v] index_of_None [of "ext i" v] tot by simp
  moreover have "tracks (keys_of i) (ext i) (m(bytes_of pk := None))"
    using tr None old unfolding tracks_def by (metis fun_upd_apply option.distinct(1) option.inject)
  ultimately show ?thesis using inv by simp
next
  case (Some b)
  have mem: "bytes_of pk \<in> set (keys_of i b)" using tr old Some by (auto simp: tracks_def)
  then have u: "set (keys_of i b) \<subseteq> {bytes_of pk}" if "uniq i"
    using uniq_law [OF inv that, of b] by (cases "keys_of i b") auto
  obtain i' where i': "rem pk v i = Some (Inr (), i')" "inv i'"
    "keys_of i' = (keys_of i)(b := filter (\<lambda>p. p \<noteq> bytes_of pk) (keys_of i b))" "ext i' = ext i" "uniq i' = uniq i"
    using rem_law [OF inv Some u ok [OF Some]] by blast
  have other: "bytes_of pk \<notin> set (keys_of i b')" if "b' \<noteq> b" for b' using tr old Some that by (auto simp: tracks_def)
  have "p \<in> set (keys_of i' b') \<longleftrightarrow> (\<exists>w. (m(bytes_of pk := None)) p = Some w \<and> index_of (ext i) w = Some b')" for b' p
  proof (cases "p = bytes_of pk")
    case True
    then show ?thesis using other [of b'] i'(3) by auto
  next
    case False
    then have "p \<in> set (keys_of i' b') \<longleftrightarrow> p \<in> set (keys_of i b')" using i'(3) by simp
    then show ?thesis using False tr by (simp add: tracks_def)
  qed
  then have "tracks (keys_of i') (ext i') (m(bytes_of pk := None))" using i'(4) by (simp add: tracks_def)
  then show ?thesis using i' by blast
qed

text \<open>A lookup lists the primary keys of exactly the matching records.\<close>

lemma find_tracks:
  assumes "inv i" "tracks (keys_of i) (ext i) m"
  shows "\<exists>ps i'. fnd (Bytes b) i = Some (if ps = [] then Inl ErrKeyNotFound else Inr (map Bytes ps), i') \<and>
    set ps = {p. \<exists>v. m p = Some v \<and> index_of (ext i) v = Some b}"
proof -
  have "set (keys_of i b) = {p. \<exists>v. m p = Some v \<and> index_of (ext i) v = Some b}" using assms(2) by (auto simp: tracks_def)
  moreover obtain i' where "fnd (Bytes b) i = Some (if keys_of i b = [] then Inl ErrKeyNotFound else Inr (map Bytes (keys_of i b)), i')"
    using find_law [OF assms(1), of "Bytes b"] by auto
  ultimately show ?thesis by blast
qed

text \<open>In a unique index at most one record has an index key.\<close>

lemma uniq_tracks:
  assumes "inv i" "uniq i" "tracks (keys_of i) (ext i) m" "m p = Some v" "m q = Some w"
    "index_of (ext i) v = Some b" "index_of (ext i) w = Some b"
  shows "p = q"
proof -
  have "p \<in> set (keys_of i b)" "q \<in> set (keys_of i b)" using assms by (auto simp: tracks_def)
  then show ?thesis using uniq_law [OF assms(1,2), of b] by (cases "keys_of i b") auto
qed

end

section \<open>The indexes of StunDB\<close>

definition idx_inv :: "SecondaryIndex \<Rightarrow> bool" where
  "idx_inv idx \<longleftrightarrow> shard_inv (itree idx) \<and>
     (\<not> unique idx \<longrightarrow> (\<forall>b v. shard_map (itree idx) b = Some v \<longrightarrow>
        (\<exists>ks. v = encodePrimaryKeys ks \<and> small_keys ks \<and> ks \<noteq> [] \<and> distinct (map bytes_of ks))))"

definition val_keys :: "bool \<Rightarrow> Valuetype option \<Rightarrow> bytes list" where
  "val_keys u r = (case r of None \<Rightarrow> [] | Some v \<Rightarrow> if u then [bytes_of v] else map bytes_of (decodePrimaryKeys v))"

definition idx_keys :: "SecondaryIndex \<Rightarrow> bytes \<Rightarrow> bytes list" where
  "idx_keys idx b = val_keys (unique idx) (shard_map (itree idx) b)"

text \<open>
  A list can be replaced where the tree's insert updates: not at a key of an internal node.
  A unique index never replaces.
\<close>

definition idx_grow_ok :: "SecondaryIndex \<Rightarrow> bytes \<Rightarrow> bool" where
  "idx_grow_ok idx b \<longleftrightarrow> idx_keys idx b = [] \<or>
     \<not> unique idx \<and> shard_upd_ok (itree idx) b \<and> Suc (length (idx_keys idx b)) < 2 ^ 32"

definition idx_shrink_ok :: "SecondaryIndex \<Rightarrow> bytes \<Rightarrow> bytes \<Rightarrow> bool" where
  "idx_shrink_ok idx b p \<longleftrightarrow> unique idx \<or> set (idx_keys idx b) \<subseteq> {p} \<or> shard_upd_ok (itree idx) b"

lemma val_keys_simps [simp]:
  "val_keys u None = []" "val_keys True (Some v) = [bytes_of v]" "val_keys False (Some v) = map bytes_of (decodePrimaryKeys v)"
  by (simp_all add: val_keys_def)

lemma val_keys_encode: "small_keys ks \<Longrightarrow> val_keys False (Some (encodePrimaryKeys ks)) = map bytes_of ks"
  by (simp add: decode_encode)

lemma idx_keys_update:
  assumes "unique idx' = unique idx" "shard_map (itree idx') = (shard_map (itree idx))(b := r)"
  shows "idx_keys idx' = (idx_keys idx)(b := val_keys (unique idx) r)"
  using assms by (simp add: idx_keys_def fun_eq_iff)

lemma idx_inv_update:
  assumes "idx_inv idx" "shard_inv (itree idx')" "unique idx' = unique idx" "shard_map (itree idx') = (shard_map (itree idx))(b := r)"
    "\<And>v. \<not> unique idx \<Longrightarrow> r = Some v \<Longrightarrow> \<exists>ks. v = encodePrimaryKeys ks \<and> small_keys ks \<and> ks \<noteq> [] \<and> distinct (map bytes_of ks)"
  shows "idx_inv idx'"
  using assms unfolding idx_inv_def by (metis fun_upd_apply)

lemma decEntries_simps [simp]:
  "itree (decEntries idx) = itree idx" "unique (decEntries idx) = unique idx" "extractor (decEntries idx) = extractor idx"
  by (simp_all add: decEntries_def)

text \<open>The decoded list under a key of a non-unique index.\<close>

lemma idx_list:
  assumes "idx_inv idx" "\<not> unique idx" "shard_map (itree idx) b = Some v"
  obtains ks where "decodePrimaryKeys v = ks" "map bytes_of ks = idx_keys idx b" "small_keys ks" "ks \<noteq> []" "distinct (map bytes_of ks)"
proof -
  obtain ks where ks: "v = encodePrimaryKeys ks" "small_keys ks" "ks \<noteq> []" "distinct (map bytes_of ks)"
    using assms by (auto simp: idx_inv_def)
  have m: "map bytes_of (map slice_copy ks) = map bytes_of ks" by simp
  show ?thesis
  proof (rule that [OF decode_encode [OF ks(2), folded ks(1)]])
    show "map bytes_of (map slice_copy ks) = idx_keys idx b"
      using assms(2,3) ks by (simp add: idx_keys_def decode_encode)
    show "small_keys (map slice_copy ks)" using ks(2) by (simp add: small_keys_def)
    show "distinct (map bytes_of (map slice_copy ks))" using ks(4) unfolding m .
  qed (use ks(3) in simp)
qed

lemma idx_keys_Nil: "idx_inv idx \<Longrightarrow> idx_keys idx b = [] \<longleftrightarrow> shard_map (itree idx) b = None"
proof (cases "shard_map (itree idx) b")
  case (Some v)
  assume inv: "idx_inv idx"
  show ?thesis
  proof (cases "unique idx")
    case False
    obtain ks where "map bytes_of ks = idx_keys idx b" "ks \<noteq> []" using idx_list [OF inv False Some] by metis
    then show ?thesis using Some by auto
  qed (simp add: Some idx_keys_def)
qed (simp add: idx_keys_def)

lemma idx_find:
  assumes "idx_inv idx"
  obtains tree where "Sharded_Find (itree idx) ik = Some (find_result (shard_map (itree idx) (bytes_of ik)), tree)"
    "shard_inv tree" "shard_map tree = shard_map (itree idx)" "\<And>b. shard_upd_ok tree b = shard_upd_ok (itree idx) b"
proof -
  have inv: "shard_inv (itree idx)" using assms by (simp add: idx_inv_def)
  obtain tree where t: "Sharded_Find (itree idx) ik = Some (find_result (shard_map (itree idx) (bytes_of ik)), tree)"
    "shard_inv tree" "shard_map tree = shard_map (itree idx)" using sharded.find_law [OF inv, of ik] by blast
  have "shards tree = shards (itree idx) \<and> numShards tree = numShards (itree idx)"
    using t(1) by (auto simp: Sharded_Find_def Let_def split: bind_splits)
  then have "shard_upd_ok tree b = shard_upd_ok (itree idx) b" for b by (simp add: shard_upd_ok_def route_def)
  then show ?thesis using that t by blast
qed

lemma Idx_Index_dup:
  assumes inv: "idx_inv idx" and u: "unique idx" and ik: "index_of (extractor idx) v = Some b" and ne: "idx_keys idx b \<noteq> []"
  shows "\<exists>i'. Idx_Index pk v idx = Some (Inl ErrDuplicateKey, i') \<and> idx_inv i' \<and> idx_keys i' = idx_keys idx \<and>
    extractor i' = extractor idx \<and> unique i' = unique idx"
proof -
  obtain tree where t: "Sharded_Find (itree idx) (Bytes b) = Some (find_result (shard_map (itree idx) b), tree)"
    "shard_inv tree" "shard_map tree = shard_map (itree idx)"
    using idx_find [OF inv, of "Bytes b"] by (metis bytes_of.simps(2))
  obtain w where "shard_map (itree idx) b = Some w" using ne idx_keys_Nil [OF inv] by blast
  then show ?thesis
    using ik t u inv by (auto simp: Idx_Index_def index_of_Some idx_inv_def idx_keys_def fun_eq_iff)
qed

lemma Idx_Index_new:
  assumes inv: "idx_inv idx" and ik: "index_of (extractor idx) v = Some b" and emp: "idx_keys idx b = []"
    and len: "length (bytes_of pk) < 2 ^ 32"
  shows "\<exists>i'. Idx_Index pk v idx = Some (Inr (), i') \<and> idx_inv i' \<and> idx_keys i' = (idx_keys idx)(b := [bytes_of pk]) \<and>
    extractor i' = extractor idx \<and> unique i' = unique idx"
proof -
  obtain tree where t: "Sharded_Find (itree idx) (Bytes b) = Some (Inl ErrKeyNotFound, tree)"
    "shard_inv tree" "shard_map tree = shard_map (itree idx)" "shard_map tree b = None"
    using idx_find [OF inv, of "Bytes b"] emp idx_keys_Nil [OF inv, of b] by (metis bytes_of.simps(2) find_result_simps(1))
  define w where "w = (if unique idx then pk else encodePrimaryKeys [pk])"
  obtain tree' where t': "Sharded_Insert tree (Bytes b) w = Some tree'" "shard_inv tree'" "shard_map tree' = (shard_map (itree idx))(b \<mapsto> w)"
    using sharded.insert_fresh [OF t(2), of "Bytes b" w] t(3,4) by auto
  let ?i = "idx\<lparr>itree := tree', ientries := ientries idx + 1\<rparr>"
  have "Idx_Index pk v idx = Some (Inr (), ?i)"
    using ik t(1) t'(1) by (cases "unique idx") (simp_all add: Idx_Index_def index_of_Some w_def)
  moreover have "idx_inv ?i"
    by (rule idx_inv_update [OF inv, of _ b "Some w"]) (use t' len in \<open>auto simp: w_def small_keys_def\<close>)
  moreover have "idx_keys ?i = (idx_keys idx)(b := [bytes_of pk])"
    using idx_keys_update [of ?i idx b "Some w"] t'(3) len
    by (cases "unique idx") (simp_all add: w_def decode_encode small_keys_def)
  ultimately show ?thesis by auto
qed

lemma Idx_Index_grow:
  assumes inv: "idx_inv idx" and ik: "index_of (extractor idx) v = Some b" and ne: "idx_keys idx b \<noteq> []"
    and nin: "bytes_of pk \<notin> set (idx_keys idx b)" and ok: "idx_grow_ok idx b" and len: "length (bytes_of pk) < 2 ^ 32"
  shows "\<exists>i'. Idx_Index pk v idx = Some (Inr (), i') \<and> idx_inv i' \<and>
    idx_keys i' = (idx_keys idx)(b := idx_keys idx b @ [bytes_of pk]) \<and> extractor i' = extractor idx \<and> unique i' = unique idx"
proof -
  have u: "\<not> unique idx" and up: "shard_upd_ok (itree idx) b" and sz: "Suc (length (idx_keys idx b)) < 2 ^ 32"
    using ok ne by (auto simp: idx_grow_ok_def)
  obtain old where old: "shard_map (itree idx) b = Some old" using ne idx_keys_Nil [OF inv] by blast
  obtain ks where ks: "decodePrimaryKeys old = ks" "map bytes_of ks = idx_keys idx b" "small_keys ks" "distinct (map bytes_of ks)"
    using idx_list [OF inv u old] by metis
  obtain tree where t: "Sharded_Find (itree idx) (Bytes b) = Some (Inr (slice_copy old), tree)"
    "shard_inv tree" "shard_map tree = shard_map (itree idx)" "shard_upd_ok tree b"
    using idx_find [OF inv, of "Bytes b"] old up by (metis bytes_of.simps(2) find_result_simps(2))
  let ?w = "encodePrimaryKeys (ks @ [pk])"
  have "length ks = length (idx_keys idx b)" unfolding ks(2) [symmetric] by simp
  then have small: "small_keys (ks @ [pk])" using ks(3) sz len by (auto simp: small_keys_def)
  have dist: "distinct (map bytes_of (ks @ [pk]))" using ks(4) nin unfolding ks(2) [symmetric] by simp
  obtain tree' where t': "Sharded_Insert tree (Bytes b) ?w = Some tree'" "shard_inv tree'" "shard_map tree' = (shard_map (itree idx))(b \<mapsto> ?w)"
    using sharded.insert_law [OF t(2), of "Bytes b" ?w] t(3,4) by auto
  let ?i = "idx\<lparr>itree := tree', ientries := ientries idx + 1\<rparr>"
  have "bytes_of k \<noteq> bytes_of pk" if "k \<in> set ks" for k using nin that unfolding ks(2) [symmetric] by (metis image_eqI set_map)
  then have "\<not> list_ex (\<lambda>k. bytes_Equal k pk) ks" by (simp add: list_ex_iff)
  then have "Idx_Index pk v idx = Some (Inr (), ?i)"
    using ik t(1) t'(1) u ks(1) by (simp add: Idx_Index_def index_of_Some Let_def)
  moreover have "idx_inv ?i"
    by (rule idx_inv_update [OF inv, of _ b "Some ?w"]) (use t' small dist in auto)
  moreover have "idx_keys ?i = (idx_keys idx)(b := idx_keys idx b @ [bytes_of pk])"
    using idx_keys_update [of ?i idx b "Some ?w"] t'(3) u val_keys_encode [OF small] ks(2) by simp
  ultimately show ?thesis by auto
qed

lemma Idx_Remove_law:
  assumes inv: "idx_inv idx" and ik: "index_of (extractor idx) v = Some b"
    and own: "unique idx \<Longrightarrow> set (idx_keys idx b) \<subseteq> {bytes_of pk}" and ok: "idx_shrink_ok idx b (bytes_of pk)"
  shows "\<exists>i'. Idx_Remove pk v idx = Some (Inr (), i') \<and> idx_inv i' \<and>
    idx_keys i' = (idx_keys idx)(b := filter (\<lambda>p. p \<noteq> bytes_of pk) (idx_keys idx b)) \<and>
    extractor i' = extractor idx \<and> unique i' = unique idx"
proof (cases "unique idx")
  case True
  have sinv: "shard_inv (itree idx)" using inv by (simp add: idx_inv_def)
  obtain d tree where t: "Sharded_Delete (itree idx) (Bytes b) = Some (d, tree)" "shard_inv tree"
    "shard_map tree = (shard_map (itree idx))(b := None)"
    using sharded.delete_law [OF sinv, of "Bytes b"] by auto
  have f: "filter (\<lambda>p. p \<noteq> bytes_of pk) (idx_keys idx b) = []" using own [OF True] by (auto simp: filter_empty_conv)
  let ?i = "decEntries (idx\<lparr>itree := tree\<rparr>)"
  have "Idx_Remove pk v idx = Some (Inr (), ?i)" using ik t(1) True by (simp add: Idx_Remove_def index_of_Some)
  moreover have "idx_inv ?i" by (rule idx_inv_update [OF inv, of _ b None]) (use t in simp_all)
  moreover have "idx_keys ?i = (idx_keys idx)(b := [])" using idx_keys_update [of ?i idx b None] t(3) by simp
  ultimately show ?thesis using f by auto
next
  case u: False
  show ?thesis
  proof (cases "shard_map (itree idx) b")
    case None
    obtain tree where t: "Sharded_Find (itree idx) (Bytes b) = Some (Inl ErrKeyNotFound, tree)" "shard_inv tree"
      "shard_map tree = shard_map (itree idx)"
      using idx_find [OF inv, of "Bytes b"] None by (metis bytes_of.simps(2) find_result_simps(1))
    let ?i = "idx\<lparr>itree := tree\<rparr>"
    have "Idx_Remove pk v idx = Some (Inr (), ?i)" using ik t(1) u by (simp add: Idx_Remove_def index_of_Some)
    moreover have "idx_inv ?i" using inv t by (simp add: idx_inv_def)
    moreover have "idx_keys ?i = idx_keys idx" using t(3) by (simp add: idx_keys_def fun_eq_iff)
    moreover have "idx_keys idx b = []" using None by (simp add: idx_keys_def)
    ultimately show ?thesis by auto
  next
    case (Some old)
    obtain ks where ks: "decodePrimaryKeys old = ks" "map bytes_of ks = idx_keys idx b" "small_keys ks" "distinct (map bytes_of ks)"
      using idx_list [OF inv u Some] by metis
    obtain tree where t: "Sharded_Find (itree idx) (Bytes b) = Some (Inr (slice_copy old), tree)"
      "shard_inv tree" "shard_map tree = shard_map (itree idx)" "shard_upd_ok tree b = shard_upd_ok (itree idx) b"
      using idx_find [OF inv, of "Bytes b"] Some by (metis bytes_of.simps(2) find_result_simps(2))
    define new where "new = filter (\<lambda>k. bytes_of k \<noteq> bytes_of pk) ks"
    have new: "map bytes_of new = filter (\<lambda>p. p \<noteq> bytes_of pk) (idx_keys idx b)"
      unfolding ks(2) [symmetric] new_def by (simp add: filter_map comp_def)
    have small: "small_keys new" using ks(3) by (auto simp: small_keys_def new_def intro: le_less_trans [OF length_filter_le])
    have dist: "distinct (map bytes_of new)" unfolding new using ks(2,4) by simp
    define r where "r = (if new = [] then None else Some (encodePrimaryKeys new))"
    have "\<exists>tree'. (if length new = 0 then map_option snd (Sharded_Delete tree (Bytes b))
        else Sharded_Insert tree (Bytes b) (encodePrimaryKeys new)) = Some tree' \<and> shard_inv tree' \<and>
        shard_map tree' = (shard_map (itree idx))(b := r)"
    proof (cases "new = []")
      case True
      then show ?thesis using sharded.delete_law [OF t(2), of "Bytes b"] t(3) by (auto simp: r_def)
    next
      case False
      have "filter (\<lambda>p. p \<noteq> bytes_of pk) (idx_keys idx b) \<noteq> []" using False new by (metis map_is_Nil_conv)
      then have "shard_upd_ok tree b" using ok u t(4) by (auto simp: idx_shrink_ok_def filter_empty_conv)
      then show ?thesis using False sharded.insert_law [OF t(2), of "Bytes b" "encodePrimaryKeys new"] t(3) by (auto simp: r_def)
    qed
    then obtain tree' where t': "(if length new = 0 then map_option snd (Sharded_Delete tree (Bytes b))
        else Sharded_Insert tree (Bytes b) (encodePrimaryKeys new)) = Some tree'" "shard_inv tree'"
      "shard_map tree' = (shard_map (itree idx))(b := r)" by blast
    let ?i = "decEntries (idx\<lparr>itree := tree'\<rparr>)"
    have "Idx_Remove pk v idx = Some (Inr (), ?i)"
      using ik t(1) t'(1) u ks(1) by (cases "new = []") (auto simp: Idx_Remove_def index_of_Some new_def)
    moreover have "idx_inv ?i"
      by (rule idx_inv_update [OF inv, of _ b r]) (use t' small dist in \<open>auto simp: r_def split: if_splits\<close>)
    moreover have "val_keys False r = map bytes_of new" using val_keys_encode [OF small] by (simp add: r_def)
    then have "idx_keys ?i = (idx_keys idx)(b := map bytes_of new)"
      using idx_keys_update [of ?i idx b r] t'(3) u by simp
    ultimately show ?thesis using new by auto
  qed
qed

lemma Idx_FindAll_law:
  assumes inv: "idx_inv idx"
  shows "\<exists>i'. Idx_FindAll ik idx =
      Some (if idx_keys idx (bytes_of ik) = [] then Inl ErrKeyNotFound else Inr (map Bytes (idx_keys idx (bytes_of ik))), i') \<and>
    idx_inv i' \<and> idx_keys i' = idx_keys idx \<and> extractor i' = extractor idx \<and> unique i' = unique idx"
proof -
  obtain tree where t: "Sharded_Find (itree idx) ik = Some (find_result (shard_map (itree idx) (bytes_of ik)), tree)"
    "shard_inv tree" "shard_map tree = shard_map (itree idx)" using idx_find [OF inv, of ik] by metis
  let ?i = "idx\<lparr>itree := tree\<rparr>"
  have i: "idx_inv ?i" "idx_keys ?i = idx_keys idx" using inv t by (simp_all add: idx_inv_def idx_keys_def fun_eq_iff)
  show ?thesis
  proof (cases "shard_map (itree idx) (bytes_of ik)")
    case None
    then show ?thesis using t(1) i by (simp add: Idx_FindAll_def idx_keys_def)
  next
    case (Some v)
    have "(if unique idx then [slice_copy v] else decodePrimaryKeys v) = map Bytes (idx_keys idx (bytes_of ik))"
    proof (cases "unique idx")
      case True
      then show ?thesis using Some by (simp add: idx_keys_def slice_copy_def)
    next
      case False
      obtain ks where ks: "v = encodePrimaryKeys ks" "small_keys ks" using inv False Some by (auto simp: idx_inv_def)
      then show ?thesis using Some False by (simp add: idx_keys_def decode_encode slice_copy_def)
    qed
    moreover have "idx_keys idx (bytes_of ik) \<noteq> []" using Some idx_keys_Nil [OF inv] by simp
    ultimately show ?thesis using t(1) i Some by (cases "unique idx") (simp_all add: Idx_FindAll_def)
  qed
qed

text \<open>The list of an index key that an internal node of the index tree holds does not grow: the new primary key is lost.\<close>

lemma Idx_Index_lost:
  assumes inv: "idx_inv idx" and u: "\<not> unique idx" and ik: "index_of (extractor idx) v = Some b"
    and sep: "\<not> shard_upd_ok (itree idx) b" and nin: "bytes_of pk \<notin> set (idx_keys idx b)"
  shows "\<exists>i' i''. Idx_Index pk v idx = Some (Inr (), i') \<and> extractor i' = extractor idx \<and> unique i' = unique idx \<and>
    Idx_FindAll (Bytes b) i' = Some (Inr (map Bytes (idx_keys idx b)), i'')"
proof -
  obtain tree where t: "Sharded_Find (itree idx) (Bytes b) = Some (find_result (shard_map (itree idx) b), tree)"
    "shard_inv tree" "shard_map tree = shard_map (itree idx)" "\<not> shard_upd_ok tree b"
    using idx_find [OF inv, of "Bytes b"] sep by (metis bytes_of.simps(2))
  obtain old where old: "shard_map (itree idx) b = Some old"
    using sharded_shadow [OF t(2), of "Bytes b"] t(3,4) by auto
  obtain enc where enc: "old = encodePrimaryKeys enc" "small_keys enc" using inv u old by (auto simp: idx_inv_def)
  let ?ks = "decodePrimaryKeys old"
  have ks: "?ks = map Bytes (idx_keys idx b)" using old u enc by (simp add: idx_keys_def decode_encode slice_copy_def)
  obtain tree' tree'' where t': "Sharded_Insert tree (Bytes b) (encodePrimaryKeys (?ks @ [pk])) = Some tree'"
    "Sharded_Find tree' (Bytes b) = Some (Inr (slice_copy old), tree'')"
    using sharded_shadow [OF t(2), of "Bytes b" "encodePrimaryKeys (?ks @ [pk])"] t(3,4) old by auto
  let ?i = "idx\<lparr>itree := tree', ientries := ientries idx + 1\<rparr>"
  have "\<not> list_ex (\<lambda>k. bytes_Equal k pk) ?ks" using nin by (auto simp: ks list_ex_iff)
  then have "Idx_Index pk v idx = Some (Inr (), ?i)" using ik t(1) t'(1) u old by (simp add: Idx_Index_def index_of_Some Let_def)
  moreover have "Idx_FindAll (Bytes b) ?i = Some (Inr (map Bytes (idx_keys idx b)), ?i\<lparr>itree := tree''\<rparr>)"
    using t'(2) u ks by (simp add: Idx_FindAll_def)
  ultimately show ?thesis by auto
qed

interpretation index: index_store idx_inv idx_keys extractor unique idx_grow_ok idx_shrink_ok Idx_Index Idx_Remove Idx_FindAll
proof
  fix i v b pk
  assume a: "idx_inv i" "index_of (extractor i) v = Some b" "bytes_of pk \<notin> set (idx_keys i b)" "idx_grow_ok i b"
    "length (bytes_of pk) < 2 ^ 32"
  show "\<exists>i'. Idx_Index pk v i = Some (Inr (), i') \<and> idx_inv i' \<and> idx_keys i' = (idx_keys i)(b := idx_keys i b @ [bytes_of pk]) \<and>
      extractor i' = extractor i \<and> unique i' = unique i"
    using Idx_Index_new [OF a(1,2) _ a(5)] Idx_Index_grow [OF a(1,2) _ a(3,4,5)] by (cases "idx_keys i b = []") auto
next
  show "Idx_Index pk v i = Some (Inr (), i) \<and> Idx_Remove pk v i = Some (Inr (), i)" if "extractor i v = Some NilSlice" for i v pk
    using that by (simp add: Idx_Index_def Idx_Remove_def)
  show "length (idx_keys i b) \<le> 1" if "unique i" for i b
    using that by (cases "shard_map (itree i) b") (simp_all add: idx_keys_def)
  show "idx_grow_ok i b" if "idx_keys i b = []" for i b using that by (simp add: idx_grow_ok_def)
qed (fact Idx_Index_dup Idx_Remove_law Idx_FindAll_law)+

end
