(* ===== verification/Indexed_Btree.thy ===== *)
theory Indexed_Btree
  imports Index_Store
begin

text \<open>
  The indexed tree, \<^verbatim>\<open>src/bptree/indexed_btree.go\<close>: a primary sharded tree and a map of
  secondary indexes that every write maintains.

  Go ranges over a map in an unspecified order: an operation that does takes the order as a
  parameter, a listing of the index names.  The indexes are pointers, so a loop over them
  writes back to the map.  \<open>None\<close> is a panic.  The mutex \<^verbatim>\<open>mu\<close> guards the map only;
  operations are modelled one at a time.
\<close>

section \<open>State\<close>

record IndexedBTree =
  ptree :: ShardedBTree
  indexes :: "string \<Rightarrow> SecondaryIndex option"

record IndexedConfig =
  xcNumShards :: int

record IndexedStats =
  PrimaryStats :: ShardStats
  xsIndexStats :: "string \<Rightarrow> IndexStats option"

definition NewIndexedBTree :: "int \<Rightarrow> IndexedConfig \<Rightarrow> IndexedBTree" where
  "NewIndexedBTree numCPU config =
     \<lparr>ptree = NewShardedBTree numCPU \<lparr>cfgNumShards = xcNumShards config\<rparr>, indexes = (\<lambda>_. None)\<rparr>"

definition NewIndexedBTreeDefault :: "int \<Rightarrow> IndexedBTree" where
  "NewIndexedBTreeDefault numCPU = NewIndexedBTree numCPU \<lparr>xcNumShards = 0\<rparr>"

section \<open>Managing indexes\<close>

definition CreateIndex :: "string \<Rightarrow> KeyExtractor \<Rightarrow> bool \<Rightarrow> IndexedBTree \<Rightarrow> (go_error + unit) \<times> IndexedBTree" where
  "CreateIndex name ext uniq db =
     (if indexes db name \<noteq> None then (Inl ErrIndexExists, db)
      else
        let idx = NewSecondaryIndex \<lparr>icName = name, icExtractor = ext, icUnique = uniq, icNumShards = 4\<rparr>
        in (Inr (), db\<lparr>indexes := (indexes db)(name \<mapsto> idx)\<rparr>))"

text \<open>
  The callback of the rebuild and the variables it captures: the index and \<^verbatim>\<open>indexErr\<close>.
  A panic of the callback ends the walk and the operation.
\<close>

type_synonym rebuild = "(SecondaryIndex \<times> go_error option) option"

definition rebuildCallback :: "rebuild callback" where
  "rebuildCallback key val st =
     (case st of
        None \<Rightarrow> (False, None)
      | Some (idx, indexErr) \<Rightarrow>
          (case Idx_Index key val idx of
             None \<Rightarrow> (False, None)
           | Some (Inl err, idx') \<Rightarrow> (False, Some (idx', Some err))
           | Some (Inr _, idx') \<Rightarrow> (True, Some (idx', indexErr))))"

definition CreateIndexWithRebuild ::
  "string \<Rightarrow> KeyExtractor \<Rightarrow> bool \<Rightarrow> IndexedBTree \<Rightarrow> ((go_error + unit) \<times> IndexedBTree) option" where
  "CreateIndexWithRebuild name ext uniq db =
     (case CreateIndex name ext uniq db of
        (Inl err, db1) \<Rightarrow> Some (Inl err, db1)
      | (Inr _, db1) \<Rightarrow>
          do {
            idx \<leftarrow> indexes db1 name;
            walk \<leftarrow> Sharded_ForEach (ptree db1) rebuildCallback (Some (idx, None));
            (idx', indexErr) \<leftarrow> walk;
            (case indexErr of
               Some err \<Rightarrow> Some (Inl err, db1\<lparr>indexes := (indexes db1)(name := None)\<rparr>)
             | None \<Rightarrow> Some (Inr (), db1\<lparr>indexes := (indexes db1)(name \<mapsto> idx')\<rparr>))
          })"

definition DropIndex :: "string \<Rightarrow> IndexedBTree \<Rightarrow> (go_error + unit) \<times> IndexedBTree" where
  "DropIndex name db =
     (if indexes db name = None then (Inl ErrIndexNotFound, db)
      else (Inr (), db\<lparr>indexes := (indexes db)(name := None)\<rparr>))"

definition HasIndex :: "string \<Rightarrow> IndexedBTree \<Rightarrow> bool" where
  "HasIndex name db \<longleftrightarrow> indexes db name \<noteq> None"

definition ListIndexes :: "string list \<Rightarrow> IndexedBTree \<Rightarrow> string list" where
  "ListIndexes order db = filter (\<lambda>name. indexes db name \<noteq> None) order"

section \<open>Loops over the indexes\<close>

text \<open>
  \<^verbatim>\<open>for _, idx := range indexes { if err := step(idx); err != nil { return err } }\<close>.
\<close>

primrec eachIndex ::
  "(SecondaryIndex \<Rightarrow> ((go_error + unit) \<times> SecondaryIndex) option) \<Rightarrow> string list \<Rightarrow>
   (string \<Rightarrow> SecondaryIndex option) \<Rightarrow> ((go_error + unit) \<times> (string \<Rightarrow> SecondaryIndex option)) option" where
  "eachIndex step [] ixs = Some (Inr (), ixs)"
| "eachIndex step (name # order) ixs =
     (case ixs name of
        None \<Rightarrow> eachIndex step order ixs
      | Some idx \<Rightarrow>
          do {
            (r, idx') \<leftarrow> step idx;
            (case r of
               Inl err \<Rightarrow> Some (Inl err, ixs(name \<mapsto> idx'))
             | Inr _ \<Rightarrow> eachIndex step order (ixs(name \<mapsto> idx')))
          })"

section \<open>Writing\<close>

text \<open>The unique check of one index, shared by \<open>Insert\<close> and \<open>Update\<close>: is the index key taken?\<close>

definition checkTaken :: "slice \<Rightarrow> SecondaryIndex \<Rightarrow> ((go_error + unit) \<times> SecondaryIndex) option" where
  "checkTaken indexKey idx =
     do {
       (r, idx') \<leftarrow> Idx_FindOne indexKey idx;
       Some (case r of Inr _ \<Rightarrow> Inl ErrUniqueViolation | Inl _ \<Rightarrow> Inr (), idx')
     }"

definition insertCheck :: "Valuetype \<Rightarrow> SecondaryIndex \<Rightarrow> ((go_error + unit) \<times> SecondaryIndex) option" where
  "insertCheck val idx =
     (if unique idx then
        do {
          indexKey \<leftarrow> extractor idx val;
          if indexKey \<noteq> NilSlice then checkTaken indexKey idx else Some (Inr (), idx)
        }
      else Some (Inr (), idx))"

definition Indexed_Insert :: "string list \<Rightarrow> Keytype \<Rightarrow> Valuetype \<Rightarrow> IndexedBTree \<Rightarrow> ((go_error + unit) \<times> IndexedBTree) option" where
  "Indexed_Insert order key val db =
     do {
       (r, ixs1) \<leftarrow> eachIndex (insertCheck val) order (indexes db);
       (case r of
          Inl err \<Rightarrow> Some (Inl err, db\<lparr>indexes := ixs1\<rparr>)
        | Inr _ \<Rightarrow>
            do {
              tree1 \<leftarrow> Sharded_Insert (ptree db) key val;
              (r2, ixs2) \<leftarrow> eachIndex (Idx_Index key val) order ixs1;
              (case r2 of
                 Inl err \<Rightarrow>
                   do {
                     (_, tree2) \<leftarrow> Sharded_Delete tree1 key;
                     Some (Inl err, db\<lparr>ptree := tree2, indexes := ixs2\<rparr>)
                   }
               | Inr _ \<Rightarrow> Some (Inr (), db\<lparr>ptree := tree1, indexes := ixs2\<rparr>))
            })
     }"

definition Indexed_Put :: "string list \<Rightarrow> Keytype \<Rightarrow> Valuetype \<Rightarrow> IndexedBTree \<Rightarrow> ((go_error + unit) \<times> IndexedBTree) option" where
  "Indexed_Put order key val db = Indexed_Insert order key val db"

text \<open>\<open>bytesEqual\<close> tells nil from an empty slice, unlike \<^verbatim>\<open>bytes.Equal\<close>.\<close>

definition bytesEqual :: "slice \<Rightarrow> slice \<Rightarrow> bool" where
  "bytesEqual a b =
     (if a = NilSlice \<and> b = NilSlice then True
      else if a = NilSlice \<or> b = NilSlice then False
      else if length (bytes_of a) \<noteq> length (bytes_of b) then False
      else list_all (\<lambda>i. bytes_of a ! i = bytes_of b ! i) [0..<length (bytes_of a)])"

definition updateCheck :: "Valuetype \<Rightarrow> Valuetype \<Rightarrow> SecondaryIndex \<Rightarrow> ((go_error + unit) \<times> SecondaryIndex) option" where
  "updateCheck oldValue newValue idx =
     (if unique idx then
        do {
          oldIndexKey \<leftarrow> extractor idx oldValue;
          newIndexKey \<leftarrow> extractor idx newValue;
          if newIndexKey \<noteq> NilSlice \<and> \<not> bytesEqual oldIndexKey newIndexKey then checkTaken newIndexKey idx
          else Some (Inr (), idx)
        }
      else Some (Inr (), idx))"

definition Indexed_Update :: "string list \<Rightarrow> Keytype \<Rightarrow> Valuetype \<Rightarrow> IndexedBTree \<Rightarrow> ((go_error + unit) \<times> IndexedBTree) option" where
  "Indexed_Update order key newValue db =
     do {
       (r0, tree0) \<leftarrow> Sharded_Find (ptree db) key;
       (case r0 of
          Inl _ \<Rightarrow> Some (Inl ErrKeyNotFound, db\<lparr>ptree := tree0\<rparr>)
        | Inr oldValue \<Rightarrow>
            do {
              (r, ixs1) \<leftarrow> eachIndex (updateCheck oldValue newValue) order (indexes db);
              (case r of
                 Inl err \<Rightarrow> Some (Inl err, db\<lparr>ptree := tree0, indexes := ixs1\<rparr>)
               | Inr _ \<Rightarrow>
                   do {
                     tree1 \<leftarrow> Sharded_Insert tree0 key newValue;
                     (r2, ixs2) \<leftarrow> eachIndex (Idx_Update key oldValue newValue) order ixs1;
                     Some (r2, db\<lparr>ptree := tree1, indexes := ixs2\<rparr>)
                   })
            })
     }"

text \<open>The loop of \<open>Delete\<close> drops the result of \<open>Remove\<close>.\<close>

definition removeIgnoring :: "Keytype \<Rightarrow> Valuetype \<Rightarrow> SecondaryIndex \<Rightarrow> ((go_error + unit) \<times> SecondaryIndex) option" where
  "removeIgnoring key val idx = map_option (\<lambda>(_, idx'). (Inr (), idx')) (Idx_Remove key val idx)"

definition Indexed_Delete :: "string list \<Rightarrow> Keytype \<Rightarrow> IndexedBTree \<Rightarrow> ((go_error + bool) \<times> IndexedBTree) option" where
  "Indexed_Delete order key db =
     do {
       (r, tree0) \<leftarrow> Sharded_Find (ptree db) key;
       (case r of
          Inl _ \<Rightarrow> Some (Inr False, db\<lparr>ptree := tree0\<rparr>)
        | Inr val \<Rightarrow>
            do {
              (deleted, tree1) \<leftarrow> Sharded_Delete tree0 key;
              if \<not> deleted then Some (Inr False, db\<lparr>ptree := tree1\<rparr>)
              else
                do {
                  (_, ixs1) \<leftarrow> eachIndex (removeIgnoring key val) order (indexes db);
                  Some (Inr True, db\<lparr>ptree := tree1, indexes := ixs1\<rparr>)
                }
            })
     }"

definition Indexed_Clear :: "string list \<Rightarrow> IndexedBTree \<Rightarrow> IndexedBTree" where
  "Indexed_Clear order db =
     db\<lparr>ptree := Sharded_Clear (ptree db),
        indexes := (\<lambda>name. if name \<in> set order then map_option Idx_Clear (indexes db name) else indexes db name)\<rparr>"

section \<open>Reading\<close>

definition Indexed_Find :: "Keytype \<Rightarrow> IndexedBTree \<Rightarrow> ((go_error + Valuetype) \<times> IndexedBTree) option" where
  "Indexed_Find key db = do { (r, tree) \<leftarrow> Sharded_Find (ptree db) key; Some (r, db\<lparr>ptree := tree\<rparr>) }"

definition Indexed_Get :: "Keytype \<Rightarrow> IndexedBTree \<Rightarrow> ((go_error + Valuetype) \<times> IndexedBTree) option" where
  "Indexed_Get key db = Indexed_Find key db"

definition FindByIndex :: "string \<Rightarrow> slice \<Rightarrow> IndexedBTree \<Rightarrow> ((go_error + Keytype) \<times> IndexedBTree) option" where
  "FindByIndex indexName indexKey db =
     (case indexes db indexName of
        None \<Rightarrow> Some (Inl ErrIndexNotFound, db)
      | Some idx \<Rightarrow>
          do {
            (r, idx') \<leftarrow> Idx_FindOne indexKey idx;
            Some (r, db\<lparr>indexes := (indexes db)(indexName \<mapsto> idx')\<rparr>)
          })"

definition FindAllByIndex :: "string \<Rightarrow> slice \<Rightarrow> IndexedBTree \<Rightarrow> ((go_error + Keytype list) \<times> IndexedBTree) option" where
  "FindAllByIndex indexName indexKey db =
     (case indexes db indexName of
        None \<Rightarrow> Some (Inl ErrIndexNotFound, db)
      | Some idx \<Rightarrow>
          do {
            (r, idx') \<leftarrow> Idx_FindAll indexKey idx;
            Some (r, db\<lparr>indexes := (indexes db)(indexName \<mapsto> idx')\<rparr>)
          })"

definition FindRangeByIndex :: "string \<Rightarrow> slice \<Rightarrow> slice \<Rightarrow> IndexedBTree \<Rightarrow> (go_error + Keytype list) option" where
  "FindRangeByIndex indexName startKey endKey db =
     (case indexes db indexName of
        None \<Rightarrow> Some (Inl ErrIndexNotFound)
      | Some idx \<Rightarrow> Idx_FindRange startKey endKey idx)"

definition Indexed_GetRange :: "IndexedBTree \<Rightarrow> slice \<Rightarrow> slice \<Rightarrow> (go_error + Keytype list \<times> Valuetype list) option" where
  "Indexed_GetRange db startKey endKey = Sharded_GetRange (ptree db) startKey endKey"

definition Indexed_Count :: "IndexedBTree \<Rightarrow> int" where
  "Indexed_Count db = Sharded_Count (ptree db)"

definition Indexed_ForEach :: "IndexedBTree \<Rightarrow> 's callback \<Rightarrow> 's \<Rightarrow> 's option" where
  "Indexed_ForEach db callback st = Sharded_ForEach (ptree db) callback st"

primrec statsLoop :: "string list \<Rightarrow> (string \<Rightarrow> SecondaryIndex option) \<Rightarrow> (string \<Rightarrow> IndexStats option) \<Rightarrow> (string \<Rightarrow> IndexStats option) option" where
  "statsLoop [] ixs stats = Some stats"
| "statsLoop (name # order) ixs stats =
     (case ixs name of
        None \<Rightarrow> statsLoop order ixs stats
      | Some idx \<Rightarrow> do { st \<leftarrow> Idx_Stats idx; statsLoop order ixs (stats(name \<mapsto> st)) })"

definition Indexed_Stats :: "string list \<Rightarrow> IndexedBTree \<Rightarrow> IndexedStats option" where
  "Indexed_Stats order db =
     do {
       indexStats \<leftarrow> statsLoop order (indexes db) (\<lambda>_. None);
       primary \<leftarrow> Sharded_Stats (ptree db);
       Some \<lparr>PrimaryStats = primary, xsIndexStats = indexStats\<rparr>
     }"

end
