(* ===== verification/Indexed_Store.thy ===== *)
theory Indexed_Store
  imports Indexed_Btree
begin

text \<open>
  What the indexed tree guarantees: which writes keep every index consistent with the primary
  tree, what the queries then answer, and where consistency is lost.
\<close>

section \<open>Loops over the indexes\<close>

lemma eachIndex_other:
  "eachIndex step order ixs = Some (r, ixs') \<Longrightarrow> name \<notin> set order \<Longrightarrow> ixs' name = ixs name"
  by (induction order arbitrary: ixs) (auto split: option.splits bind_splits sum.splits)

text \<open>If every step succeeds, every index of the order has made its step and the others are untouched.\<close>

lemma eachIndex_ok:
  assumes "distinct order" "\<And>name. name \<in> set order \<Longrightarrow> \<exists>i i'. ixs name = Some i \<and> step i = Some (Inr (), i') \<and> R name i i'"
  shows "\<exists>ixs'. eachIndex step order ixs = Some (Inr (), ixs') \<and>
    (\<forall>name. if name \<in> set order then \<exists>i i'. ixs name = Some i \<and> ixs' name = Some i' \<and> R name i i' else ixs' name = ixs name)"
  using assms
proof (induction order arbitrary: ixs)
  case (Cons name order)
  obtain i i' where 1: "ixs name = Some i" "step i = Some (Inr (), i')" "R name i i'" using Cons.prems(2) [of name] by auto
  let ?ixs = "ixs(name \<mapsto> i')"
  have d: "distinct order" "name \<notin> set order" using Cons.prems(1) by auto
  have "\<exists>j j'. ?ixs n = Some j \<and> step j = Some (Inr (), j') \<and> R n j j'" if "n \<in> set order" for n
    using Cons.prems(2) [of n] that d(2) by auto
  from Cons.IH [of ?ixs, OF d(1) this] obtain ixs' where 2: "eachIndex step order ?ixs = Some (Inr (), ixs')"
    "\<forall>n. if n \<in> set order then \<exists>j j'. ?ixs n = Some j \<and> ixs' n = Some j' \<and> R n j j' else ixs' n = ?ixs n"
    by blast
  have "if n \<in> set (name # order) then \<exists>j j'. ixs n = Some j \<and> ixs' n = Some j' \<and> R n j j' else ixs' n = ixs n" for n
    using 2(2) [rule_format, of n] 1 d(2) by (cases "n = name"; cases "n \<in> set order") auto
  moreover have "eachIndex step (name # order) ixs = Some (Inr (), ixs')" using 1(1,2) 2(1) by simp
  ultimately show ?case by blast
qed simp

text \<open>
  If every step answers, with a common error, and keeps \<open>R\<close>, so does the loop; it fails
  exactly if some step does.
\<close>

lemma eachIndex_check:
  assumes "distinct order"
    "\<And>name. name \<in> set order \<Longrightarrow> \<exists>i i'. ixs name = Some i \<and> step i = Some (if P i then Inl err else Inr (), i') \<and> R i i'"
    "\<And>i. R i i"
  shows "\<exists>ixs'. eachIndex step order ixs =
      Some (if \<exists>name \<in> set order. \<exists>i. ixs name = Some i \<and> P i then Inl err else Inr (), ixs') \<and>
    (\<forall>name. (ixs name = None \<and> ixs' name = None) \<or> (\<exists>i i'. ixs name = Some i \<and> ixs' name = Some i' \<and> R i i'))"
  using assms(1,2)
proof (induction order arbitrary: ixs)
  case Nil
  have "(ixs n = None \<and> ixs n = None) \<or> (\<exists>i i'. ixs n = Some i \<and> ixs n = Some i' \<and> R i i')" for n
    using assms(3) by (cases "ixs n") auto
  then show ?case by simp
next
  case (Cons name order)
  obtain i i' where 1: "ixs name = Some i" "step i = Some (if P i then Inl err else Inr (), i')" "R i i'" using Cons.prems(2) [of name] by auto
  let ?ixs = "ixs(name \<mapsto> i')"
  have d: "distinct order" "name \<notin> set order" using Cons.prems(1) by auto
  have keep: "(ixs n = None \<and> ?ixs n = None) \<or> (\<exists>j j'. ixs n = Some j \<and> ?ixs n = Some j' \<and> R j j')" for n
    using 1 assms(3) by (cases "n = name"; cases "ixs n") auto
  show ?case
  proof (cases "P i")
    case True
    then have "eachIndex step (name # order) ixs = Some (Inl err, ?ixs)" using 1(1,2) by simp
    moreover have "\<exists>n \<in> set (name # order). \<exists>j. ixs n = Some j \<and> P j" using 1(1) True by auto
    ultimately show ?thesis using keep by (intro exI [of _ ?ixs]) (simp only: if_True, blast)
  next
    case False
    have "\<exists>j j'. ?ixs n = Some j \<and> step j = Some (if P j then Inl err else Inr (), j') \<and> R j j'" if "n \<in> set order" for n
      using Cons.prems(2) [of n] that d(2) by auto
    from Cons.IH [of ?ixs, OF d(1) this] obtain ixs' where 2: "eachIndex step order ?ixs =
        Some (if \<exists>n \<in> set order. \<exists>j. ?ixs n = Some j \<and> P j then Inl err else Inr (), ixs')"
      "\<forall>n. (?ixs n = None \<and> ixs' n = None) \<or> (\<exists>j j'. ?ixs n = Some j \<and> ixs' n = Some j' \<and> R j j')" by blast
    have ex: "(\<exists>n \<in> set order. \<exists>j. ?ixs n = Some j \<and> P j) \<longleftrightarrow> (\<exists>n \<in> set (name # order). \<exists>j. ixs n = Some j \<and> P j)"
      using d(2) 1(1) False by auto
    have "(ixs n = None \<and> ixs' n = None) \<or> (\<exists>j j'. ixs n = Some j \<and> ixs' n = Some j' \<and> R j j')" for n
    proof (cases "n = name")
      case True
      then have "ixs' n = ?ixs n" using eachIndex_other [OF 2(1), of n] d(2) by simp
      then show ?thesis using keep [of n] by simp
    next
      case False
      then show ?thesis using 2(2) [rule_format, of n] by simp
    qed
    moreover have "eachIndex step (name # order) ixs = eachIndex step order ?ixs" using 1(1,2) False by simp
    ultimately show ?thesis using 2(1) unfolding ex by simp
  qed
qed

section \<open>Consistency\<close>

text \<open>An index in order whose extractor does not panic and that tracks the map \<open>m\<close>.\<close>

definition idx_good :: "SecondaryIndex \<Rightarrow> (bytes \<rightharpoonup> Valuetype) \<Rightarrow> bool" where
  "idx_good idx m \<longleftrightarrow> idx_inv idx \<and> (\<forall>v. extractor idx v \<noteq> None) \<and> tracks (idx_keys idx) (extractor idx) m"

definition indexed_inv :: "IndexedBTree \<Rightarrow> bool" where
  "indexed_inv db \<longleftrightarrow> shard_inv (ptree db) \<and> NilSlice \<notin> ran (shard_map (ptree db)) \<and>
     (\<forall>name idx. indexes db name = Some idx \<longrightarrow> idx_good idx (shard_map (ptree db)))"

definition valid_order :: "string list \<Rightarrow> IndexedBTree \<Rightarrow> bool" where
  "valid_order order db \<longleftrightarrow> distinct order \<and> set order = dom (indexes db)"

text \<open>What a lookup leaves as it is.\<close>

definition same_idx :: "SecondaryIndex \<Rightarrow> SecondaryIndex \<Rightarrow> bool" where
  "same_idx i i' \<longleftrightarrow> (idx_inv i \<longrightarrow> idx_inv i') \<and> idx_keys i' = idx_keys i \<and> extractor i' = extractor i \<and> unique i' = unique i \<and>
     idx_grow_ok i' = idx_grow_ok i \<and> idx_shrink_ok i' = idx_shrink_ok i"

lemma same_idx_refl [simp]: "same_idx i i"
  by (simp add: same_idx_def)

lemma same_idx_good: "same_idx i i' \<Longrightarrow> idx_good i m \<Longrightarrow> idx_good i' m"
  by (simp add: same_idx_def idx_good_def)

lemma checkTaken_spec:
  assumes "idx_inv idx" "unique idx"
  shows "\<exists>i'. checkTaken (Bytes b) idx = Some (if idx_keys idx b \<noteq> [] then Inl ErrUniqueViolation else Inr (), i') \<and> same_idx idx i'"
proof -
  obtain tree where t: "Sharded_Find (itree idx) (Bytes b) = Some (find_result (shard_map (itree idx) b), tree)"
    "shard_inv tree" "shard_map tree = shard_map (itree idx)" "\<And>b. shard_upd_ok tree b = shard_upd_ok (itree idx) b"
    using idx_find [OF assms(1), of "Bytes b"] by (metis bytes_of.simps(2))
  let ?i = "idx\<lparr>itree := tree\<rparr>"
  have k: "idx_keys ?i = idx_keys idx" using t(3) by (simp add: idx_keys_def fun_eq_iff)
  have "same_idx idx ?i"
    using assms t k by (simp add: same_idx_def idx_inv_def idx_grow_ok_def idx_shrink_ok_def fun_eq_iff)
  moreover have "checkTaken (Bytes b) idx = Some (if idx_keys idx b \<noteq> [] then Inl ErrUniqueViolation else Inr (), ?i)"
    using t(1) assms idx_keys_Nil [OF assms(1), of b]
    by (cases "shard_map (itree idx) b") (simp_all add: checkTaken_def Idx_FindOne_def)
  ultimately show ?thesis by blast
qed

definition taken :: "Valuetype \<Rightarrow> SecondaryIndex \<Rightarrow> bool" where
  "taken v idx \<longleftrightarrow> unique idx \<and> (\<exists>b. index_of (extractor idx) v = Some b \<and> idx_keys idx b \<noteq> [])"

lemma index_cases:
  assumes "idx_good idx m"
  obtains (nil) "extractor idx v = Some NilSlice" "index_of (extractor idx) v = None"
  | (key) b where "extractor idx v = Some (Bytes b)" "index_of (extractor idx) v = Some b"
proof -
  obtain s where "extractor idx v = Some s" using assms by (auto simp: idx_good_def)
  then show ?thesis using that by (cases s) (auto simp: index_of_def)
qed

lemma insertCheck_spec:
  assumes "idx_good idx m"
  shows "\<exists>i'. insertCheck v idx = Some (if taken v idx then Inl ErrUniqueViolation else Inr (), i') \<and> same_idx idx i'"
proof (cases "unique idx")
  case True
  have inv: "idx_inv idx" using assms by (simp add: idx_good_def)
  from assms show ?thesis
  proof (cases rule: index_cases [where v = v])
    case nil
    then show ?thesis using True by (simp add: insertCheck_def taken_def)
  next
    case (key b)
    then show ?thesis using True checkTaken_spec [OF inv True, of b] by (simp add: insertCheck_def taken_def)
  qed
qed (simp add: insertCheck_def taken_def)

text \<open>A unique index key is taken if and only if a record has it.\<close>

lemma taken_iff:
  assumes "idx_good idx m"
  shows "taken v idx \<longleftrightarrow> unique idx \<and> (\<exists>b p w. index_of (extractor idx) v = Some b \<and> m p = Some w \<and> index_of (extractor idx) w = Some b)"
proof -
  have "idx_keys idx b \<noteq> [] \<longleftrightarrow> (\<exists>p w. m p = Some w \<and> index_of (extractor idx) w = Some b)" for b
    using assms unfolding idx_good_def tracks_def by (metis list.set_intros(1) list.set_cases neq_Nil_conv)
  then show ?thesis by (auto simp: taken_def)
qed

text \<open>The indexes of a tree: their extractors and which are unique.\<close>

definition schema :: "(string \<Rightarrow> SecondaryIndex option) \<Rightarrow> string \<Rightarrow> (KeyExtractor \<times> bool) option" where
  "schema ixs name = map_option (\<lambda>i. (extractor i, unique i)) (ixs name)"

lemma schema_dom: "schema ixs' = schema ixs \<Longrightarrow> dom ixs' = dom ixs"
proof -
  assume "schema ixs' = schema ixs"
  then have "ixs' name = None \<longleftrightarrow> ixs name = None" for name by (metis option.map_disc_iff schema_def)
  then show ?thesis by (auto simp: dom_def)
qed

lemma indexed_each:
  assumes "distinct order" "set order = dom ixs"
    and "\<And>name idx. ixs name = Some idx \<Longrightarrow> \<exists>i'. step idx = Some (Inr (), i') \<and> extractor i' = extractor idx \<and> unique i' = unique idx \<and> Q name idx i'"
  shows "\<exists>ixs'. eachIndex step order ixs = Some (Inr (), ixs') \<and> schema ixs' = schema ixs \<and>
    (\<forall>name i'. ixs' name = Some i' \<longrightarrow> (\<exists>idx. ixs name = Some idx \<and> Q name idx i'))"
proof -
  let ?R = "\<lambda>(name :: string) i i'. extractor i' = extractor i \<and> unique i' = unique i \<and> Q name i i'"
  have "\<exists>i i'. ixs name = Some i \<and> step i = Some (Inr (), i') \<and> ?R name i i'" if "name \<in> set order" for name
    using that assms(2,3) by fastforce
  from eachIndex_ok [of order ixs step ?R, OF assms(1) this] obtain ixs' where e: "eachIndex step order ixs = Some (Inr (), ixs')"
    "\<forall>name. if name \<in> set order then \<exists>i i'. ixs name = Some i \<and> ixs' name = Some i' \<and> ?R name i i' else ixs' name = ixs name"
    by blast
  have "schema ixs' name = schema ixs name \<and> (\<forall>i'. ixs' name = Some i' \<longrightarrow> (\<exists>idx. ixs name = Some idx \<and> Q name idx i'))" for name
    using e(2) [rule_format, of name] assms(2) by (cases "name \<in> set order") (auto simp: schema_def)
  then have "schema ixs' = schema ixs" "\<forall>name i'. ixs' name = Some i' \<longrightarrow> (\<exists>idx. ixs name = Some idx \<and> Q name idx i')" by (auto simp: fun_eq_iff)
  then show ?thesis using e(1) by blast
qed

lemma indexed_loop:
  assumes "distinct order" "set order = dom ixs"
    and "\<And>name idx. ixs name = Some idx \<Longrightarrow> \<exists>i'. step idx = Some (Inr (), i') \<and> idx_good i' m' \<and> extractor i' = extractor idx \<and> unique i' = unique idx"
  shows "\<exists>ixs'. eachIndex step order ixs = Some (Inr (), ixs') \<and> schema ixs' = schema ixs \<and> (\<forall>name idx. ixs' name = Some idx \<longrightarrow> idx_good idx m')"
  using indexed_each [of order ixs step "\<lambda>_ _ i'. idx_good i' m'", OF assms(1,2)] assms(3) by blast

lemma indexed_check:
  assumes "distinct order" "set order = dom ixs"
    and "\<And>name idx. ixs name = Some idx \<Longrightarrow> \<exists>i'. step idx = Some (if P idx then Inl err else Inr (), i') \<and> same_idx idx i'"
  shows "\<exists>ixs'. eachIndex step order ixs = Some (if \<exists>name idx. ixs name = Some idx \<and> P idx then Inl err else Inr (), ixs') \<and>
    schema ixs' = schema ixs \<and> (\<forall>name idx'. ixs' name = Some idx' \<longrightarrow> (\<exists>idx. ixs name = Some idx \<and> same_idx idx idx'))"
proof -
  have "\<exists>i i'. ixs name = Some i \<and> step i = Some (if P i then Inl err else Inr (), i') \<and> same_idx i i'" if "name \<in> set order" for name
    using that assms(2,3) by fastforce
  from eachIndex_check [of order ixs step P err same_idx, OF assms(1) this same_idx_refl] obtain ixs' where
    e: "eachIndex step order ixs = Some (if \<exists>name \<in> set order. \<exists>i. ixs name = Some i \<and> P i then Inl err else Inr (), ixs')"
    "\<forall>name. (ixs name = None \<and> ixs' name = None) \<or> (\<exists>i i'. ixs name = Some i \<and> ixs' name = Some i' \<and> same_idx i i')"
    by blast
  have "(\<exists>name \<in> set order. \<exists>i. ixs name = Some i \<and> P i) \<longleftrightarrow> (\<exists>name idx. ixs name = Some idx \<and> P idx)"
    using assms(2) by blast
  moreover have "schema ixs' name = schema ixs name" for name
    using e(2) [rule_format, of name] by (auto simp: schema_def same_idx_def)
  then have "schema ixs' = schema ixs" by blast
  moreover have "\<exists>idx. ixs name = Some idx \<and> same_idx idx idx'" if "ixs' name = Some idx'" for name idx'
    using e(2) [rule_format, of name] that by auto
  ultimately show ?thesis using e(1) by auto
qed

lemma same_indexes_good:
  assumes "\<forall>name idx'. ixs' name = Some idx' \<longrightarrow> (\<exists>idx. ixs name = Some idx \<and> same_idx idx idx')"
    "\<And>name idx. ixs name = Some idx \<Longrightarrow> idx_good idx m" "ixs' name = Some idx"
  shows "idx_good idx m"
  using assms same_idx_good by metis

section \<open>Insert\<close>

text \<open>The value would break a unique index.\<close>

definition clashes :: "Valuetype \<Rightarrow> IndexedBTree \<Rightarrow> bool" where
  "clashes v db \<longleftrightarrow> (\<exists>name idx. indexes db name = Some idx \<and> unique idx \<and> (\<exists>b p w. index_of (extractor idx) v = Some b \<and>
     shard_map (ptree db) p = Some w \<and> index_of (extractor idx) w = Some b))"

text \<open>The lists of the non-unique indexes that the value extends can be replaced in their trees.\<close>

definition room :: "Valuetype \<Rightarrow> IndexedBTree \<Rightarrow> bool" where
  "room v db \<longleftrightarrow> (\<forall>name idx b. indexes db name = Some idx \<and> \<not> unique idx \<and> index_of (extractor idx) v = Some b \<longrightarrow> idx_grow_ok idx b)"

lemma Idx_Index_good:
  assumes "idx_good idx m" "m (bytes_of key) = None" "length (bytes_of key) < 2 ^ 32" "\<not> taken v idx"
    "\<And>b. \<not> unique idx \<Longrightarrow> index_of (extractor idx) v = Some b \<Longrightarrow> idx_grow_ok idx b"
  shows "\<exists>i'. Idx_Index key v idx = Some (Inr (), i') \<and> idx_good i' (m(bytes_of key \<mapsto> v)) \<and> extractor i' = extractor idx \<and> unique i' = unique idx"
proof -
  have a: "idx_inv idx" "extractor idx v \<noteq> None" "tracks (idx_keys idx) (extractor idx) m" "\<forall>v. extractor idx v \<noteq> None"
    using assms(1) by (simp_all add: idx_good_def)
  have "idx_grow_ok idx b" if "index_of (extractor idx) v = Some b" for b
  proof (cases "unique idx")
    case True
    then have "idx_keys idx b = []" using assms(4) that by (auto simp: taken_def)
    then show ?thesis by (simp add: idx_grow_ok_def)
  qed (use assms(5) that in blast)
  from index.add_tracks [OF a(1-3) assms(2,3) this] obtain i' where "Idx_Index key v idx = Some (Inr (), i')" "idx_inv i'"
    "tracks (idx_keys i') (extractor i') (m(bytes_of key \<mapsto> v))" "extractor i' = extractor idx" "unique i' = unique idx" by blast
  then show ?thesis using a(4) by (auto simp: idx_good_def)
qed

lemma indexed_good: "indexed_inv db \<Longrightarrow> indexes db name = Some idx \<Longrightarrow> idx_good idx (shard_map (ptree db))"
  by (simp add: indexed_inv_def)

text \<open>The list of the value's index key is in an internal node of the tree of a non-unique index.\<close>

definition at_separator :: "Valuetype \<Rightarrow> SecondaryIndex \<Rightarrow> bool" where
  "at_separator v idx \<longleftrightarrow> \<not> unique idx \<and> (\<exists>b. index_of (extractor idx) v = Some b \<and> \<not> idx_grow_ok idx b)"

definition lists_short :: "Valuetype \<Rightarrow> IndexedBTree \<Rightarrow> bool" where
  "lists_short v db \<longleftrightarrow> (\<forall>name idx b. indexes db name = Some idx \<and> \<not> unique idx \<and> index_of (extractor idx) v = Some b \<longrightarrow>
     Suc (length (idx_keys idx b)) < 2 ^ 32)"

text \<open>An index after the insert of a record: consistent with the records, or without the new one.\<close>

definition indexed_or_lost :: "Keytype \<Rightarrow> Valuetype \<Rightarrow> (bytes \<rightharpoonup> Valuetype) \<Rightarrow> SecondaryIndex \<Rightarrow> SecondaryIndex \<Rightarrow> bool" where
  "indexed_or_lost key v m' idx idx' \<longleftrightarrow>
     (if at_separator v idx
      then \<forall>b. index_of (extractor idx) v = Some b \<longrightarrow>
        bytes_of key \<notin> set (idx_keys idx b) \<and> (\<exists>i''. Idx_FindAll (Bytes b) idx' = Some (Inr (map Bytes (idx_keys idx b)), i''))
      else idx_good idx' m')"

lemma Idx_Index_outcome:
  assumes g: "idx_good idx m" and new: "m (bytes_of key) = None" and len: "length (bytes_of key) < 2 ^ 32" and nt: "\<not> taken v idx"
    and short: "\<And>b. \<not> unique idx \<Longrightarrow> index_of (extractor idx) v = Some b \<Longrightarrow> Suc (length (idx_keys idx b)) < 2 ^ 32"
  shows "\<exists>i'. Idx_Index key v idx = Some (Inr (), i') \<and> extractor i' = extractor idx \<and> unique i' = unique idx \<and>
    indexed_or_lost key v (m(bytes_of key \<mapsto> v)) idx i'"
proof (cases "at_separator v idx")
  case True
  then obtain b where b: "\<not> unique idx" "index_of (extractor idx) v = Some b" "\<not> shard_upd_ok (itree idx) b"
    using short by (auto simp: at_separator_def idx_grow_ok_def)
  have nin: "bytes_of key \<notin> set (idx_keys idx b)" using g new by (auto simp: idx_good_def tracks_def)
  have "idx_inv idx" using g by (simp add: idx_good_def)
  from Idx_Index_lost [OF this b nin] True b(2) nin show ?thesis by (auto simp: indexed_or_lost_def)
next
  case False
  then have "idx_grow_ok idx b" if "\<not> unique idx" "index_of (extractor idx) v = Some b" for b
    using that by (auto simp: at_separator_def)
  from Idx_Index_good [OF g new len nt this] False show ?thesis by (auto simp: indexed_or_lost_def)
qed

lemma Indexed_Insert_outcome:
  assumes inv: "indexed_inv db" and ord: "valid_order order db" and nn: "key \<noteq> NilSlice"
    and len: "length (bytes_of key) < 2 ^ 32" and new: "shard_map (ptree db) (bytes_of key) = None" and short: "lists_short val db"
  shows "\<exists>db'. Indexed_Insert order key val db = Some (if clashes val db then Inl ErrUniqueViolation else Inr (), db') \<and>
    shard_inv (ptree db') \<and> schema (indexes db') = schema (indexes db) \<and>
    shard_map (ptree db') = (if clashes val db then shard_map (ptree db) else (shard_map (ptree db))(bytes_of key \<mapsto> val)) \<and>
    (\<forall>name idx'. indexes db' name = Some idx' \<longrightarrow> (\<exists>idx. indexes db name = Some idx \<and>
       (if clashes val db then idx_good idx' (shard_map (ptree db')) else indexed_or_lost key val (shard_map (ptree db')) idx idx')))"
proof -
  let ?m = "shard_map (ptree db)"
  have d: "distinct order" "set order = dom (indexes db)" using ord by (simp_all add: valid_order_def)
  have sinv: "shard_inv (ptree db)" using inv by (simp add: indexed_inv_def)
  have "\<exists>i'. insertCheck val idx = Some (if taken val idx then Inl ErrUniqueViolation else Inr (), i') \<and> same_idx idx i'"
    if "indexes db name = Some idx" for name idx using insertCheck_spec [OF indexed_good [OF inv that]] .
  then obtain ixs1 where
    c: "eachIndex (insertCheck val) order (indexes db) =
      Some (if \<exists>name idx. indexes db name = Some idx \<and> taken val idx then Inl ErrUniqueViolation else Inr (), ixs1)"
    "schema ixs1 = schema (indexes db)" "\<forall>name idx'. ixs1 name = Some idx' \<longrightarrow> (\<exists>idx. indexes db name = Some idx \<and> same_idx idx idx')"
    using indexed_check [of order "indexes db" "insertCheck val" "taken val" ErrUniqueViolation, OF d] by blast
  have cl: "(\<exists>name idx. indexes db name = Some idx \<and> taken val idx) \<longleftrightarrow> clashes val db"
    using taken_iff [OF indexed_good [OF inv], of _ _ val] unfolding clashes_def by blast
  have g1: "idx_good idx ?m" if "ixs1 name = Some idx" for name idx
    by (rule same_indexes_good [OF c(3) indexed_good [OF inv] that])
  show ?thesis
  proof (cases "clashes val db")
    case True
    then show ?thesis using c cl sinv g1 by (auto simp: Indexed_Insert_def) blast
  next
    case False
    obtain tree where t: "Sharded_Insert (ptree db) key val = Some tree" "shard_inv tree" "shard_map tree = ?m(bytes_of key \<mapsto> val)"
      using sharded.insert_fresh [OF sinv nn new] by blast
    let ?Q = "\<lambda>name idx i'. \<exists>i. indexes db name = Some i \<and> indexed_or_lost key val (shard_map tree) i i'"
    have "\<exists>i'. Idx_Index key val idx = Some (Inr (), i') \<and> extractor i' = extractor idx \<and> unique i' = unique idx \<and> ?Q name idx i'"
      if n: "ixs1 name = Some idx" for name idx
    proof -
      obtain i where i: "indexes db name = Some i" "same_idx i idx" using c(3) n by blast
      have "\<not> taken val i" using False cl i(1) by blast
      then have nt: "\<not> taken val idx" using i(2) by (simp add: taken_def same_idx_def)
      have "Suc (length (idx_keys idx b)) < 2 ^ 32" if "\<not> unique idx" "index_of (extractor idx) val = Some b" for b
        using short i that by (simp add: lists_short_def same_idx_def)
      from Idx_Index_outcome [OF g1 [OF n] new len nt this] obtain i' where
        i': "Idx_Index key val idx = Some (Inr (), i')" "extractor i' = extractor idx" "unique i' = unique idx"
        "indexed_or_lost key val (shard_map tree) idx i'" using t(3) by auto
      moreover have "indexed_or_lost key val (shard_map tree) i i'" using i'(4) i(2) by (auto simp: indexed_or_lost_def at_separator_def same_idx_def split: if_splits)
      ultimately show ?thesis using i(1) by blast
    qed
    moreover have "set order = dom ixs1" using d(2) schema_dom [OF c(2)] by simp
    ultimately obtain ixs2 where e: "eachIndex (Idx_Index key val) order ixs1 = Some (Inr (), ixs2)" "schema ixs2 = schema ixs1"
      "\<forall>name i'. ixs2 name = Some i' \<longrightarrow> (\<exists>idx. ixs1 name = Some idx \<and> ?Q name idx i')"
      using indexed_each [of order ixs1 "Idx_Index key val" ?Q] d(1) by blast
    then show ?thesis using c(1,2) cl False t by (auto simp: Indexed_Insert_def)
  qed
qed

lemma room_outcome:
  assumes "room val db"
  shows "lists_short val db" "indexes db name = Some idx \<Longrightarrow> \<not> at_separator val idx"
proof -
  have "Suc (length (idx_keys idx b)) < 2 ^ 32" if "idx_grow_ok idx b" for idx b using that by (auto simp: idx_grow_ok_def)
  then show "lists_short val db" "indexes db name = Some idx \<Longrightarrow> \<not> at_separator val idx"
    using assms by (auto simp: lists_short_def room_def at_separator_def)
qed

lemma insert_no_nil:
  assumes "NilSlice \<notin> ran m" "v \<noteq> NilSlice"
  shows "NilSlice \<notin> ran (m(k \<mapsto> v))"
  using assms by (auto simp: ran_def)

text \<open>
  \<open>Insert\<close> of a new record: what it answers, and what becomes of every index.
\<close>

lemma Indexed_Insert_full:
  assumes "indexed_inv db" "valid_order order db" "key \<noteq> NilSlice" "val \<noteq> NilSlice"
    "length (bytes_of key) < 2 ^ 32" "shard_map (ptree db) (bytes_of key) = None" "lists_short val db"
  shows "\<exists>db'. Indexed_Insert order key val db = Some (if clashes val db then Inl ErrUniqueViolation else Inr (), db') \<and>
    schema (indexes db') = schema (indexes db) \<and>
    shard_map (ptree db') = (if clashes val db then shard_map (ptree db) else (shard_map (ptree db))(bytes_of key \<mapsto> val)) \<and>
    (clashes val db \<or> room val db \<longrightarrow> indexed_inv db') \<and>
    (\<forall>name idx b. \<not> clashes val db \<and> indexes db name = Some idx \<and> \<not> unique idx \<and> index_of (extractor idx) val = Some b \<and>
       \<not> shard_upd_ok (itree idx) b \<longrightarrow>
       (\<exists>ps db''. FindAllByIndex name (Bytes b) db' = Some (Inr (map Bytes ps), db'') \<and>
          set ps = {p. \<exists>w. shard_map (ptree db) p = Some w \<and> index_of (extractor idx) w = Some b} \<and> bytes_of key \<notin> set ps))"
proof -
  obtain db' where d: "Indexed_Insert order key val db = Some (if clashes val db then Inl ErrUniqueViolation else Inr (), db')"
    "shard_inv (ptree db')" "schema (indexes db') = schema (indexes db)"
    "shard_map (ptree db') = (if clashes val db then shard_map (ptree db) else (shard_map (ptree db))(bytes_of key \<mapsto> val))"
    "\<forall>name idx'. indexes db' name = Some idx' \<longrightarrow> (\<exists>idx. indexes db name = Some idx \<and>
       (if clashes val db then idx_good idx' (shard_map (ptree db')) else indexed_or_lost key val (shard_map (ptree db')) idx idx'))"
    using Indexed_Insert_outcome [OF assms(1-3,5-7)] by blast
  have "NilSlice \<notin> ran (shard_map (ptree db'))"
    using assms(1) d(4) insert_no_nil [OF _ assms(4), of "shard_map (ptree db)" "bytes_of key"] by (auto simp: indexed_inv_def)
  moreover have "idx_good idx' (shard_map (ptree db'))" if c: "clashes val db \<or> room val db" and n: "indexes db' name = Some idx'" for name idx'
  proof -
    obtain idx where "indexes db name = Some idx"
      "if clashes val db then idx_good idx' (shard_map (ptree db')) else indexed_or_lost key val (shard_map (ptree db')) idx idx'"
      using d(5) n by blast
    then show ?thesis using c room_outcome(2) [of val db name idx] by (cases "clashes val db") (simp_all add: indexed_or_lost_def)
  qed
  ultimately have "clashes val db \<or> room val db \<longrightarrow> indexed_inv db'" using d(2) by (simp add: indexed_inv_def)
  moreover have "\<exists>ps db''. FindAllByIndex name (Bytes b) db' = Some (Inr (map Bytes ps), db'') \<and>
      set ps = {p. \<exists>w. shard_map (ptree db) p = Some w \<and> index_of (extractor idx) w = Some b} \<and> bytes_of key \<notin> set ps"
    if a: "\<not> clashes val db" "indexes db name = Some idx" "\<not> unique idx" "index_of (extractor idx) val = Some b"
      "\<not> shard_upd_ok (itree idx) b" for name idx b
  proof -
    have g: "idx_inv idx" "tracks (idx_keys idx) (extractor idx) (shard_map (ptree db))"
      using indexed_good [OF assms(1) a(2)] by (simp_all add: idx_good_def)
    then have "idx_keys idx b \<noteq> []" using sharded_shadow [of "itree idx" "Bytes b"] a(5) idx_keys_Nil [OF g(1), of b] by (auto simp: idx_inv_def)
    then have s: "at_separator val idx" using a(3-5) by (auto simp: at_separator_def idx_grow_ok_def)
    obtain idx' where i: "indexes db' name = Some idx'" using schema_dom [OF d(3)] a(2) by blast
    then obtain i'' where "Idx_FindAll (Bytes b) idx' = Some (Inr (map Bytes (idx_keys idx b)), i'')" "bytes_of key \<notin> set (idx_keys idx b)"
      using d(5) [rule_format, OF i] a s by (auto simp: indexed_or_lost_def)
    moreover have "set (idx_keys idx b) = {p. \<exists>w. shard_map (ptree db) p = Some w \<and> index_of (extractor idx) w = Some b}"
      using g(2) by (auto simp: tracks_def)
    ultimately show ?thesis using i by (intro exI [of _ "idx_keys idx b"]) (simp add: FindAllByIndex_def)
  qed
  ultimately show ?thesis using d(1,3,4) by blast
qed

lemma Indexed_Insert_law:
  assumes inv: "indexed_inv db" and ord: "valid_order order db" and nn: "key \<noteq> NilSlice" "val \<noteq> NilSlice"
    and len: "length (bytes_of key) < 2 ^ 32" and new: "shard_map (ptree db) (bytes_of key) = None" and room: "room val db"
  shows "\<exists>db'. Indexed_Insert order key val db = Some (if clashes val db then Inl ErrUniqueViolation else Inr (), db') \<and>
    indexed_inv db' \<and> schema (indexes db') = schema (indexes db) \<and>
    shard_map (ptree db') = (if clashes val db then shard_map (ptree db) else (shard_map (ptree db))(bytes_of key \<mapsto> val))"
  using Indexed_Insert_full [OF inv ord nn len new room_outcome(1) [OF room]] room by blast

section \<open>Delete\<close>

definition shrink_room :: "Keytype \<Rightarrow> IndexedBTree \<Rightarrow> bool" where
  "shrink_room key db \<longleftrightarrow> (\<forall>name idx v b. indexes db name = Some idx \<and> shard_map (ptree db) (bytes_of key) = Some v \<and>
     index_of (extractor idx) v = Some b \<longrightarrow> idx_shrink_ok idx b (bytes_of key))"

lemma indexed_find:
  assumes "indexed_inv db"
  obtains tree where "Sharded_Find (ptree db) key = Some (case shard_map (ptree db) (bytes_of key) of None \<Rightarrow> Inl ErrKeyNotFound | Some v \<Rightarrow> Inr v, tree)"
    "shard_inv tree" "shard_map tree = shard_map (ptree db)" "\<And>b. shard_upd_ok tree b = shard_upd_ok (ptree db) b"
    "NilSlice \<notin> ran (shard_map tree)"
proof -
  let ?m = "shard_map (ptree db)"
  have inv: "shard_inv (ptree db)" "NilSlice \<notin> ran ?m" using assms by (simp_all add: indexed_inv_def)
  obtain tree where t: "Sharded_Find (ptree db) key = Some (find_result (?m (bytes_of key)), tree)"
    "shard_inv tree" "shard_map tree = ?m" using sharded.find_law [OF inv(1), of key] by blast
  have "slice_copy v = v" if "?m b = Some v" for b v
    using inv(2) that by (cases v) (auto simp: ran_def slice_copy_def)
  then have "find_result (?m (bytes_of key)) = (case ?m (bytes_of key) of None \<Rightarrow> Inl ErrKeyNotFound | Some v \<Rightarrow> Inr v)"
    by (simp split: option.split)
  moreover have "shards tree = shards (ptree db) \<and> numShards tree = numShards (ptree db)"
    using t(1) by (auto simp: Sharded_Find_def Let_def split: bind_splits)
  then have "shard_upd_ok tree b = shard_upd_ok (ptree db) b" for b by (simp add: shard_upd_ok_def route_def)
  ultimately show ?thesis using that t inv(2) by simp
qed

lemma removeIgnoring_good:
  assumes "idx_good idx m" "m (bytes_of key) = Some v" "\<And>b. index_of (extractor idx) v = Some b \<Longrightarrow> idx_shrink_ok idx b (bytes_of key)"
  shows "\<exists>i'. Idx_Remove key v idx = Some (Inr (), i') \<and> idx_good i' (m(bytes_of key := None)) \<and> extractor i' = extractor idx \<and> unique i' = unique idx"
proof -
  have a: "idx_inv idx" "extractor idx v \<noteq> None" "tracks (idx_keys idx) (extractor idx) m" "\<forall>v. extractor idx v \<noteq> None"
    using assms(1) by (simp_all add: idx_good_def)
  from index.rem_tracks [OF a(1-3) assms(2,3)] obtain i' where "Idx_Remove key v idx = Some (Inr (), i')" "idx_inv i'"
    "tracks (idx_keys i') (extractor i') (m(bytes_of key := None))" "extractor i' = extractor idx" "unique i' = unique idx" by blast
  then show ?thesis using a(4) by (auto simp: idx_good_def)
qed

lemma Indexed_Delete_law:
  assumes inv: "indexed_inv db" and ord: "valid_order order db" and room: "shrink_room key db"
  shows "\<exists>db'. Indexed_Delete order key db = Some (Inr (shard_map (ptree db) (bytes_of key) \<noteq> None), db') \<and> indexed_inv db' \<and>
    schema (indexes db') = schema (indexes db) \<and> shard_map (ptree db') = (shard_map (ptree db))(bytes_of key := None)"
proof -
  let ?m = "shard_map (ptree db)"
  obtain tree0 where t0: "Sharded_Find (ptree db) key = Some (case ?m (bytes_of key) of None \<Rightarrow> Inl ErrKeyNotFound | Some v \<Rightarrow> Inr v, tree0)"
    "shard_inv tree0" "shard_map tree0 = ?m" "NilSlice \<notin> ran (shard_map tree0)" using indexed_find [OF inv, of key] by metis
  show ?thesis
  proof (cases "?m (bytes_of key)")
    case None
    have "indexed_inv (db\<lparr>ptree := tree0\<rparr>)" using inv t0 by (simp add: indexed_inv_def)
    moreover have "?m(bytes_of key := None) = ?m" using None by (simp add: fun_eq_iff)
    ultimately show ?thesis using None t0(1,3) by (simp add: Indexed_Delete_def)
  next
    case (Some v)
    obtain tree where t: "Sharded_Delete tree0 key = Some (True, tree)" "shard_inv tree" "shard_map tree = ?m(bytes_of key := None)"
      using sharded.delete_law [OF t0(2), of key] t0(3) Some by auto
    have "\<exists>i'. removeIgnoring key v idx = Some (Inr (), i') \<and> idx_good i' (shard_map tree) \<and> extractor i' = extractor idx \<and> unique i' = unique idx"
      if "indexes db name = Some idx" for name idx
    proof -
      have "idx_shrink_ok idx b (bytes_of key)" if "index_of (extractor idx) v = Some b" for b
        using room Some that \<open>indexes db name = Some idx\<close> unfolding shrink_room_def by blast
      from removeIgnoring_good [OF indexed_good [OF inv that] Some this] obtain i' where "Idx_Remove key v idx = Some (Inr (), i')"
        "idx_good i' (?m(bytes_of key := None))" "extractor i' = extractor idx" "unique i' = unique idx" by blast
      then show ?thesis using t(3) by (simp add: removeIgnoring_def)
    qed
    then obtain ixs1 where
      e: "eachIndex (removeIgnoring key v) order (indexes db) = Some (Inr (), ixs1)" "schema ixs1 = schema (indexes db)"
      "\<forall>name idx. ixs1 name = Some idx \<longrightarrow> idx_good idx (shard_map tree)"
      using indexed_loop [of order "indexes db" "removeIgnoring key v" "shard_map tree"] ord unfolding valid_order_def by blast
    have "NilSlice \<notin> ran (shard_map tree)" using t0(3,4) t(3) by (auto simp: ran_def split: if_splits)
    then have "indexed_inv (db\<lparr>ptree := tree, indexes := ixs1\<rparr>)" using t(2) e(3) by (simp add: indexed_inv_def)
    moreover have "Indexed_Delete order key db = Some (Inr True, db\<lparr>ptree := tree, indexes := ixs1\<rparr>)"
      using t0(1) Some t(1) e(1) by (simp add: Indexed_Delete_def)
    ultimately show ?thesis using Some t(3) e(2) by simp
  qed
qed

section \<open>Update\<close>

text \<open>Another record has the value's key in a unique index.\<close>

definition clashesOther :: "Keytype \<Rightarrow> Valuetype \<Rightarrow> IndexedBTree \<Rightarrow> bool" where
  "clashesOther key v db \<longleftrightarrow> (\<exists>name idx. indexes db name = Some idx \<and> unique idx \<and> (\<exists>b p w. index_of (extractor idx) v = Some b \<and>
     p \<noteq> bytes_of key \<and> shard_map (ptree db) p = Some w \<and> index_of (extractor idx) w = Some b))"

text \<open>
  The update moves the record, in every index, between keys that are not empty; in a non-unique
  index it moves to a key that no record has.
\<close>

definition moves_clear :: "Valuetype \<Rightarrow> Valuetype \<Rightarrow> IndexedBTree \<Rightarrow> bool" where
  "moves_clear old new db \<longleftrightarrow> (\<forall>name idx. indexes db name = Some idx \<longrightarrow>
     index_of (extractor idx) old \<noteq> Some [] \<and> index_of (extractor idx) new \<noteq> Some [] \<and>
     (\<forall>b. \<not> unique idx \<and> index_of (extractor idx) new = Some b \<and> index_of (extractor idx) old \<noteq> Some b \<longrightarrow> idx_keys idx b = []))"

definition moveTaken :: "Valuetype \<Rightarrow> Valuetype \<Rightarrow> SecondaryIndex \<Rightarrow> bool" where
  "moveTaken old new idx \<longleftrightarrow> taken new idx \<and> index_of (extractor idx) old \<noteq> index_of (extractor idx) new"

lemma bytesEqual_iff: "bytesEqual a b \<longleftrightarrow> a = b"
proof (cases a; cases b)
  fix x y
  assume "a = Bytes x" "b = Bytes y"
  moreover have "x = y \<longleftrightarrow> length x = length y \<and> (\<forall>i < length x. x ! i = y ! i)" by (rule list_eq_iff_nth_eq)
  ultimately show ?thesis by (simp add: bytesEqual_def list_all_iff Ball_def)
qed (simp_all add: bytesEqual_def)

lemma updateCheck_spec:
  assumes "idx_good idx m"
  shows "\<exists>i'. updateCheck old new idx = Some (if moveTaken old new idx then Inl ErrUniqueViolation else Inr (), i') \<and> same_idx idx i'"
proof (cases "unique idx")
  case True
  have inv: "idx_inv idx" using assms by (simp add: idx_good_def)
  obtain k where k: "extractor idx old = Some k" using assms by (auto simp: idx_good_def)
  from assms show ?thesis
  proof (cases rule: index_cases [where v = new])
    case nil
    then show ?thesis using True k by (simp add: updateCheck_def moveTaken_def taken_def)
  next
    case (key b)
    have "index_of (extractor idx) old = Some b \<longleftrightarrow> k = Bytes b" using k by (simp add: index_of_Some)
    then show ?thesis using True k key checkTaken_spec [OF inv True, of b]
      by (auto simp: updateCheck_def moveTaken_def taken_def bytesEqual_iff)
  qed
qed (simp add: updateCheck_def moveTaken_def taken_def)

lemma moveTaken_iff:
  assumes "idx_good idx m" "m k = Some old"
  shows "moveTaken old new idx \<longleftrightarrow> unique idx \<and> (\<exists>b p w. index_of (extractor idx) new = Some b \<and> p \<noteq> k \<and> m p = Some w \<and>
    index_of (extractor idx) w = Some b)"
proof -
  have u: "p = q" if "unique idx" "m p = Some v" "m q = Some w" "index_of (extractor idx) v = Some b" "index_of (extractor idx) w = Some b" for p q v w b
    using index.uniq_tracks that assms(1) by (metis idx_good_def)
  show ?thesis
  proof
    assume "moveTaken old new idx"
    then obtain b p w where *: "unique idx" "index_of (extractor idx) new = Some b" "m p = Some w" "index_of (extractor idx) w = Some b"
      "index_of (extractor idx) old \<noteq> Some b"
      unfolding moveTaken_def taken_iff [OF assms(1)] by metis
    then have "p \<noteq> k" using assms(2) by auto
    then show "unique idx \<and> (\<exists>b p w. index_of (extractor idx) new = Some b \<and> p \<noteq> k \<and> m p = Some w \<and> index_of (extractor idx) w = Some b)"
      using * by blast
  next
    assume "unique idx \<and> (\<exists>b p w. index_of (extractor idx) new = Some b \<and> p \<noteq> k \<and> m p = Some w \<and> index_of (extractor idx) w = Some b)"
    then obtain b p w where *: "unique idx" "index_of (extractor idx) new = Some b" "p \<noteq> k" "m p = Some w" "index_of (extractor idx) w = Some b"
      by blast
    then have "index_of (extractor idx) old \<noteq> Some b" using u [OF *(1) *(4) assms(2) *(5)] by blast
    then show "moveTaken old new idx" using * unfolding moveTaken_def taken_iff [OF assms(1)] by metis
  qed
qed

lemma Idx_Update_good:
  assumes good: "idx_good idx m" and old: "m (bytes_of key) = Some old" and len: "length (bytes_of key) < 2 ^ 32"
    and ne: "index_of (extractor idx) old \<noteq> Some []" "index_of (extractor idx) new \<noteq> Some []"
    and shrink: "\<And>b. index_of (extractor idx) old = Some b \<Longrightarrow> idx_shrink_ok idx b (bytes_of key)"
    and fresh: "\<And>b. index_of (extractor idx) new = Some b \<Longrightarrow> index_of (extractor idx) old \<noteq> Some b \<Longrightarrow> idx_keys idx b = []"
  shows "\<exists>i'. Idx_Update key old new idx = Some (Inr (), i') \<and> idx_good i' (m(bytes_of key \<mapsto> new)) \<and> extractor i' = extractor idx \<and> unique i' = unique idx"
proof -
  obtain k n where e: "extractor idx old = Some k" "extractor idx new = Some n"
    using good unfolding idx_good_def by (metis option.exhaust)
  have eq: "bytes_Equal k n \<longleftrightarrow> index_of (extractor idx) old = index_of (extractor idx) new"
    using e ne by (cases k; cases n) (auto simp: index_of_def)
  show ?thesis
  proof (cases "index_of (extractor idx) old = index_of (extractor idx) new")
    case True
    have "(\<exists>v. m p = Some v \<and> index_of (extractor idx) v = Some b) \<longleftrightarrow>
        (\<exists>v. (m(bytes_of key \<mapsto> new)) p = Some v \<and> index_of (extractor idx) v = Some b)" for p b
      using old True by (cases "p = bytes_of key") auto
    then have "idx_good idx (m(bytes_of key \<mapsto> new))" using good by (simp add: idx_good_def tracks_def)
    then show ?thesis using e eq True by (simp add: Idx_Update_def)
  next
    case False
    let ?m = "m(bytes_of key := None)"
    obtain i1 where i1: "Idx_Remove key old idx = Some (Inr (), i1)" "idx_good i1 ?m" "extractor i1 = extractor idx" "unique i1 = unique idx"
      using removeIgnoring_good [OF good old shrink] by blast
    have nokey: "idx_keys i1 b = []" if "index_of (extractor idx) new = Some b" for b
    proof -
      have "index_of (extractor idx) old \<noteq> Some b" using False that by simp
      then have "idx_keys idx b = []" using fresh [OF that] by blast
      then have "\<not> (\<exists>p v. m p = Some v \<and> index_of (extractor idx) v = Some b)"
        using good unfolding idx_good_def tracks_def by (metis empty_iff list.set(1))
      then have "p \<notin> set (idx_keys i1 b)" for p
        using i1(2,3) unfolding idx_good_def tracks_def by (metis fun_upd_apply option.distinct(1))
      then show ?thesis by (cases "idx_keys i1 b") auto
    qed
    have "?m (bytes_of key) = None" by simp
    moreover have "\<not> taken new i1" using nokey i1(3) by (auto simp: taken_def)
    moreover have "idx_grow_ok i1 b" if "index_of (extractor i1) new = Some b" for b
      using nokey [of b] that i1(3) by (simp add: idx_grow_ok_def)
    ultimately obtain i2 where "Idx_Index key new i1 = Some (Inr (), i2)" "idx_good i2 (?m(bytes_of key \<mapsto> new))"
      "extractor i2 = extractor i1" "unique i2 = unique i1"
      using Idx_Index_good [OF i1(2) _ len] by blast
    then show ?thesis using e eq False i1 by (simp add: Idx_Update_def)
  qed
qed

lemma Indexed_Update_absent:
  assumes "indexed_inv db" "shard_map (ptree db) (bytes_of key) = None"
  shows "\<exists>db'. Indexed_Update order key new db = Some (Inl ErrKeyNotFound, db') \<and> indexed_inv db' \<and>
    indexes db' = indexes db \<and> shard_map (ptree db') = shard_map (ptree db)"
proof -
  obtain tree0 where t0: "Sharded_Find (ptree db) key = Some (Inl ErrKeyNotFound, tree0)"
    "shard_inv tree0" "shard_map tree0 = shard_map (ptree db)" "NilSlice \<notin> ran (shard_map tree0)"
    using indexed_find [OF assms(1), of key] assms(2) by (metis option.case(1))
  then have "indexed_inv (db\<lparr>ptree := tree0\<rparr>)" using assms(1) by (simp add: indexed_inv_def)
  then show ?thesis using t0 by (simp add: Indexed_Update_def)
qed

section \<open>Queries\<close>

lemma FindAllByIndex_law:
  assumes "indexed_inv db" "indexes db name = Some idx"
  shows "\<exists>ps db'. FindAllByIndex name (Bytes b) db = Some (if ps = [] then Inl ErrKeyNotFound else Inr (map Bytes ps), db') \<and>
    set ps = {p. \<exists>v. shard_map (ptree db) p = Some v \<and> index_of (extractor idx) v = Some b} \<and> (unique idx \<longrightarrow> length ps \<le> 1)"
proof -
  have a: "idx_inv idx" "tracks (idx_keys idx) (extractor idx) (shard_map (ptree db))"
    using indexed_good [OF assms] by (simp_all add: idx_good_def)
  obtain i' where i': "Idx_FindAll (Bytes b) idx = Some (if idx_keys idx b = [] then Inl ErrKeyNotFound else Inr (map Bytes (idx_keys idx b)), i')"
    using index.find_law [OF a(1), of "Bytes b"] by auto
  have "set (idx_keys idx b) = {p. \<exists>v. shard_map (ptree db) p = Some v \<and> index_of (extractor idx) v = Some b}"
    using a(2) by (auto simp: tracks_def)
  moreover have "unique idx \<longrightarrow> length (idx_keys idx b) \<le> 1" using index.uniq_law [OF a(1)] by blast
  moreover have "FindAllByIndex name (Bytes b) db = Some (if idx_keys idx b = [] then Inl ErrKeyNotFound else Inr (map Bytes (idx_keys idx b)),
      db\<lparr>indexes := (indexes db)(name \<mapsto> i')\<rparr>)"
    using assms(2) i' by (simp add: FindAllByIndex_def)
  ultimately show ?thesis by blast
qed

text \<open>The index key of a stored record.\<close>

definition stored_key :: "KeyExtractor \<Rightarrow> (bytes \<rightharpoonup> Valuetype) \<Rightarrow> bytes \<Rightarrow> bytes option" where
  "stored_key e m p = Option.bind (m p) (index_of e)"

lemma tracks_stored: "tracks ks e m \<longleftrightarrow> (\<forall>b p. p \<in> set (ks b) \<longleftrightarrow> stored_key e m p = Some b)"
  by (simp add: tracks_def stored_key_def bind_eq_Some_conv)

lemma sorted_groups:
  "sorted_wrt (<) bs \<Longrightarrow> (\<And>b p. b \<in> set bs \<Longrightarrow> p \<in> set (K b) \<Longrightarrow> f p = b) \<Longrightarrow> sorted (map f (concat (map K bs)))"
  for bs :: "'b :: linorder list"
proof (induction bs)
  case (Cons b bs)
  have "map f (K b) = replicate (length (K b)) b" using Cons.prems(2) [of b] by (intro replicate_eqI) auto
  moreover have "sorted (map f (concat (map K bs)))" using Cons by simp
  moreover have "b \<le> f p" if "p \<in> set (concat (map K bs))" for p
    using Cons.prems that by (auto intro: less_imp_le)
  ultimately show ?case by (auto simp: sorted_append)
qed simp

lemma Idx_FindRange_keys:
  assumes "idx_inv idx" "bytes_of lo \<le> bytes_of hi"
  shows "\<exists>ps bs. Idx_FindRange lo hi idx = Some (Inr ps) \<and> map bytes_of ps = concat (map (idx_keys idx) bs) \<and> sorted_wrt (<) bs \<and>
    set bs = {b. bytes_of lo \<le> b \<and> b \<le> bytes_of hi \<and> idx_keys idx b \<noteq> []}"
proof -
  let ?m = "map_range lo hi (shard_map (itree idx))" and ?f = "\<lambda>v. if unique idx then [v] else decodePrimaryKeys v"
  have inv: "shard_inv (itree idx)" using assms(1) by (simp add: idx_inv_def)
  obtain ks vs where r: "Sharded_GetRange (itree idx) lo hi = Some (Inr (ks, vs))" "lists_map ks vs ?m"
    using sharded.range_law [OF inv assms(2)] by blast
  have l: "length ks = length vs" "sorted_wrt (<) (map bytes_of ks)" and z: "map_of (zip (map bytes_of ks) vs) = map_option slice_copy \<circ> ?m"
    using r(2) by (simp_all add: lists_map_def)
  have "map bytes_of (?f (vs ! j)) = idx_keys idx (bytes_of (ks ! j))" if j: "j < length ks" for j
  proof -
    have "distinct (map bytes_of ks)" using l(2) by (simp add: strict_sorted_iff)
    then have "map_of (zip (map bytes_of ks) vs) (bytes_of (ks ! j)) = Some (vs ! j)"
      using map_of_zip_nth [of "map bytes_of ks" vs j] l(1) j by simp
    then obtain w where "?m (bytes_of (ks ! j)) = Some w" "vs ! j = slice_copy w" unfolding z by auto
    then show ?thesis by (auto simp: map_range_def idx_keys_def val_keys_def split: if_splits)
  qed
  then have "map (\<lambda>v. map bytes_of (?f v)) vs = map (idx_keys idx) (map bytes_of ks)"
    using l(1) by (intro nth_equalityI) simp_all
  then have "map bytes_of (concat (map ?f vs)) = concat (map (idx_keys idx) (map bytes_of ks))"
    by (simp only: map_concat map_map comp_def)
  moreover have "Idx_FindRange lo hi idx = Some (Inr (concat (map ?f vs)))" using r(1) by (simp add: Idx_FindRange_def)
  moreover have "set (map bytes_of ks) = {b. bytes_of lo \<le> b \<and> b \<le> bytes_of hi \<and> idx_keys idx b \<noteq> []}"
    unfolding lists_map_dom [OF r(2)] using idx_keys_Nil [OF assms(1)] by (auto simp: map_range_def split: if_splits)
  ultimately show ?thesis using l(2) by blast
qed

lemma FindRangeByIndex_law:
  assumes inv: "indexed_inv db" and idx: "indexes db name = Some idx" and le: "bytes_of lo \<le> bytes_of hi"
  shows "\<exists>ps. FindRangeByIndex name lo hi db = Some (Inr ps) \<and>
    (let key = stored_key (extractor idx) (shard_map (ptree db)) in
     set (map bytes_of ps) = {p. \<exists>b. key p = Some b \<and> bytes_of lo \<le> b \<and> b \<le> bytes_of hi} \<and>
     sorted (map (\<lambda>p. the (key (bytes_of p))) ps))"
proof -
  let ?key = "stored_key (extractor idx) (shard_map (ptree db))"
  have a: "idx_inv idx" "\<And>b p. p \<in> set (idx_keys idx b) \<longleftrightarrow> ?key p = Some b"
    using indexed_good [OF inv idx] by (simp_all add: idx_good_def tracks_stored)
  obtain ps bs where r: "Idx_FindRange lo hi idx = Some (Inr ps)" "map bytes_of ps = concat (map (idx_keys idx) bs)" "sorted_wrt (<) bs"
    "set bs = {b. bytes_of lo \<le> b \<and> b \<le> bytes_of hi \<and> idx_keys idx b \<noteq> []}" using Idx_FindRange_keys [OF a(1) le] by blast
  have "set (map bytes_of ps) = (\<Union>b \<in> set bs. set (idx_keys idx b))" unfolding r(2) by simp
  also have "\<dots> = {p. \<exists>b. bytes_of lo \<le> b \<and> b \<le> bytes_of hi \<and> idx_keys idx b \<noteq> [] \<and> p \<in> set (idx_keys idx b)}" unfolding r(4) by blast
  also have "\<dots> = {p. \<exists>b. ?key p = Some b \<and> bytes_of lo \<le> b \<and> b \<le> bytes_of hi}"
    unfolding a(2) [symmetric] by (rule Collect_cong) (metis empty_iff list.set(1))
  finally have "set (map bytes_of ps) = {p. \<exists>b. ?key p = Some b \<and> bytes_of lo \<le> b \<and> b \<le> bytes_of hi}" .
  moreover have "sorted (map (\<lambda>p. the (?key p)) (map bytes_of ps))"
    unfolding r(2) by (rule sorted_groups [OF r(3)]) (use a(2) in simp)
  moreover have "FindRangeByIndex name lo hi db = Some (Inr ps)" using idx r(1) by (simp add: FindRangeByIndex_def)
  ultimately show ?thesis by (simp add: comp_def Let_def)
qed

section \<open>Building an index on stored records\<close>

definition shard_entries :: "ShardedBTree \<Rightarrow> (Keytype \<times> Valuetype) list" where
  "shard_entries s = concat (map tree_entries (shards s))"

lemma shard_entries_content:
  assumes inv: "shard_inv s"
  shows "distinct (map ekey (shard_entries s))" and "content (shard_entries s) = shard_map s"
proof -
  let ?n = "length (shards s)" and ?kv = "\<lambda>p :: Keytype \<times> Valuetype. (ekey p, snd p)"
  let ?e = "\<lambda>i. tree_entries (shards s ! i)"
  have es: "shard_entries s = concat (map ?e [0..<?n])"
    unfolding shard_entries_def by (rule arg_cong [of _ _ concat]) (rule nth_equalityI, simp_all)
  have r: "route s k = i" if "k \<in> set (map ekey (?e i))" "i < ?n" for k i
    using that inv dom_content [of "?e i"] by (auto simp: shard_inv_def tree_map_def)
  have st: "strict (?e i)" if "i < ?n" for i using inv that by (simp add: shard_inv_def tree_inv_def tree_strict_def)
  show "distinct (map ekey (shard_entries s))"
    unfolding es map_concat map_map comp_def
  proof (rule distinct_concat_map)
    show "set (map ekey (?e i)) \<inter> set (map ekey (?e j)) = {}" if "i \<in> set [0..<?n]" "j \<in> set [0..<?n]" "i \<noteq> j" for i j
      using r [of _ i] r [of _ j] that by (metis atLeastLessThan_iff disjoint_iff set_upt)
    show "distinct (map ekey (?e i))" if "i \<in> set [0..<?n]" for i using strict_distinct [OF st] that by simp
  qed simp
  show "content (shard_entries s) = shard_map s"
  proof
    fix k
    have "map_of (map ?kv (?e j)) k = None" if "j < ?n" "j \<noteq> route s k" for j
      using r [of k j] that by (auto simp: map_of_eq_None_iff image_image)
    then have "map_of (concat (map (\<lambda>i. map ?kv (?e i)) [0..<?n])) k = map_of (map ?kv (?e (route s k))) k"
      using inv by (intro map_of_concat_at) auto
    then show "content (shard_entries s) k = shard_map s k"
      by (simp add: es content_def map_concat comp_def shard_map_def tree_map_def)
  qed
qed

text \<open>No two records have the same index key.\<close>

definition separate :: "KeyExtractor \<Rightarrow> (bytes \<rightharpoonup> Valuetype) \<Rightarrow> bool" where
  "separate e m \<longleftrightarrow> (\<forall>p q v w b. m p = Some v \<and> m q = Some w \<and> index_of e v = Some b \<and> index_of e w = Some b \<longrightarrow> p = q)"

lemma separate_sub: "separate e m' \<Longrightarrow> m \<subseteq>\<^sub>m m' \<Longrightarrow> separate e m"
  unfolding separate_def map_le_def by (metis domI)

lemma rebuild_step:
  assumes good: "idx_good idx m" and new: "m (bytes_of k) = None" and len: "length (bytes_of k) < 2 ^ 32"
    and u: "unique idx \<or> separate (extractor idx) (m(bytes_of k \<mapsto> v))"
  shows "(\<exists>i'. Idx_Index k v idx = Some (Inr (), i') \<and> idx_good i' (m(bytes_of k \<mapsto> v)) \<and> extractor i' = extractor idx \<and> unique i' = unique idx) \<or>
    (\<exists>i'. Idx_Index k v idx = Some (Inl ErrDuplicateKey, i') \<and> \<not> separate (extractor idx) (m(bytes_of k \<mapsto> v)))"
proof (cases "\<exists>b. index_of (extractor idx) v = Some b \<and> idx_keys idx b \<noteq> []")
  case True
  then obtain b p where b: "index_of (extractor idx) v = Some b" "idx_keys idx b \<noteq> []" "p \<in> set (idx_keys idx b)"
    by (metis list.set_intros(1) neq_Nil_conv)
  then obtain w where "m p = Some w" "index_of (extractor idx) w = Some b" using good by (auto simp: idx_good_def tracks_def)
  moreover then have "p \<noteq> bytes_of k" using new by auto
  ultimately have ns: "\<not> separate (extractor idx) (m(bytes_of k \<mapsto> v))" using b(1) unfolding separate_def by (metis fun_upd_apply)
  then show ?thesis using index.dup_law [of idx v b k] good u b by (auto simp: idx_good_def)
next
  case False
  then have "\<not> taken v idx" "\<And>b. index_of (extractor idx) v = Some b \<Longrightarrow> idx_grow_ok idx b" by (auto simp: taken_def idx_grow_ok_def)
  then show ?thesis using Idx_Index_good [OF good new len] by blast
qed

lemma rebuild_run:
  assumes "idx_good idx m" "distinct (map ekey es)" "\<And>p. p \<in> set es \<Longrightarrow> m (ekey p) = None \<and> length (ekey p) < 2 ^ 32"
    "unique idx \<or> separate (extractor idx) (m ++ content es)"
  shows "\<exists>idx'. if separate (extractor idx) (m ++ content es)
    then snd (run_until rebuildCallback es (Some (idx, None))) = Some (idx', None) \<and> idx_good idx' (m ++ content es) \<and>
      extractor idx' = extractor idx \<and> unique idx' = unique idx
    else snd (run_until rebuildCallback es (Some (idx, None))) = Some (idx', Some ErrDuplicateKey)"
  using assms
proof (induction es arbitrary: idx m)
  case Nil
  have "separate (extractor idx) m" if "unique idx"
    using Nil.prems(1) that index.uniq_tracks [of idx m] unfolding idx_good_def separate_def by blast
  then show ?case using Nil.prems by auto
next
  case (Cons p es)
  obtain k v where p: "p = (k, v)" by fastforce
  let ?m = "m(bytes_of k \<mapsto> v)"
  have new: "m (bytes_of k) = None" "length (bytes_of k) < 2 ^ 32" using Cons.prems(3) [of p] p by auto
  have notin: "bytes_of k \<notin> ekey ` set es" using Cons.prems(2) p by auto
  have other: "m (ekey q) = None \<and> ekey q \<noteq> bytes_of k \<and> length (ekey q) < 2 ^ 32" if "q \<in> set es" for q
    using Cons.prems(3) [of q] that notin by force
  have tot: "m ++ content (p # es) = ?m ++ content es"
    using notin p content_None_iff [of es "bytes_of k"] by (auto simp: content_Cons map_add_def fun_eq_iff split: option.splits)
  have le: "?m \<subseteq>\<^sub>m ?m ++ content es"
    unfolding map_le_def
  proof
    fix x
    assume "x \<in> dom ?m"
    then have "x \<notin> ekey ` set es" using other by (force split: if_splits)
    then show "?m x = (?m ++ content es) x" using content_None_iff [of es x] by (simp add: map_add_def)
  qed
  have u: "unique idx \<or> separate (extractor idx) ?m" using Cons.prems(4) separate_sub [OF _ le] unfolding tot by blast
  consider i' where "Idx_Index k v idx = Some (Inr (), i')" "idx_good i' ?m" "extractor i' = extractor idx" "unique i' = unique idx"
    | i' where "Idx_Index k v idx = Some (Inl ErrDuplicateKey, i')" "\<not> separate (extractor idx) ?m"
    using rebuild_step [OF Cons.prems(1) new u] by blast
  then show ?case
  proof cases
    case 1
    have r: "run_until rebuildCallback (p # es) (Some (idx, None)) = run_until rebuildCallback es (Some (i', None))"
      using 1(1) p by (simp add: rebuildCallback_def)
    have d: "distinct (map ekey es)" using Cons.prems(2) by simp
    have n: "?m (ekey q) = None \<and> length (ekey q) < 2 ^ 32" if "q \<in> set es" for q using other [OF that] by simp
    have u': "unique i' \<or> separate (extractor i') (?m ++ content es)" using Cons.prems(4) 1(3,4) unfolding tot by simp
    show ?thesis using Cons.IH [OF 1(2) d n u'] unfolding r tot 1(3,4) .
  next
    case 2
    have "\<not> separate (extractor idx) (?m ++ content es)" using 2(2) separate_sub [OF _ le] by blast
    then show ?thesis using 2(1) p unfolding tot by (simp add: rebuildCallback_def)
  qed
qed

lemma NewSecondaryIndex_good:
  assumes "\<forall>v. ext v \<noteq> None" "icExtractor config = ext" "icNumShards config < 2 ^ 32"
  shows "idx_good (NewSecondaryIndex config) Map.empty"
proof -
  let ?n = "if icNumShards config \<le> 0 then 4 else icNumShards config"
  have "shard_inv (NewShardedBTree 1 \<lparr>cfgNumShards = ?n\<rparr>) \<and> shard_map (NewShardedBTree 1 \<lparr>cfgNumShards = ?n\<rparr>) = Map.empty"
    by (rule NewShardedBTree_inv [OF refl]) (use assms(3) in auto)
  then show ?thesis using assms(1,2)
    by (simp add: idx_good_def idx_inv_def NewSecondaryIndex_def Let_def tracks_def idx_keys_def)
qed

end
