(* ===== verification/Indexed_History.thy ===== *)
theory Indexed_History
  imports Indexed_Store
begin

text \<open>
  Histories of an indexed tree against a map with uniqueness constraints, and the properties of
  \<^verbatim>\<open>src/bptree/indexed_btree.go\<close>.
\<close>

section \<open>Small trees update everywhere\<close>

text \<open>A tree of less than five entries is a leaf: no key of it is a separator.\<close>

lemma small_upd_ok:
  assumes "tree_inv t" "card (dom (tree_map t)) < 5"
  shows "tree_upd_ok t k"
proof (cases "root t")
  case (Some n)
  have sh: "tree_shape t" using assms(1) by (simp add: tree_inv_def)
  have "length (tree_entries t) < 5" using assms tree_count [OF assms(1)] Btree_countKeys_entries [OF sh] by simp
  moreover have s: "shape (height n) 1 n" using sh Some by (simp add: tree_shape_def)
  ultimately have "2 * 3 ^ height n - 1 < (5 :: nat)" using entries_ge_root [OF s] Some by (simp add: tree_entries_def)
  moreover have "3 \<le> (3 :: nat) ^ height n" if "height n \<noteq> 0" using self_le_power [of "3 :: nat" "height n"] that by simp
  ultimately have h: "height n = 0" by fastforce
  obtain ks vs cs l where "n = Node ks vs cs l" by (cases n)
  then show ?thesis using s Some unfolding h by (simp add: tree_upd_ok_def tree_internal_def)
qed (simp add: tree_upd_ok_def tree_internal_def)

lemma shard_small_upd_ok:
  assumes "shard_inv s" "finite (dom (shard_map s))" "card (dom (shard_map s)) < 5"
  shows "shard_upd_ok s k"
proof -
  let ?t = "shards s ! route s k"
  have "dom (tree_map ?t) \<subseteq> dom (shard_map s)"
  proof
    fix x assume x: "x \<in> dom (tree_map ?t)"
    then have "route s x = route s k" using assms(1) route_less [of s k] by (auto simp: shard_inv_def)
    then show "x \<in> dom (shard_map s)" using x by (auto simp: shard_map_def)
  qed
  then have "card (dom (tree_map ?t)) < 5" using card_mono [OF assms(2)] assms(3) by (meson le_less_trans)
  then show ?thesis using small_upd_ok [OF shard_inv_at [OF assms(1)]] by (simp add: shard_upd_ok_def)
qed

section \<open>The specification\<close>

text \<open>A map with uniqueness constraints: a schema tells the extractors and which must be injective.\<close>

definition violates :: "(string \<Rightarrow> (KeyExtractor \<times> bool) option) \<Rightarrow> Valuetype \<Rightarrow> (bytes \<rightharpoonup> Valuetype) \<Rightarrow> bool" where
  "violates sch v m \<longleftrightarrow> (\<exists>name e b p. sch name = Some (e, True) \<and> index_of e v = Some b \<and> stored_key e m p = Some b)"

lemma clashes_violates: "clashes v db \<longleftrightarrow> violates (schema (indexes db)) v (shard_map (ptree db))"
proof -
  have *: "schema (indexes db) name = Some (e, True) \<longleftrightarrow> (\<exists>idx. indexes db name = Some idx \<and> unique idx \<and> extractor idx = e)" for name e
    by (auto simp: schema_def)
  have "violates (schema (indexes db)) v (shard_map (ptree db)) \<longleftrightarrow> (\<exists>name idx. indexes db name = Some idx \<and> unique idx \<and>
      (\<exists>b p. index_of (extractor idx) v = Some b \<and> stored_key (extractor idx) (shard_map (ptree db)) p = Some b))"
    unfolding violates_def * by blast
  then show ?thesis by (simp add: clashes_def stored_key_def bind_eq_Some_conv)
qed

datatype iop = IInsert Keytype Valuetype | IDelete Keytype

text \<open>An insert answers \<open>True\<close> for \<^verbatim>\<open>nil\<close>.\<close>

primrec spec_iop :: "(string \<Rightarrow> (KeyExtractor \<times> bool) option) \<Rightarrow> iop \<Rightarrow> (bytes \<rightharpoonup> Valuetype) \<Rightarrow> (go_error + bool) \<times> (bytes \<rightharpoonup> Valuetype)" where
  "spec_iop sch (IInsert k v) m = (if violates sch v m then (Inl ErrUniqueViolation, m) else (Inr True, m(bytes_of k \<mapsto> v)))"
| "spec_iop sch (IDelete k) m = (Inr (m (bytes_of k) \<noteq> None), m(bytes_of k := None))"

primrec spec_iops :: "(string \<Rightarrow> (KeyExtractor \<times> bool) option) \<Rightarrow> iop list \<Rightarrow> (bytes \<rightharpoonup> Valuetype) \<Rightarrow> (go_error + bool) list \<times> (bytes \<rightharpoonup> Valuetype)" where
  "spec_iops sch [] m = ([], m)"
| "spec_iops sch (x # xs) m = (let (r, m1) = spec_iop sch x m; (rs, m2) = spec_iops sch xs m1 in (r # rs, m2))"

text \<open>Every insert of the history is of a new record.\<close>

definition new_iop :: "iop \<Rightarrow> (bytes \<rightharpoonup> Valuetype) \<Rightarrow> bool" where
  "new_iop x m = (case x of IDelete k \<Rightarrow> True
     | IInsert k v \<Rightarrow> k \<noteq> NilSlice \<and> v \<noteq> NilSlice \<and> length (bytes_of k) < 2 ^ 32 \<and> m (bytes_of k) = None)"

primrec new_iops :: "(string \<Rightarrow> (KeyExtractor \<times> bool) option) \<Rightarrow> iop list \<Rightarrow> (bytes \<rightharpoonup> Valuetype) \<Rightarrow> bool" where
  "new_iops sch [] m \<longleftrightarrow> True"
| "new_iops sch (x # xs) m \<longleftrightarrow> new_iop x m \<and> new_iops sch xs (snd (spec_iop sch x m))"

text \<open>The calls: each operation comes with the order in which its loops range over the indexes.\<close>

primrec run_iop :: "string list \<Rightarrow> iop \<Rightarrow> IndexedBTree \<Rightarrow> ((go_error + bool) \<times> IndexedBTree) option" where
  "run_iop order (IInsert k v) db = map_option (map_prod (map_sum id (\<lambda>_. True)) id) (Indexed_Insert order k v db)"
| "run_iop order (IDelete k) db = Indexed_Delete order k db"

primrec run_iops :: "(string list \<times> iop) list \<Rightarrow> IndexedBTree \<Rightarrow> ((go_error + bool) list \<times> IndexedBTree) option" where
  "run_iops [] db = Some ([], db)"
| "run_iops (x # xs) db =
     do {
       (r, db1) \<leftarrow> run_iop (fst x) (snd x) db;
       (rs, db2) \<leftarrow> run_iops xs db1;
       Some (r # rs, db2)
     }"

definition all_unique :: "(string \<Rightarrow> (KeyExtractor \<times> bool) option) \<Rightarrow> bool" where
  "all_unique sch \<longleftrightarrow> (\<forall>name e u. sch name = Some (e, u) \<longrightarrow> u)"

lemma all_unique_room:
  assumes "all_unique (schema (indexes db))"
  shows "room v db" "shrink_room key db"
proof -
  have "unique idx" if "indexes db name = Some idx" for name idx
    using assms that by (auto simp: all_unique_def schema_def)
  then show "room v db" "shrink_room key db" by (auto simp: room_def shrink_room_def idx_shrink_ok_def)
qed

lemma run_iop_spec:
  assumes "indexed_inv db" "all_unique (schema (indexes db))" "valid_order order db" "new_iop x (shard_map (ptree db))"
  shows "\<exists>db'. run_iop order x db = Some (fst (spec_iop (schema (indexes db)) x (shard_map (ptree db))), db') \<and> indexed_inv db' \<and>
    schema (indexes db') = schema (indexes db) \<and> shard_map (ptree db') = snd (spec_iop (schema (indexes db)) x (shard_map (ptree db)))"
proof (cases x)
  case (IInsert k v)
  have n: "k \<noteq> NilSlice" "v \<noteq> NilSlice" "length (bytes_of k) < 2 ^ 32" "shard_map (ptree db) (bytes_of k) = None"
    using assms(4) IInsert by (simp_all add: new_iop_def)
  from Indexed_Insert_law [OF assms(1,3) n all_unique_room(1) [OF assms(2)]] show ?thesis
    using IInsert clashes_violates [of v db] by auto
next
  case (IDelete k)
  from Indexed_Delete_law [OF assms(1,3) all_unique_room(2) [OF assms(2)], of k] show ?thesis using IDelete by auto
qed

lemma valid_order_schema: "schema (indexes db') = schema (indexes db) \<Longrightarrow> valid_order order db' = valid_order order db"
  using schema_dom [of "indexes db'" "indexes db"] by (simp add: valid_order_def)

lemma run_iops_spec:
  assumes "indexed_inv db" "all_unique (schema (indexes db))" "\<forall>(order, x) \<in> set xs. valid_order order db"
    "new_iops (schema (indexes db)) (map snd xs) (shard_map (ptree db))"
  shows "\<exists>db'. run_iops xs db = Some (fst (spec_iops (schema (indexes db)) (map snd xs) (shard_map (ptree db))), db') \<and> indexed_inv db' \<and>
    schema (indexes db') = schema (indexes db) \<and> shard_map (ptree db') = snd (spec_iops (schema (indexes db)) (map snd xs) (shard_map (ptree db)))"
  using assms
proof (induction xs arbitrary: db)
  case (Cons y xs)
  obtain order x where y: "y = (order, x)" by fastforce
  let ?sch = "schema (indexes db)" and ?m = "shard_map (ptree db)"
  have pre: "valid_order order db" "new_iop x ?m" "new_iops ?sch (map snd xs) (snd (spec_iop ?sch x ?m))" using Cons.prems(3,4) y by simp_all
  obtain db1 where 1: "run_iop order x db = Some (fst (spec_iop ?sch x ?m), db1)" "indexed_inv db1" "schema (indexes db1) = ?sch"
    "shard_map (ptree db1) = snd (spec_iop ?sch x ?m)"
    using run_iop_spec [OF Cons.prems(1,2) pre(1,2)] by blast
  have "\<forall>(order, x) \<in> set xs. valid_order order db1" using Cons.prems(3) valid_order_schema [OF 1(3)] by simp
  then obtain db2 where 2: "run_iops xs db1 = Some (fst (spec_iops ?sch (map snd xs) (shard_map (ptree db1))), db2)" "indexed_inv db2"
    "schema (indexes db2) = ?sch" "shard_map (ptree db2) = snd (spec_iops ?sch (map snd xs) (shard_map (ptree db1)))"
    using Cons.IH [of db1] 1(2,3,4) Cons.prems(2) pre(3) by auto
  show ?case using 1(1,4) 2 y by (simp add: case_prod_beta Let_def)
qed simp

section \<open>New trees\<close>

lemma NewIndexedBTree_law:
  assumes "0 < xcNumShards config" "xcNumShards config < 2 ^ 32"
  shows "indexed_inv (NewIndexedBTree numCPU config) \<and> shard_map (ptree (NewIndexedBTree numCPU config)) = Map.empty \<and>
    indexes (NewIndexedBTree numCPU config) = Map.empty"
  using NewShardedBTree_inv [OF refl, of "\<lparr>cfgNumShards = xcNumShards config\<rparr>" numCPU] assms
  by (simp add: indexed_inv_def NewIndexedBTree_def)

text \<open>An index created before the first record needs no rebuild.\<close>

lemma CreateIndex_law:
  assumes "indexed_inv db" "shard_map (ptree db) = Map.empty" "indexes db name = None" "\<forall>v. ext v \<noteq> None"
  shows "\<exists>db'. CreateIndex name ext uniq db = (Inr (), db') \<and> indexed_inv db' \<and> ptree db' = ptree db \<and>
    schema (indexes db') = (schema (indexes db))(name \<mapsto> (ext, uniq))"
proof -
  let ?idx = "NewSecondaryIndex \<lparr>icName = name, icExtractor = ext, icUnique = uniq, icNumShards = 4\<rparr>"
  let ?db = "db\<lparr>indexes := (indexes db)(name \<mapsto> ?idx)\<rparr>"
  have "idx_good ?idx (shard_map (ptree db))" unfolding assms(2) by (rule NewSecondaryIndex_good [OF assms(4)]) simp_all
  then have "indexed_inv ?db" using assms(1) by (simp add: indexed_inv_def)
  moreover have "schema (indexes ?db) = (schema (indexes db))(name \<mapsto> (ext, uniq))"
    by (simp add: schema_def fun_eq_iff NewSecondaryIndex_def Let_def)
  moreover have "CreateIndex name ext uniq db = (Inr (), ?db)" using assms(3) by (simp add: CreateIndex_def Let_def)
  ultimately show ?thesis by simp
qed

section \<open>Updates and rebuilds\<close>

lemma Indexed_Update_law:
  assumes inv: "indexed_inv db" and ord: "valid_order order db" and nn: "key \<noteq> NilSlice" "new \<noteq> NilSlice"
    and len: "length (bytes_of key) < 2 ^ 32" and old: "shard_map (ptree db) (bytes_of key) = Some old"
    and upd: "shard_upd_ok (ptree db) (bytes_of key)" and room: "shrink_room key db" "moves_clear old new db"
  shows "\<exists>db'. Indexed_Update order key new db = Some (if clashesOther key new db then Inl ErrUniqueViolation else Inr (), db') \<and>
    indexed_inv db' \<and> schema (indexes db') = schema (indexes db) \<and>
    shard_map (ptree db') = (if clashesOther key new db then shard_map (ptree db) else (shard_map (ptree db))(bytes_of key \<mapsto> new))"
proof -
  let ?m = "shard_map (ptree db)"
  have d: "distinct order" "set order = dom (indexes db)" using ord by (simp_all add: valid_order_def)
  obtain tree0 where t0: "Sharded_Find (ptree db) key = Some (Inr old, tree0)"
    "shard_inv tree0" "shard_map tree0 = ?m" "shard_upd_ok tree0 (bytes_of key)" "NilSlice \<notin> ran (shard_map tree0)"
    using indexed_find [OF inv, of key] old upd by (metis option.case(2))
  have "\<exists>i'. updateCheck old new idx = Some (if moveTaken old new idx then Inl ErrUniqueViolation else Inr (), i') \<and> same_idx idx i'"
    if "indexes db name = Some idx" for name idx using updateCheck_spec [OF indexed_good [OF inv that]] .
  then obtain ixs1 where
    c: "eachIndex (updateCheck old new) order (indexes db) =
      Some (if \<exists>name idx. indexes db name = Some idx \<and> moveTaken old new idx then Inl ErrUniqueViolation else Inr (), ixs1)"
    "schema ixs1 = schema (indexes db)" "\<forall>name idx'. ixs1 name = Some idx' \<longrightarrow> (\<exists>idx. indexes db name = Some idx \<and> same_idx idx idx')"
    using indexed_check [of order "indexes db" "updateCheck old new" "moveTaken old new" ErrUniqueViolation, OF d] by blast
  have cl: "(\<exists>name idx. indexes db name = Some idx \<and> moveTaken old new idx) \<longleftrightarrow> clashesOther key new db"
    using moveTaken_iff [OF indexed_good [OF inv] old, of _ _ new] unfolding clashesOther_def by blast
  have g1: "idx_good idx ?m" if "ixs1 name = Some idx" for name idx
    by (rule same_indexes_good [OF c(3) indexed_good [OF inv] that])
  show ?thesis
  proof (cases "clashesOther key new db")
    case True
    have "indexed_inv (db\<lparr>ptree := tree0, indexes := ixs1\<rparr>)" using t0 g1 by (simp add: indexed_inv_def)
    then show ?thesis using c cl True t0(1,3) by (simp add: Indexed_Update_def)
  next
    case False
    obtain tree where t: "Sharded_Insert tree0 key new = Some tree" "shard_inv tree" "shard_map tree = ?m(bytes_of key \<mapsto> new)"
      using sharded.insert_law [OF t0(2) nn(1) t0(4)] t0(3) by metis
    have "\<exists>i'. Idx_Update key old new idx = Some (Inr (), i') \<and> idx_good i' (shard_map tree) \<and> extractor i' = extractor idx \<and> unique i' = unique idx"
      if n: "ixs1 name = Some idx" for name idx
    proof -
      obtain i where i: "indexes db name = Some i" "same_idx i idx" using c(3) n by blast
      have nt: "\<not> moveTaken old new i" using False cl i(1) by blast
      have s: "extractor idx = extractor i" "unique idx = unique i" "idx_keys idx = idx_keys i" "idx_shrink_ok idx = idx_shrink_ok i"
        using i(2) by (simp_all add: same_idx_def)
      have ne: "index_of (extractor idx) old \<noteq> Some []" "index_of (extractor idx) new \<noteq> Some []"
        using room(2) i(1) s(1) by (simp_all add: moves_clear_def)
      have sh: "idx_shrink_ok idx b (bytes_of key)" if "index_of (extractor idx) old = Some b" for b
        using room(1) i(1) old that s unfolding shrink_room_def by metis
      have "idx_keys idx b = []" if "index_of (extractor idx) new = Some b" "index_of (extractor idx) old \<noteq> Some b" for b
        using room(2) i(1) nt that s unfolding moves_clear_def moveTaken_def taken_def by metis
      then show ?thesis using Idx_Update_good [OF g1 [OF n] old len ne sh] t(3) by simp
    qed
    moreover have "set order = dom ixs1" using d(2) schema_dom [OF c(2)] by simp
    ultimately obtain ixs2 where e: "eachIndex (Idx_Update key old new) order ixs1 = Some (Inr (), ixs2)" "schema ixs2 = schema ixs1"
      "\<forall>name idx. ixs2 name = Some idx \<longrightarrow> idx_good idx (shard_map tree)"
      using indexed_loop [of order ixs1 "Idx_Update key old new" "shard_map tree"] d(1) by blast
    have "NilSlice \<notin> ran (shard_map tree)" using t0(3,5) nn(2) t(3) by (auto simp: ran_def split: if_splits)
    then have "indexed_inv (db\<lparr>ptree := tree, indexes := ixs2\<rparr>)" using t(2) e(3) by (simp add: indexed_inv_def)
    moreover have "Indexed_Update order key new db = Some (Inr (), db\<lparr>ptree := tree, indexes := ixs2\<rparr>)"
      using c(1) cl False t0(1) t(1) e(1) by (simp add: Indexed_Update_def)
    ultimately show ?thesis using False t(3) e(2) c(2) by simp
  qed
qed

lemma CreateIndexWithRebuild_law:
  assumes sinv: "shard_inv (ptree db)" and new: "indexes db name = None" and tot: "\<forall>v. ext v \<noteq> None"
    and len: "\<And>p. p \<in> dom (shard_map (ptree db)) \<Longrightarrow> length p < 2 ^ 32" and u: "uniq \<or> separate ext (shard_map (ptree db))"
  shows "\<exists>db'. CreateIndexWithRebuild name ext uniq db =
      Some (if separate ext (shard_map (ptree db)) then Inr () else Inl ErrDuplicateKey, db') \<and> ptree db' = ptree db \<and>
    (\<forall>n. n \<noteq> name \<longrightarrow> indexes db' n = indexes db n) \<and>
    (if separate ext (shard_map (ptree db))
     then \<exists>idx. indexes db' name = Some idx \<and> extractor idx = ext \<and> unique idx = uniq \<and> idx_good idx (shard_map (ptree db))
     else indexes db' name = None)"
proof -
  let ?m = "shard_map (ptree db)" and ?es = "shard_entries (ptree db)"
  let ?c = "\<lparr>icName = name, icExtractor = ext, icUnique = uniq, icNumShards = 4\<rparr>"
  let ?idx = "NewSecondaryIndex ?c"
  have i: "extractor ?idx = ext" "unique ?idx = uniq" by (simp_all add: NewSecondaryIndex_def Let_def)
  have es: "Map.empty ++ content ?es = ?m" using shard_entries_content(2) [OF sinv] by simp
  have "idx_good ?idx Map.empty" using NewSecondaryIndex_good [OF tot, of ?c] by simp
  moreover have "(Map.empty :: bytes \<rightharpoonup> Valuetype) (ekey p) = None \<and> length (ekey p) < 2 ^ 32" if "p \<in> set ?es" for p
    using len [of "ekey p"] that dom_content [of ?es] es by auto
  moreover have "unique ?idx \<or> separate (extractor ?idx) (Map.empty ++ content ?es)" using u unfolding i es .
  ultimately obtain idx' where r: "if separate ext ?m
      then snd (run_until rebuildCallback ?es (Some (?idx, None))) = Some (idx', None) \<and> idx_good idx' ?m \<and> extractor idx' = ext \<and> unique idx' = uniq
      else snd (run_until rebuildCallback ?es (Some (?idx, None))) = Some (idx', Some ErrDuplicateKey)"
    using rebuild_run [of ?idx Map.empty ?es, OF _ shard_entries_content(1) [OF sinv]] unfolding i es by blast
  have w: "Sharded_ForEach (ptree db) rebuildCallback (Some (?idx, None)) = Some (snd (run_until rebuildCallback ?es (Some (?idx, None))))"
    unfolding shard_entries_def by (rule Sharded_ForEach_visits [OF sinv])
  show ?thesis
  proof (cases "separate ext ?m")
    case True
    then have "CreateIndexWithRebuild name ext uniq db = Some (Inr (), db\<lparr>indexes := (indexes db)(name \<mapsto> idx')\<rparr>)"
      using r w new by (simp add: CreateIndexWithRebuild_def CreateIndex_def Let_def)
    then show ?thesis using True r by simp
  next
    case False
    then have "CreateIndexWithRebuild name ext uniq db = Some (Inl ErrDuplicateKey, db\<lparr>indexes := (indexes db)(name := None)\<rparr>)"
      using r w new by (simp add: CreateIndexWithRebuild_def CreateIndex_def Let_def)
    then show ?thesis using False by simp
  qed
qed

section \<open>Consistent states\<close>

text \<open>
  The states that creating, rebuilding and dropping indexes, inserts of new records, updates and
  deletes reach from a new tree, as long as no write hits a key in an internal node of one of the
  trees (\<open>room\<close>, \<open>shrink_room\<close>, \<open>shard_upd_ok\<close>; none does as long as all indexes are unique and
  records are not updated), and updates go between index keys that are not empty and, in a
  non-unique index, to one that no record has (\<open>moves_clear\<close>).  An index that is created on stored records
  is rebuilt; a non-unique one only if no two records have the same key.
\<close>

inductive indexed_reach :: "IndexedBTree \<Rightarrow> bool" where
  reach_new: "0 < xcNumShards config \<Longrightarrow> xcNumShards config < 2 ^ 32 \<Longrightarrow> indexed_reach (NewIndexedBTree numCPU config)"
| reach_create: "indexed_reach db \<Longrightarrow> shard_map (ptree db) = Map.empty \<Longrightarrow> \<forall>v. ext v \<noteq> None \<Longrightarrow>
    CreateIndex name ext uniq db = (r, db') \<Longrightarrow> indexed_reach db'"
| reach_rebuild: "indexed_reach db \<Longrightarrow> \<forall>v. ext v \<noteq> None \<Longrightarrow> uniq \<or> separate ext (shard_map (ptree db)) \<Longrightarrow>
    CreateIndexWithRebuild name ext uniq db = Some (r, db') \<Longrightarrow> indexed_reach db'"
| reach_drop: "indexed_reach db \<Longrightarrow> DropIndex name db = (r, db') \<Longrightarrow> indexed_reach db'"
| reach_insert: "indexed_reach db \<Longrightarrow> valid_order order db \<Longrightarrow> key \<noteq> NilSlice \<Longrightarrow> val \<noteq> NilSlice \<Longrightarrow>
    length (bytes_of key) < 2 ^ 32 \<Longrightarrow> shard_map (ptree db) (bytes_of key) = None \<Longrightarrow> room val db \<Longrightarrow>
    Indexed_Insert order key val db = Some (r, db') \<Longrightarrow> indexed_reach db'"
| reach_update: "indexed_reach db \<Longrightarrow> valid_order order db \<Longrightarrow> key \<noteq> NilSlice \<Longrightarrow> new \<noteq> NilSlice \<Longrightarrow>
    shard_map (ptree db) (bytes_of key) = Some old \<Longrightarrow> shard_upd_ok (ptree db) (bytes_of key) \<Longrightarrow> shrink_room key db \<Longrightarrow>
    moves_clear old new db \<Longrightarrow> Indexed_Update order key new db = Some (r, db') \<Longrightarrow> indexed_reach db'"
| reach_update_absent: "indexed_reach db \<Longrightarrow> shard_map (ptree db) (bytes_of key) = None \<Longrightarrow>
    Indexed_Update order key new db = Some (r, db') \<Longrightarrow> indexed_reach db'"
| reach_delete: "indexed_reach db \<Longrightarrow> valid_order order db \<Longrightarrow> shrink_room key db \<Longrightarrow>
    Indexed_Delete order key db = Some (r, db') \<Longrightarrow> indexed_reach db'"

definition short_keys :: "(bytes \<rightharpoonup> Valuetype) \<Rightarrow> bool" where
  "short_keys m \<longleftrightarrow> (\<forall>p \<in> dom m. length p < 2 ^ 32)"

lemma short_keys_upd: "short_keys m \<Longrightarrow> length p < 2 ^ 32 \<Longrightarrow> short_keys (m(p := r))"
  by (auto simp: short_keys_def split: if_splits)

lemma short_keys_at: "short_keys m \<Longrightarrow> m p = Some v \<Longrightarrow> length p < 2 ^ 32"
  by (auto simp: short_keys_def)

lemma short_keys_del: "short_keys m \<Longrightarrow> short_keys (m(p := None))"
  by (auto simp: short_keys_def split: if_splits)

lemma rebuild_inv:
  assumes "indexed_inv db" "short_keys (shard_map (ptree db))" "\<forall>v. ext v \<noteq> None" "uniq \<or> separate ext (shard_map (ptree db))"
    "CreateIndexWithRebuild name ext uniq db = Some (r, db')"
  shows "indexed_inv db' \<and> ptree db' = ptree db"
proof (cases "indexes db name")
  case None
  have s: "shard_inv (ptree db)" using assms(1) by (simp add: indexed_inv_def)
  have "length p < 2 ^ 32" if "p \<in> dom (shard_map (ptree db))" for p using assms(2) that by (simp add: short_keys_def)
  from CreateIndexWithRebuild_law [OF s None assms(3) this assms(4)] assms(5) have
    t: "ptree db' = ptree db" "\<forall>n. n \<noteq> name \<longrightarrow> indexes db' n = indexes db n"
    "\<forall>idx. indexes db' name = Some idx \<longrightarrow> idx_good idx (shard_map (ptree db))" by (auto split: if_splits)
  have "idx_good idx (shard_map (ptree db))" if "indexes db' n = Some idx" for n idx
    using t(2,3) that indexed_good [OF assms(1)] by (cases "n = name") auto
  then show ?thesis using t(1) assms(1) by (simp add: indexed_inv_def)
next
  case (Some idx)
  then show ?thesis using assms(1,5) by (simp add: CreateIndexWithRebuild_def CreateIndex_def)
qed

lemma indexed_reach_inv: "indexed_reach db \<Longrightarrow> indexed_inv db \<and> short_keys (shard_map (ptree db))"
proof (induction rule: indexed_reach.induct)
  case (reach_new config numCPU)
  then show ?case using NewIndexedBTree_law [of config numCPU] by (simp add: short_keys_def)
next
  case (reach_create db ext name uniq r db')
  then show ?case using CreateIndex_law [of db name ext uniq] by (cases "indexes db name") (auto simp: CreateIndex_def)
next
  case (reach_rebuild db ext uniq name r db')
  then show ?case using rebuild_inv [of db ext uniq name r db'] by simp
next
  case (reach_drop db name r db')
  then show ?case by (auto simp: DropIndex_def indexed_inv_def split: if_splits)
next
  case (reach_insert db order key val r db')
  then show ?case using Indexed_Insert_law [of db order key val] short_keys_upd by (auto simp del: fun_upd_apply)
next
  case (reach_update db order key new old r db')
  then have len: "length (bytes_of key) < 2 ^ 32" using short_keys_at by blast
  then show ?case using reach_update Indexed_Update_law [of db order key new old] short_keys_upd by (auto simp del: fun_upd_apply)
next
  case (reach_update_absent db key order new r db')
  then show ?case using Indexed_Update_absent [of db key order new] by auto
next
  case (reach_delete db order key r db')
  then show ?case using Indexed_Delete_law [of db order key] short_keys_del by (auto simp del: fun_upd_apply)
qed

section \<open>Inserting over a record\<close>

lemma Idx_Index_present:
  assumes inv: "idx_inv idx" and u: "\<not> unique idx" and ik: "index_of (extractor idx) v = Some b" and mem: "bytes_of pk \<in> set (idx_keys idx b)"
  shows "\<exists>i'. Idx_Index pk v idx = Some (Inr (), i') \<and> idx_inv i' \<and> idx_keys i' = idx_keys idx"
proof -
  obtain old where old: "shard_map (itree idx) b = Some old" using mem idx_keys_Nil [OF inv, of b] by fastforce
  obtain ks where ks: "decodePrimaryKeys old = ks" "map bytes_of ks = idx_keys idx b" using idx_list [OF inv u old] by metis
  obtain tree where t: "Sharded_Find (itree idx) (Bytes b) = Some (Inr (slice_copy old), tree)"
    "shard_inv tree" "shard_map tree = shard_map (itree idx)"
    using idx_find [OF inv, of "Bytes b"] old by (metis bytes_of.simps(2) find_result_simps(2))
  have "list_ex (\<lambda>k. bytes_Equal k pk) ks" using mem unfolding ks(2) [symmetric] by (auto simp: list_ex_iff)
  then have "Idx_Index pk v idx = Some (Inr (), idx\<lparr>itree := tree\<rparr>)"
    using ik t(1) u ks(1) by (simp add: Idx_Index_def index_of_Some Let_def)
  then show ?thesis using inv t by (simp add: idx_inv_def idx_keys_def fun_eq_iff)
qed

definition keeps :: "SecondaryIndex \<Rightarrow> SecondaryIndex \<Rightarrow> bool" where
  "keeps i i' \<longleftrightarrow> idx_inv i' \<and> (\<forall>b. set (idx_keys i b) \<subseteq> set (idx_keys i' b))"

lemma Idx_Index_keeps:
  assumes good: "idx_good idx m" and nt: "\<not> taken v idx" and len: "length (bytes_of key) < 2 ^ 32"
    and room: "\<And>b. \<not> unique idx \<Longrightarrow> index_of (extractor idx) v = Some b \<Longrightarrow> idx_grow_ok idx b"
  shows "\<exists>i'. Idx_Index key v idx = Some (Inr (), i') \<and> keeps idx i'"
proof -
  have inv: "idx_inv idx" using good by (simp add: idx_good_def)
  from good show ?thesis
  proof (cases rule: index_cases [where v = v])
    case nil
    then show ?thesis using index.skip_law [of idx v key] inv by (simp add: keeps_def)
  next
    case (key b)
    show ?thesis
    proof (cases "bytes_of key \<in> set (idx_keys idx b)")
      case True
      then have "\<not> unique idx" using nt key(2) by (auto simp: taken_def)
      from Idx_Index_present [OF inv this key(2) True] show ?thesis by (auto simp: keeps_def)
    next
      case False
      have "idx_grow_ok idx b" using room [OF _ key(2)] nt key(2) by (auto simp: taken_def idx_grow_ok_def)
      from index.add_law [OF inv key(2) False this len] show ?thesis by (auto simp: keeps_def)
    qed
  qed
qed

lemma Indexed_Insert_over:
  assumes inv: "indexed_inv db" and ord: "valid_order order db" and nn: "key \<noteq> NilSlice" and len: "length (bytes_of key) < 2 ^ 32"
    and upd: "shard_upd_ok (ptree db) (bytes_of key)" and ncl: "\<not> clashes new db" and room: "room new db"
  shows "\<exists>tree ixs. Indexed_Insert order key new db = Some (Inr (), db\<lparr>ptree := tree, indexes := ixs\<rparr>) \<and>
    shard_map tree = (shard_map (ptree db))(bytes_of key \<mapsto> new) \<and>
    (\<forall>name idx. indexes db name = Some idx \<longrightarrow> (\<exists>i'. ixs name = Some i' \<and> keeps idx i'))"
proof -
  let ?m = "shard_map (ptree db)"
  have d: "distinct order" "set order = dom (indexes db)" using ord by (simp_all add: valid_order_def)
  have "\<exists>i'. insertCheck new i = Some (if taken new i then Inl ErrUniqueViolation else Inr (), i') \<and> same_idx i i'"
    if "indexes db n = Some i" for n i using insertCheck_spec [OF indexed_good [OF inv that]] .
  then obtain ixs1 where
    c: "eachIndex (insertCheck new) order (indexes db) =
      Some (if \<exists>n i. indexes db n = Some i \<and> taken new i then Inl ErrUniqueViolation else Inr (), ixs1)"
    "schema ixs1 = schema (indexes db)" "\<forall>n i'. ixs1 n = Some i' \<longrightarrow> (\<exists>i. indexes db n = Some i \<and> same_idx i i')"
    using indexed_check [of order "indexes db" "insertCheck new" "taken new" ErrUniqueViolation, OF d] by blast
  have nt: "\<not> taken new i" if "indexes db n = Some i" for n i
    using ncl taken_iff [OF indexed_good [OF inv that], of new] that unfolding clashes_def by blast
  obtain tree where t: "Sharded_Insert (ptree db) key new = Some tree" "shard_map tree = ?m(bytes_of key \<mapsto> new)"
    using sharded.insert_law [OF _ nn upd, of new] inv unfolding indexed_inv_def by blast
  have "\<exists>i i'. ixs1 n = Some i \<and> Idx_Index key new i = Some (Inr (), i') \<and> keeps i i'" if n: "n \<in> set order" for n
  proof -
    obtain i where i: "ixs1 n = Some i" using n d(2) schema_dom [OF c(2)] by blast
    obtain i0 where i0: "indexes db n = Some i0" "same_idx i0 i" using c(3) i by blast
    have s: "\<not> taken new i" using nt [OF i0(1)] i0(2) by (simp add: taken_def same_idx_def)
    have g: "idx_grow_ok i b" if "\<not> unique i" "index_of (extractor i) new = Some b" for b
      using room i0 that by (simp add: room_def same_idx_def)
    show ?thesis using Idx_Index_keeps [OF same_idx_good [OF i0(2) indexed_good [OF inv i0(1)]] s len g] i by blast
  qed
  from eachIndex_ok [of order ixs1 "Idx_Index key new" "\<lambda>_. keeps", OF d(1) this] obtain ixs2 where
    e: "eachIndex (Idx_Index key new) order ixs1 = Some (Inr (), ixs2)"
    "\<forall>n. if n \<in> set order then \<exists>i i'. ixs1 n = Some i \<and> ixs2 n = Some i' \<and> keeps i i' else ixs2 n = ixs1 n" by blast
  have kept: "\<exists>i'. ixs2 name = Some i' \<and> keeps idx i'" if n: "indexes db name = Some idx" for name idx
  proof -
    have "name \<in> set order" using n d(2) by blast
    then obtain i i' where i: "ixs1 name = Some i" "ixs2 name = Some i'" "keeps i i'" using e(2) by meson
    then have "same_idx idx i" using c(3) n by (metis option.inject)
    then have "idx_keys i = idx_keys idx" by (simp add: same_idx_def)
    then have "keeps idx i'" using i(3) by (simp add: keeps_def)
    then show ?thesis using i(2) by blast
  qed
  have "Indexed_Insert order key new db = Some (Inr (), db\<lparr>ptree := tree, indexes := ixs2\<rparr>)"
  proof -
    have "\<not> (\<exists>n i. indexes db n = Some i \<and> taken new i)" using nt by blast
    then show ?thesis using c(1) t(1) e(1) by (simp add: Indexed_Insert_def)
  qed
  then show ?thesis using t(2) kept by (intro exI [of _ tree] exI [of _ ixs2]) simp
qed

section \<open>An example\<close>

lemma PrefixExtractor_total: "0 \<le> n \<Longrightarrow> \<forall>v. PrefixExtractor n v \<noteq> None"
  by (simp add: PrefixExtractor_def slice_of_def)

lemma index_of_first [simp]: "index_of (PrefixExtractor 1) (Bytes (x # xs)) = Some [x]"
  by (simp add: index_of_Some PrefixExtractor_def slice_of_def)

text \<open>A unique and a non-unique index on the first byte of the value.\<close>

definition ex_empty :: IndexedBTree where
  "ex_empty = snd (CreateIndex ''all'' (PrefixExtractor 1) False
     (snd (CreateIndex ''one'' (PrefixExtractor 1) True (NewIndexedBTree 4 \<lparr>xcNumShards = 2\<rparr>))))"

abbreviation ex_order :: "string list" where
  "ex_order \<equiv> [''one'', ''all'']"

lemma ex_empty:
  "indexed_inv ex_empty" "shard_map (ptree ex_empty) = Map.empty"
  "schema (indexes ex_empty) = [''one'' \<mapsto> (PrefixExtractor 1, True), ''all'' \<mapsto> (PrefixExtractor 1, False)]"
proof -
  let ?new = "NewIndexedBTree 4 \<lparr>xcNumShards = 2\<rparr>"
  have n: "indexed_inv ?new" "shard_map (ptree ?new) = Map.empty" "indexes ?new = Map.empty"
    using NewIndexedBTree_law [of "\<lparr>xcNumShards = 2\<rparr>" 4] by simp_all
  have tot: "\<forall>v. PrefixExtractor 1 v \<noteq> None" by (rule PrefixExtractor_total) simp
  have "indexes ?new ''one'' = None" using n(3) by simp
  then obtain db1 where 1: "CreateIndex ''one'' (PrefixExtractor 1) True ?new = (Inr (), db1)" "indexed_inv db1" "ptree db1 = ptree ?new"
    "schema (indexes db1) = (schema (indexes ?new))(''one'' \<mapsto> (PrefixExtractor 1, True))"
    using CreateIndex_law [OF n(1,2) _ tot] by blast
  have sn: "schema (indexes ?new) = Map.empty" using n(3) by (simp add: schema_def fun_eq_iff)
  have "schema (indexes db1) ''all'' = None" using 1(4) sn by simp
  then have "indexes db1 ''all'' = None" by (simp add: schema_def)
  then obtain db2 where 2: "CreateIndex ''all'' (PrefixExtractor 1) False db1 = (Inr (), db2)" "indexed_inv db2" "ptree db2 = ptree db1"
    "schema (indexes db2) = (schema (indexes db1))(''all'' \<mapsto> (PrefixExtractor 1, False))"
    using CreateIndex_law [OF 1(2) _ _ tot] 1(3) n(2) by metis
  have "ex_empty = db2" using 1(1) 2(1) by (simp add: ex_empty_def)
  then show "indexed_inv ex_empty" "shard_map (ptree ex_empty) = Map.empty"
    "schema (indexes ex_empty) = [''one'' \<mapsto> (PrefixExtractor 1, True), ''all'' \<mapsto> (PrefixExtractor 1, False)]"
    using 1 2 n(2) sn by simp_all
qed

lemma dom_schema: "dom (indexes db) = dom (schema (indexes db))"
  by (auto simp: schema_def dom_def)

lemma schema_at: "indexes db name = Some idx \<Longrightarrow> schema (indexes db) name = Some (extractor idx, unique idx)"
  by (simp add: schema_def)

lemma indexed_keys: "indexed_inv db \<Longrightarrow> indexes db name = Some idx \<Longrightarrow>
    p \<in> set (idx_keys idx b) \<longleftrightarrow> stored_key (extractor idx) (shard_map (ptree db)) p = Some b"
  using indexed_good [of db name idx] by (simp add: idx_good_def tracks_stored)

text \<open>Where no record shares the index keys of a value there is room for it.\<close>

lemma room_alone:
  assumes "indexed_inv db"
    "\<And>name e b p. schema (indexes db) name = Some (e, False) \<Longrightarrow> index_of e v = Some b \<Longrightarrow> stored_key e (shard_map (ptree db)) p \<noteq> Some b"
  shows "room v db"
  unfolding room_def
proof (intro allI impI)
  fix name idx b
  assume a: "indexes db name = Some idx \<and> \<not> unique idx \<and> index_of (extractor idx) v = Some b"
  then have "p \<notin> set (idx_keys idx b)" for p
    using assms(2) [of name "extractor idx" b p] schema_at [of db name idx] indexed_keys [OF assms(1), of name idx p b] by simp
  then have "idx_keys idx b = []" by (cases "idx_keys idx b") auto
  then show "idx_grow_ok idx b" by (simp add: idx_grow_ok_def)
qed

text \<open>One record.\<close>

definition ex_indexed :: IndexedBTree where
  "ex_indexed = snd (the (Indexed_Insert ex_order (Bytes [1]) (Bytes [7, 7]) ex_empty))"

lemma ex_order: "schema (indexes db) = schema (indexes ex_empty) \<Longrightarrow> valid_order ex_order db"
  using dom_schema [of db] by (auto simp: valid_order_def ex_empty)

lemma ex_indexed:
  "indexed_inv ex_indexed" "shard_map (ptree ex_indexed) = [[1] \<mapsto> Bytes [7, 7]]"
  "schema (indexes ex_indexed) = schema (indexes ex_empty)"
proof -
  have "room (Bytes [7, 7]) ex_empty" by (rule room_alone [OF ex_empty(1)]) (simp add: stored_key_def ex_empty(2))
  moreover have "\<not> clashes (Bytes [7, 7]) ex_empty" by (simp add: clashes_violates violates_def stored_key_def ex_empty(2))
  ultimately obtain db where "Indexed_Insert ex_order (Bytes [1]) (Bytes [7, 7]) ex_empty = Some (Inr (), db)" "indexed_inv db"
    "schema (indexes db) = schema (indexes ex_empty)" "shard_map (ptree db) = [[1] \<mapsto> Bytes [7, 7]]"
    using Indexed_Insert_law [OF ex_empty(1) ex_order [OF refl], of "Bytes [1]" "Bytes [7, 7]"] ex_empty(2) by auto
  then show "indexed_inv ex_indexed" "shard_map (ptree ex_indexed) = [[1] \<mapsto> Bytes [7, 7]]"
    "schema (indexes ex_indexed) = schema (indexes ex_empty)" by (simp_all add: ex_indexed_def)
qed

lemma ex_indexed_index: "indexes ex_indexed name = Some idx \<Longrightarrow> extractor idx = PrefixExtractor 1 \<and> unique idx = (name = ''one'')"
  using schema_at [of ex_indexed name idx] unfolding ex_indexed(3) ex_empty(3) by (auto split: if_splits)

lemma ex_stored: "stored_key (PrefixExtractor 1) (shard_map (ptree ex_indexed)) p = (if p = [1] then Some [7] else None)"
  by (simp add: stored_key_def ex_indexed(2))

lemma ex_shrink: "shrink_room (Bytes [1]) ex_indexed"
proof -
  have "set (idx_keys idx b) \<subseteq> {[1]}" if "indexes ex_indexed name = Some idx" for name idx b
    using indexed_keys [OF ex_indexed(1) that, of _ b] ex_indexed_index [OF that] by (auto simp: ex_stored split: if_splits)
  then show ?thesis by (auto simp: shrink_room_def idx_shrink_ok_def)
qed

lemma ex_moves: "moves_clear (Bytes [7, 7]) (Bytes [8]) ex_indexed"
proof -
  have "p \<notin> set (idx_keys idx [8])" if "indexes ex_indexed name = Some idx" for name idx p
    using indexed_keys [OF ex_indexed(1) that, of p "[8]"] ex_indexed_index [OF that] by (simp add: ex_stored)
  then have "idx_keys idx [8] = []" if "indexes ex_indexed name = Some idx" for name idx
    using that by (metis list.set_intros(1) neq_Nil_conv)
  then show ?thesis using ex_indexed_index by (simp add: moves_clear_def)
qed

lemma ex_upd: "shard_upd_ok (ptree ex_indexed) b"
  by (rule shard_small_upd_ok) (use ex_indexed in \<open>simp_all add: indexed_inv_def\<close>)

lemma ex_reach: "indexed_reach ex_indexed"
proof -
  let ?new = "NewIndexedBTree 4 \<lparr>xcNumShards = 2\<rparr>"
  have n: "indexed_reach ?new" "shard_map (ptree ?new) = Map.empty"
    using reach_new [of "\<lparr>xcNumShards = 2\<rparr>" 4] NewIndexedBTree_law [of "\<lparr>xcNumShards = 2\<rparr>" 4] by simp_all
  have tot: "\<forall>v. PrefixExtractor 1 v \<noteq> None" by (rule PrefixExtractor_total) simp
  have keep: "ptree (snd (CreateIndex name ext u db)) = ptree db" for name ext u db by (simp add: CreateIndex_def Let_def)
  have "indexed_reach (snd (CreateIndex ''one'' (PrefixExtractor 1) True ?new))" by (rule reach_create [OF n tot surjective_pairing])
  then have e: "indexed_reach ex_empty" unfolding ex_empty_def
    by (rule reach_create [OF _ _ tot surjective_pairing]) (simp add: keep n(2))
  have "room (Bytes [7, 7]) ex_empty" by (rule room_alone [OF ex_empty(1)]) (simp add: stored_key_def ex_empty(2))
  moreover from this obtain r db where "Indexed_Insert ex_order (Bytes [1]) (Bytes [7, 7]) ex_empty = Some (r, db)"
    using Indexed_Insert_law [OF ex_empty(1) ex_order [OF refl], of "Bytes [1]" "Bytes [7, 7]"] ex_empty(2) by auto
  ultimately show ?thesis
    using reach_insert [OF e ex_order [OF refl], of "Bytes [1]" "Bytes [7, 7]" r db] by (simp add: ex_indexed_def ex_empty(2))
qed

text \<open>
  Six records are enough to lose one: five first bytes of the same shard split the root of the
  index tree, the third becomes a separator, and the sixth record has it again.
\<close>

definition ex_six :: "IndexedBTree option" where
  "ex_six = fold (\<lambda>(k, b) db. Option.bind db (\<lambda>db. map_option snd (Indexed_Insert [''all''] (Bytes [k]) (Bytes [b, k]) db)))
     [(1, 4), (2, 8), (3, 12), (4, 16), (5, 20), (6, 12)]
     (Some (snd (CreateIndex ''all'' (PrefixExtractor 1) False (NewIndexedBTree 4 \<lparr>xcNumShards = 1\<rparr>))))"

lemma ex_six_lost:
  "Option.bind ex_six (\<lambda>db. map_option fst (Indexed_Find (Bytes [6]) db)) = Some (Inr (Bytes [12, 6]))"
  "Option.bind ex_six (\<lambda>db. map_option fst (FindAllByIndex ''all'' (Bytes [12]) db)) = Some (Inr [Bytes [3]])"
  by code_simp+

section \<open>Properties\<close>

text \<open>
  C7.  A history of inserts of new records and of deletes, on a tree whose indexes are
  unique, answers like a map with uniqueness constraints and leaves that map: an insert fails if
  and only if a record has the index key of the new one in some index, and then changes
  nothing.  The order in which Go ranges over the indexes, which may differ from call to call,
  does not matter.  Every index is consistent with the records at the end.
\<close>

theorem Indexed_history_refines:
  assumes "indexed_inv db" "all_unique (schema (indexes db))" "\<forall>(order, x) \<in> set xs. valid_order order db"
    "new_iops (schema (indexes db)) (map snd xs) (shard_map (ptree db))"
  shows "\<exists>db'. run_iops xs db = Some (fst (spec_iops (schema (indexes db)) (map snd xs) (shard_map (ptree db))), db') \<and> indexed_inv db' \<and>
    schema (indexes db') = schema (indexes db) \<and> shard_map (ptree db') = snd (spec_iops (schema (indexes db)) (map snd xs) (shard_map (ptree db)))"
  using run_iops_spec [OF assms] .

definition ex_unique :: IndexedBTree where
  "ex_unique = snd (CreateIndex ''one'' (PrefixExtractor 1) True (NewIndexedBTree 4 \<lparr>xcNumShards = 2\<rparr>))"

lemma ex_unique:
  "indexed_inv ex_unique" "shard_map (ptree ex_unique) = Map.empty" "schema (indexes ex_unique) = [''one'' \<mapsto> (PrefixExtractor 1, True)]"
proof -
  let ?new = "NewIndexedBTree 4 \<lparr>xcNumShards = 2\<rparr>"
  have n: "indexed_inv ?new" "shard_map (ptree ?new) = Map.empty" "indexes ?new = Map.empty"
    using NewIndexedBTree_law [of "\<lparr>xcNumShards = 2\<rparr>" 4] by simp_all
  have "indexes ?new ''one'' = None" using n(3) by simp
  then obtain db1 where 1: "CreateIndex ''one'' (PrefixExtractor 1) True ?new = (Inr (), db1)" "indexed_inv db1" "ptree db1 = ptree ?new"
    "schema (indexes db1) = (schema (indexes ?new))(''one'' \<mapsto> (PrefixExtractor 1, True))"
    using CreateIndex_law [OF n(1,2) _ PrefixExtractor_total] by (metis zero_le_one)
  moreover have "schema (indexes ?new) = Map.empty" using n(3) by (simp add: schema_def fun_eq_iff)
  ultimately show "indexed_inv ex_unique" "shard_map (ptree ex_unique) = Map.empty"
    "schema (indexes ex_unique) = [''one'' \<mapsto> (PrefixExtractor 1, True)]" using n(2) by (simp_all add: ex_unique_def)
qed

definition ex_history :: "(string list \<times> iop) list" where
  "ex_history = map (Pair [''one''])
     [IInsert (Bytes [1]) (Bytes [7, 7]), IInsert (Bytes [2]) (Bytes [7, 8]), IDelete (Bytes [1]), IInsert (Bytes [2]) (Bytes [7, 8])]"

lemma ex_history_spec:
  "new_iops [''one'' \<mapsto> (PrefixExtractor 1, True)] (map snd ex_history) Map.empty \<and>
   spec_iops [''one'' \<mapsto> (PrefixExtractor 1, True)] (map snd ex_history) Map.empty =
     ([Inr True, Inl ErrUniqueViolation, Inr True, Inr True], [[2] \<mapsto> Bytes [7, 8]])"
proof -
  let ?sch = "[''one'' \<mapsto> (PrefixExtractor 1, True)]"
  have v: "violates ?sch (Bytes (x # xs)) m \<longleftrightarrow> (\<exists>p. stored_key (PrefixExtractor 1) m p = Some [x])" for x xs m
    by (simp add: violates_def)
  have "\<not> violates ?sch (Bytes [7, 7]) Map.empty" "violates ?sch (Bytes [7, 8]) [[1] \<mapsto> Bytes [7, 7]]" "\<not> violates ?sch (Bytes [7, 8]) Map.empty"
    unfolding v by (auto simp: stored_key_def)
  moreover have "[[1] \<mapsto> Bytes [7, 7]]([1] := None) = (Map.empty :: bytes \<rightharpoonup> Valuetype)" by (simp add: fun_eq_iff)
  ultimately show ?thesis by (simp add: ex_history_def new_iop_def del: fun_upd_apply) (simp add: fun_eq_iff)
qed

theorem Indexed_history_refines_witness:
  "\<exists>db'. run_iops ex_history ex_unique = Some ([Inr True, Inl ErrUniqueViolation, Inr True, Inr True], db') \<and> indexed_inv db' \<and>
     shard_map (ptree db') = [[2] \<mapsto> Bytes [7, 8]]"
proof -
  have "dom (indexes ex_unique) = {''one''}" unfolding dom_schema ex_unique(3) by simp
  then have "\<forall>(order, x) \<in> set ex_history. valid_order order ex_unique" by (auto simp: ex_history_def valid_order_def)
  moreover have "all_unique (schema (indexes ex_unique))" by (simp add: ex_unique(3) all_unique_def)
  ultimately show ?thesis
    using Indexed_history_refines [OF ex_unique(1), of ex_history] ex_history_spec by (auto simp: ex_unique(2,3))
qed

text \<open>
  C15.  \<open>Insert\<close> of a new record into a consistent tree, with any indexes.  It fails if and only if the
  record breaks a unique index, and then records and indexes are as before.  Otherwise it succeeds and
  stores the record, and every index stays consistent with the records if the lists that
  grow are not in an internal node of their index tree (\<open>room\<close>).  But for a non-unique index with the
  value's index key in an internal node, the new record is lost: the call succeeds, and a query with that index
  key lists the older records only.
\<close>

theorem Indexed_Insert_spec:
  assumes "indexed_inv db" "valid_order order db" "key \<noteq> NilSlice" "val \<noteq> NilSlice"
    "length (bytes_of key) < 2 ^ 32" "shard_map (ptree db) (bytes_of key) = None" "lists_short val db"
  shows "\<exists>db'. Indexed_Insert order key val db = Some (if clashes val db then Inl ErrUniqueViolation else Inr (), db') \<and>
    schema (indexes db') = schema (indexes db) \<and>
    shard_map (ptree db') = (if clashes val db then shard_map (ptree db) else (shard_map (ptree db))(bytes_of key \<mapsto> val)) \<and>
    (clashes val db \<or> room val db \<longrightarrow> indexed_inv db') \<and>
    (\<forall>name idx b. \<not> clashes val db \<and> indexes db name = Some idx \<and> \<not> unique idx \<and> index_of (extractor idx) val = Some b \<and>
       \<not> shard_upd_ok (itree idx) b \<longrightarrow>
       (\<exists>ps db''. FindAllByIndex name (Bytes b) db' = Some (Inr (map Bytes ps), db'') \<and>
          set ps = {p. \<exists>w. shard_map (ptree db) p = Some w \<and> index_of (extractor idx) w = Some b} \<and> bytes_of key \<notin> set ps))"
  by (rule Indexed_Insert_full [OF assms])

theorem Indexed_Insert_spec_witness:
  "\<exists>db'. Indexed_Insert ex_order (Bytes [2]) (Bytes [9]) ex_indexed = Some (Inr (), db') \<and> indexed_inv db' \<and>
     shard_map (ptree db') = [[1] \<mapsto> Bytes [7, 7], [2] \<mapsto> Bytes [9]]"
proof -
  have "room (Bytes [9]) ex_indexed"
    by (rule room_alone [OF ex_indexed(1)]) (auto simp: ex_indexed(3) ex_empty(3) ex_stored split: if_splits)
  moreover have "\<not> clashes (Bytes [9]) ex_indexed"
    by (auto simp: clashes_violates violates_def ex_indexed(3) ex_empty(3) ex_stored split: if_splits)
  ultimately show ?thesis
    using Indexed_Insert_spec [OF ex_indexed(1) ex_order [OF ex_indexed(3)], of "Bytes [2]" "Bytes [9]"] room_outcome(1) by (auto simp: ex_indexed(2))
qed

text \<open>
  C16.  \<open>Update\<close> of a stored record in a consistent tree fails if and only if another record has the
  new value's key in a unique index, and then records and indexes are as before; otherwise it replaces the
  value and moves the record in every index.  This holds for a primary key that is not in an internal
  node of its tree, lists to shrink that are not either, index keys that are not empty, and a new value whose
  key no other record has in a non-unique index.
\<close>

theorem Indexed_Update_spec:
  assumes inv: "indexed_inv db" and ord: "valid_order order db" and nn: "key \<noteq> NilSlice" "new \<noteq> NilSlice"
    and len: "length (bytes_of key) < 2 ^ 32" and old: "shard_map (ptree db) (bytes_of key) = Some old"
    and upd: "shard_upd_ok (ptree db) (bytes_of key)" and room: "shrink_room key db" "moves_clear old new db"
  shows "\<exists>db'. Indexed_Update order key new db = Some (if clashesOther key new db then Inl ErrUniqueViolation else Inr (), db') \<and>
    indexed_inv db' \<and> schema (indexes db') = schema (indexes db) \<and>
    shard_map (ptree db') = (if clashesOther key new db then shard_map (ptree db) else (shard_map (ptree db))(bytes_of key \<mapsto> new))"
  by (rule Indexed_Update_law [OF assms])

theorem Indexed_Update_spec_witness:
  "\<exists>db'. Indexed_Update ex_order (Bytes [1]) (Bytes [8]) ex_indexed = Some (Inr (), db') \<and> indexed_inv db' \<and>
     shard_map (ptree db') = [[1] \<mapsto> Bytes [8]]"
proof -
  have "\<not> clashesOther (Bytes [1]) (Bytes [8]) ex_indexed" by (auto simp: clashesOther_def ex_indexed(2) split: if_splits)
  then show ?thesis
    using Indexed_Update_spec [OF ex_indexed(1) ex_order [OF ex_indexed(3)], of "Bytes [1]" "Bytes [8]" "Bytes [7, 7]"]
      ex_upd ex_shrink ex_moves by (auto simp: ex_indexed(2))
qed

text \<open>
  C14.  A query by index agrees with a scan of the records, in every state that index creation,
  inserts of new records, updates and deletes reach from a new tree without a write at a key of an internal
  node and without the other cases that \<open>indexed_reach\<close> leaves out: \<open>FindAllByIndex\<close> lists the keys of exactly the
  records with the index key (at most one if the index is unique), and \<open>FindRangeByIndex\<close> those with
  an index key between the bounds, sorted by index key.
\<close>

theorem Indexed_queries_agree:
  assumes "indexed_reach db" "indexes db name = Some idx" "bytes_of lo \<le> bytes_of hi"
  shows "(\<exists>ps db'. FindAllByIndex name (Bytes b) db = Some (if ps = [] then Inl ErrKeyNotFound else Inr (map Bytes ps), db') \<and>
      set ps = {p. stored_key (extractor idx) (shard_map (ptree db)) p = Some b} \<and> (unique idx \<longrightarrow> length ps \<le> 1)) \<and>
    (\<exists>ps. FindRangeByIndex name lo hi db = Some (Inr ps) \<and>
      (let key = stored_key (extractor idx) (shard_map (ptree db)) in
       set (map bytes_of ps) = {p. \<exists>b. key p = Some b \<and> bytes_of lo \<le> b \<and> b \<le> bytes_of hi} \<and>
       sorted (map (\<lambda>p. the (key (bytes_of p))) ps)))"
  using FindAllByIndex_law [of db name idx b] FindRangeByIndex_law [of db name idx lo hi] indexed_reach_inv [OF assms(1)] assms(2,3)
  by (simp add: stored_key_def bind_eq_Some_conv)

theorem Indexed_queries_agree_witness:
  "\<exists>db'. FindAllByIndex ''one'' (Bytes [7]) ex_indexed = Some (Inr [Bytes [1]], db')"
proof -
  have "schema (indexes ex_indexed) ''one'' = Some (PrefixExtractor 1, True)" unfolding ex_indexed(3) ex_empty(3) by simp
  then obtain idx where idx: "indexes ex_indexed ''one'' = Some idx" "extractor idx = PrefixExtractor 1" "unique idx" by (auto simp: schema_def)
  obtain ps db' where r: "FindAllByIndex ''one'' (Bytes [7]) ex_indexed = Some (if ps = [] then Inl ErrKeyNotFound else Inr (map Bytes ps), db')"
    "set ps = {[1]}" "length ps \<le> 1"
    using Indexed_queries_agree [OF ex_reach idx(1), of NilSlice NilSlice "[7]"] idx(2,3) by (auto simp: ex_stored split: if_splits)
  then have "ps = [[1]]" by (cases ps) auto
  then show ?thesis using r(1) by auto
qed

text \<open>
  C17.  \<open>CreateIndexWithRebuild\<close> on a tree whose primary shards are in order (every stored key has
  one copy), whatever its other indexes hold: a unique index is built on the stored records if no
  two of them have the same index key, and lists exactly them; otherwise the call fails and leaves no
  index behind.  A non-unique index is built if no two records have the same index key.  The records
  and the other indexes stay.
\<close>

theorem CreateIndexWithRebuild_spec:
  assumes sinv: "shard_inv (ptree db)" and new: "indexes db name = None" and tot: "\<forall>v. ext v \<noteq> None"
    and len: "\<And>p. p \<in> dom (shard_map (ptree db)) \<Longrightarrow> length p < 2 ^ 32" and u: "uniq \<or> separate ext (shard_map (ptree db))"
  shows "\<exists>db'. CreateIndexWithRebuild name ext uniq db =
      Some (if separate ext (shard_map (ptree db)) then Inr () else Inl ErrDuplicateKey, db') \<and> ptree db' = ptree db \<and>
    (\<forall>n. n \<noteq> name \<longrightarrow> indexes db' n = indexes db n) \<and>
    (if separate ext (shard_map (ptree db))
     then \<exists>idx. indexes db' name = Some idx \<and> extractor idx = ext \<and> unique idx = uniq \<and> idx_good idx (shard_map (ptree db))
     else indexes db' name = None)"
  by (rule CreateIndexWithRebuild_law [OF assms])

theorem CreateIndexWithRebuild_spec_witness:
  "\<exists>db' idx. CreateIndexWithRebuild ''two'' (PrefixExtractor 2) True ex_indexed = Some (Inr (), db') \<and>
     indexes db' ''two'' = Some idx \<and> idx_good idx [[1] \<mapsto> Bytes [7, 7]]"
proof -
  have "schema (indexes ex_indexed) ''two'' = None" unfolding ex_indexed(3) ex_empty(3) by simp
  then have "indexes ex_indexed ''two'' = None" by (simp add: schema_def)
  moreover have "separate (PrefixExtractor 2) (shard_map (ptree ex_indexed))" by (auto simp: separate_def ex_indexed(2) split: if_splits)
  moreover have "shard_inv (ptree ex_indexed)" using ex_indexed(1) by (simp add: indexed_inv_def)
  ultimately show ?thesis
    using CreateIndexWithRebuild_spec [OF _ _ PrefixExtractor_total, of ex_indexed "''two''" 2 True] by (auto simp: ex_indexed(2))
qed

text \<open>
  C33.  \<open>Insert\<close> over a stored record does not remove the old value from the indexes: if the
  index key changes, the index goes on listing the record under the old key, which its value no
  longer has.
\<close>

theorem Indexed_Insert_stale:
  assumes inv: "indexed_inv db" and ord: "valid_order order db" and nn: "key \<noteq> NilSlice"
    and len: "length (bytes_of key) < 2 ^ 32" and old: "shard_map (ptree db) (bytes_of key) = Some old"
    and upd: "shard_upd_ok (ptree db) (bytes_of key)" and ncl: "\<not> clashes new db" and room: "room new db"
    and idx: "indexes db name = Some idx" and b: "index_of (extractor idx) old = Some b" "index_of (extractor idx) new \<noteq> Some b"
  shows "\<exists>db' ps db2. Indexed_Insert order key new db = Some (Inr (), db') \<and>
    shard_map (ptree db') = (shard_map (ptree db))(bytes_of key \<mapsto> new) \<and>
    FindAllByIndex name (Bytes b) db' = Some (Inr ps, db2) \<and> Bytes (bytes_of key) \<in> set ps"
proof -
  obtain tree ixs where t: "Indexed_Insert order key new db = Some (Inr (), db\<lparr>ptree := tree, indexes := ixs\<rparr>)"
    "shard_map tree = (shard_map (ptree db))(bytes_of key \<mapsto> new)"
    "\<exists>i'. ixs name = Some i' \<and> keeps idx i'"
    using Indexed_Insert_over [OF inv ord nn len upd ncl room] idx by metis
  then obtain i' where i: "ixs name = Some i'" "idx_inv i'" "set (idx_keys idx b) \<subseteq> set (idx_keys i' b)" by (auto simp: keeps_def)
  have "bytes_of key \<in> set (idx_keys idx b)" using indexed_keys [OF inv idx] old b(1) by (simp add: stored_key_def)
  then have mem: "bytes_of key \<in> set (idx_keys i' b)" using i(3) by blast
  then have ne: "(idx_keys i' b = []) = False" by auto
  obtain i2 where "Idx_FindAll (Bytes b) i' = Some (Inr (map Bytes (idx_keys i' b)), i2)"
    using index.find_law [OF i(2), of "Bytes b"] by (simp only: bytes_of.simps ne if_False) blast
  then obtain db2 where "FindAllByIndex name (Bytes b) (db\<lparr>ptree := tree, indexes := ixs\<rparr>) = Some (Inr (map Bytes (idx_keys i' b)), db2)"
    using i(1) by (simp add: FindAllByIndex_def)
  moreover have "Bytes (bytes_of key) \<in> set (map Bytes (idx_keys i' b))" using mem by simp
  ultimately show ?thesis
    using t(1,2) by (intro exI [of _ "db\<lparr>ptree := tree, indexes := ixs\<rparr>"] exI [of _ "map Bytes (idx_keys i' b)"] exI [of _ db2]) simp
qed

theorem Indexed_Insert_stale_witness:
  "\<exists>db' ps db2. Indexed_Insert ex_order (Bytes [1]) (Bytes [8]) ex_indexed = Some (Inr (), db') \<and> shard_map (ptree db') = [[1] \<mapsto> Bytes [8]] \<and>
     FindAllByIndex ''one'' (Bytes [7]) db' = Some (Inr ps, db2) \<and> Bytes [1] \<in> set ps"
proof -
  have "schema (indexes ex_indexed) ''one'' = Some (PrefixExtractor 1, True)" unfolding ex_indexed(3) ex_empty(3) by simp
  then obtain idx where idx: "indexes ex_indexed ''one'' = Some idx" "extractor idx = PrefixExtractor 1" by (auto simp: schema_def)
  have "room (Bytes [8]) ex_indexed"
    by (rule room_alone [OF ex_indexed(1)]) (auto simp: ex_indexed(3) ex_empty(3) ex_stored split: if_splits)
  moreover have "\<not> clashes (Bytes [8]) ex_indexed"
    by (auto simp: clashes_violates violates_def ex_indexed(3) ex_empty(3) ex_stored split: if_splits)
  ultimately show ?thesis
    using Indexed_Insert_stale [OF ex_indexed(1) ex_order [OF ex_indexed(3)], of "Bytes [1]" "Bytes [7, 7]" "Bytes [8]" "''one''" idx "[7]"]
      idx ex_upd by (simp add: ex_indexed(2))
qed

end
