(* ===== verification/Indexed_Race.thy ===== *)
theory Indexed_Race
  imports Indexed_History
begin

text \<open>
  Concurrent inserts into an indexed tree, \<^verbatim>\<open>src/bptree/indexed_btree.go\<close>.  \<open>Insert\<close> holds no
  lock over its whole body: the checks, the primary insert, the update of each index and the
  rollback are atomic one by one (each takes the lock of one index or of one shard), and goroutines
  interleave between them.
\<close>

section \<open>Goroutines\<close>

text \<open>
  The progress of an insert: the indexes left to check; those updated and those left to update; the error that
  it rolls back for; its answer.  The updated indexes stay known after the return.
\<close>

datatype ipc = Checking "string list" | Indexing "string list" "string list" | Undoing go_error "string list"
  | Answered "go_error + unit" "string list"

record insertion =
  gkey :: Keytype
  gval :: Valuetype
  gorder :: "string list"
  gpc :: ipc

definition new_insertion :: "string list \<Rightarrow> Keytype \<Rightarrow> Valuetype \<Rightarrow> insertion" where
  "new_insertion order key val = \<lparr>gkey = key, gval = val, gorder = order, gpc = Checking order\<rparr>"

text \<open>The next step of one goroutine; none is left after the answer, and a panic is none either.\<close>

definition istep :: "insertion \<Rightarrow> IndexedBTree \<Rightarrow> (insertion \<times> IndexedBTree) option" where
  "istep g db =
     (case gpc g of
        Checking [] \<Rightarrow>
          do {
            tree \<leftarrow> Sharded_Insert (ptree db) (gkey g) (gval g);
            Some (g\<lparr>gpc := Indexing [] (gorder g)\<rparr>, db\<lparr>ptree := tree\<rparr>)
          }
      | Checking (n # ns) \<Rightarrow>
          (case indexes db n of
             None \<Rightarrow> Some (g\<lparr>gpc := Checking ns\<rparr>, db)
           | Some idx \<Rightarrow>
               do {
                 (r, idx') \<leftarrow> insertCheck (gval g) idx;
                 Some (g\<lparr>gpc := (case r of Inl err \<Rightarrow> Answered (Inl err) [] | Inr _ \<Rightarrow> Checking ns)\<rparr>,
                       db\<lparr>indexes := (indexes db)(n \<mapsto> idx')\<rparr>)
               })
      | Indexing ds [] \<Rightarrow> Some (g\<lparr>gpc := Answered (Inr ()) ds\<rparr>, db)
      | Indexing ds (n # ns) \<Rightarrow>
          (case indexes db n of
             None \<Rightarrow> Some (g\<lparr>gpc := Indexing ds ns\<rparr>, db)
           | Some idx \<Rightarrow>
               do {
                 (r, idx') \<leftarrow> Idx_Index (gkey g) (gval g) idx;
                 Some (g\<lparr>gpc := (case r of Inl err \<Rightarrow> Undoing err ds | Inr _ \<Rightarrow> Indexing (ds @ [n]) ns)\<rparr>,
                       db\<lparr>indexes := (indexes db)(n \<mapsto> idx')\<rparr>)
               })
      | Undoing err ds \<Rightarrow>
          do {
            (_, tree) \<leftarrow> Sharded_Delete (ptree db) (gkey g);
            Some (g\<lparr>gpc := Answered (Inl err) ds\<rparr>, db\<lparr>ptree := tree\<rparr>)
          }
      | Answered r ds \<Rightarrow> None)"

text \<open>Any goroutine may take the next step.\<close>

inductive race :: "insertion list \<times> IndexedBTree \<Rightarrow> insertion list \<times> IndexedBTree \<Rightarrow> bool" where
  race_step: "i < length gs \<Longrightarrow> istep (gs ! i) db = Some (g', db') \<Longrightarrow> race (gs, db) (gs[i := g'], db')"

inductive_cases raceE: "race (gs, db) st"

section \<open>Alone, an insertion is \<open>Insert\<close>\<close>

inductive solo :: "insertion \<times> IndexedBTree \<Rightarrow> insertion \<times> IndexedBTree \<Rightarrow> bool" where
  solo_done: "solo (g, db) (g, db)"
| solo_step: "istep g db = Some (g1, db1) \<Longrightarrow> solo (g1, db1) st \<Longrightarrow> solo (g, db) st"

lemma gpc_self: "gpc g = p \<Longrightarrow> g\<lparr>gpc := p\<rparr> = g"
  by (cases g) simp

lemma indexes_self: "db\<lparr>indexes := indexes db\<rparr> = db"
  by (cases db) simp

lemma solo_check:
  "gpc g = Checking ns \<Longrightarrow> eachIndex (insertCheck (gval g)) ns (indexes db) = Some (r, ixs) \<Longrightarrow>
   solo (g\<lparr>gpc := (case r of Inl err \<Rightarrow> Answered (Inl err) [] | Inr _ \<Rightarrow> Checking [])\<rparr>, db\<lparr>indexes := ixs\<rparr>) st \<Longrightarrow> solo (g, db) st"
proof (induction ns arbitrary: g db)
  case Nil
  then show ?case by (auto simp: gpc_self indexes_self)
next
  case (Cons n ns)
  show ?case
  proof (cases "indexes db n")
    case None
    have "solo (g\<lparr>gpc := Checking ns\<rparr>, db) st"
      by (rule Cons.IH) (use Cons.prems None in simp_all)
    then show ?thesis by (rule solo_step [rotated]) (use Cons.prems(1) None in \<open>simp add: istep_def\<close>)
  next
    case (Some idx)
    obtain r1 idx' where 1: "insertCheck (gval g) idx = Some (r1, idx')" using Cons.prems(2) Some by (auto split: bind_splits)
    show ?thesis
    proof (cases r1)
      case (Inl err)
      then have "r = Inl err" "ixs = (indexes db)(n \<mapsto> idx')" using Cons.prems(2) Some 1 by auto
      then have "istep g db = Some (g\<lparr>gpc := (case r of Inl err \<Rightarrow> Answered (Inl err) [] | Inr _ \<Rightarrow> Checking [])\<rparr>, db\<lparr>indexes := ixs\<rparr>)"
        using Cons.prems(1) Some 1 Inl by (simp add: istep_def)
      then show ?thesis by (rule solo_step) (rule Cons.prems(3))
    next
      case (Inr u)
      have "solo (g\<lparr>gpc := Checking ns\<rparr>, db\<lparr>indexes := (indexes db)(n \<mapsto> idx')\<rparr>) st"
        by (rule Cons.IH) (use Cons.prems Some 1 Inr in \<open>simp_all add: fun_upd_def\<close>)
      then show ?thesis by (rule solo_step [rotated]) (use Cons.prems(1) Some 1 Inr in \<open>simp add: istep_def\<close>)
    qed
  qed
qed

lemma solo_index:
  "gpc g = Indexing ds ns \<Longrightarrow> eachIndex (Idx_Index (gkey g) (gval g)) ns (indexes db) = Some (r, ixs) \<Longrightarrow>
   (\<And>ds'. solo (g\<lparr>gpc := (case r of Inl err \<Rightarrow> Undoing err ds' | Inr _ \<Rightarrow> Indexing ds' [])\<rparr>, db\<lparr>indexes := ixs\<rparr>) (st ds')) \<Longrightarrow>
   \<exists>ds'. solo (g, db) (st ds')"
proof (induction ns arbitrary: g db ds)
  case Nil
  have "g\<lparr>gpc := Indexing ds []\<rparr> = g" using Nil.prems(1) by (rule gpc_self)
  then have "solo (g, db) (st ds)" using Nil.prems(2) Nil.prems(3) [of ds] by (auto simp: indexes_self)
  then show ?case by blast
next
  case (Cons n ns)
  show ?case
  proof (cases "indexes db n")
    case None
    have "\<exists>ds'. solo (g\<lparr>gpc := Indexing ds ns\<rparr>, db) (st ds')"
      by (rule Cons.IH) (use Cons.prems None in simp_all)
    moreover have "istep g db = Some (g\<lparr>gpc := Indexing ds ns\<rparr>, db)" using Cons.prems(1) None by (simp add: istep_def)
    ultimately show ?thesis using solo_step by blast
  next
    case (Some idx)
    obtain r1 idx' where 1: "Idx_Index (gkey g) (gval g) idx = Some (r1, idx')" using Cons.prems(2) Some by (auto split: bind_splits)
    show ?thesis
    proof (cases r1)
      case (Inl err)
      then have "r = Inl err" "ixs = (indexes db)(n \<mapsto> idx')" using Cons.prems(2) Some 1 by auto
      then have "istep g db = Some (g\<lparr>gpc := (case r of Inl err \<Rightarrow> Undoing err ds | Inr _ \<Rightarrow> Indexing ds [])\<rparr>, db\<lparr>indexes := ixs\<rparr>)"
        using Cons.prems(1) Some 1 Inl by (simp add: istep_def)
      then show ?thesis using solo_step [OF _ Cons.prems(3)] by blast
    next
      case (Inr u)
      have "\<exists>ds'. solo (g\<lparr>gpc := Indexing (ds @ [n]) ns\<rparr>, db\<lparr>indexes := (indexes db)(n \<mapsto> idx')\<rparr>) (st ds')"
        by (rule Cons.IH) (use Cons.prems Some 1 Inr in \<open>simp_all add: fun_upd_def\<close>)
      moreover have "istep g db = Some (g\<lparr>gpc := Indexing (ds @ [n]) ns\<rparr>, db\<lparr>indexes := (indexes db)(n \<mapsto> idx')\<rparr>)"
        using Cons.prems(1) Some 1 Inr by (simp add: istep_def)
      ultimately show ?thesis using solo_step by blast
    qed
  qed
qed

text \<open>The steps of one goroutine that no other one interrupts make up \<open>Insert\<close>.\<close>

lemma solo_Insert:
  assumes "Indexed_Insert order key val db = Some (r, db')"
  shows "\<exists>ds. solo (new_insertion order key val, db) ((new_insertion order key val)\<lparr>gpc := Answered r ds\<rparr>, db')"
proof -
  let ?g = "new_insertion order key val"
  have g: "gpc ?g = Checking order" "gkey ?g = key" "gval ?g = val" "gorder ?g = order" by (simp_all add: new_insertion_def)
  obtain r1 ixs1 where c: "eachIndex (insertCheck val) order (indexes db) = Some (r1, ixs1)"
    using assms by (auto simp: Indexed_Insert_def split: bind_splits)
  show ?thesis
  proof (cases r1)
    case (Inl err)
    then have "r = Inl err" "db' = db\<lparr>indexes := ixs1\<rparr>" using assms c by (auto simp: Indexed_Insert_def)
    then have "solo (?g, db) (?g\<lparr>gpc := Answered r []\<rparr>, db')"
      using solo_check [of ?g order db r1 ixs1] g c Inl by (simp add: solo_done)
    then show ?thesis by blast
  next
    case (Inr u)
    obtain tree where t: "Sharded_Insert (ptree db) key val = Some tree" using assms c Inr by (auto simp: Indexed_Insert_def split: bind_splits)
    obtain r2 ixs2 where e: "eachIndex (Idx_Index key val) order ixs1 = Some (r2, ixs2)"
      using assms c Inr t by (auto simp: Indexed_Insert_def split: bind_splits)
    let ?db = "db\<lparr>ptree := tree, indexes := ixs1\<rparr>" and ?g1 = "?g\<lparr>gpc := Indexing [] order\<rparr>"
    have "\<exists>ds. solo (?g1, ?db) (?g\<lparr>gpc := Answered r ds\<rparr>, db')"
    proof (rule solo_index [where g = ?g1 and db = ?db and ds = "[]" and ns = order and r = r2 and ixs = ixs2])
      show "solo (?g1\<lparr>gpc := (case r2 of Inl err \<Rightarrow> Undoing err ds' | Inr _ \<Rightarrow> Indexing ds' [])\<rparr>, ?db\<lparr>indexes := ixs2\<rparr>)
          (?g\<lparr>gpc := Answered r ds'\<rparr>, db')" for ds'
        by (rule solo_step [OF _ solo_done]) (use assms c Inr t e g in \<open>cases r2; auto simp: Indexed_Insert_def istep_def split: bind_splits\<close>)
    qed (use e g in simp_all)
    moreover have "istep (?g\<lparr>gpc := Checking []\<rparr>) (db\<lparr>indexes := ixs1\<rparr>) = Some (?g1, ?db)"
      using t g by (simp add: istep_def)
    ultimately show ?thesis
      using solo_check [of ?g order db r1 ixs1] g c Inr solo_step by (metis sum.case(2))
  qed
qed

section \<open>The invariant of every interleaving\<close>

primrec dones :: "ipc \<Rightarrow> string list" where
  "dones (Checking ns) = []"
| "dones (Indexing ds ns) = ds"
| "dones (Undoing err ds) = ds"
| "dones (Answered r ds) = ds"

primrec in_tree :: "ipc \<Rightarrow> bool" where
  "in_tree (Checking ns) = False"
| "in_tree (Indexing ds ns) = True"
| "in_tree (Undoing err ds) = True"
| "in_tree (Answered r ds) = (r = Inr ())"

text \<open>The records and the index entries that the insertions contribute.\<close>

definition stored :: "insertion list \<Rightarrow> bytes \<Rightarrow> Valuetype \<Rightarrow> bool" where
  "stored gs p v \<longleftrightarrow> (\<exists>g \<in> set gs. in_tree (gpc g) \<and> bytes_of (gkey g) = p \<and> gval g = v)"

definition listed :: "insertion list \<Rightarrow> string \<Rightarrow> KeyExtractor \<Rightarrow> bytes \<Rightarrow> bytes \<Rightarrow> bool" where
  "listed gs n e b p \<longleftrightarrow> (\<exists>g \<in> set gs. n \<in> set (dones (gpc g)) \<and> bytes_of (gkey g) = p \<and> index_of e (gval g) = Some b)"

definition pc_ok :: "string set \<Rightarrow> ipc \<Rightarrow> bool" where
  "pc_ok names pc = (case pc of Indexing ds ns \<Rightarrow> distinct (ds @ ns) \<and> set (ds @ ns) = names | Answered r ds \<Rightarrow> (r = Inr () \<longrightarrow> set ds = names) | _ \<Rightarrow> True)"

definition fresh_insertions :: "(bytes \<rightharpoonup> Valuetype) \<Rightarrow> string set \<Rightarrow> insertion list \<Rightarrow> bool" where
  "fresh_insertions m names gs \<longleftrightarrow> distinct (map (\<lambda>g. bytes_of (gkey g)) gs) \<and>
     (\<forall>g \<in> set gs. gkey g \<noteq> NilSlice \<and> length (bytes_of (gkey g)) < 2 ^ 32 \<and> m (bytes_of (gkey g)) = None \<and> distinct (gorder g) \<and> set (gorder g) = names)"

definition race_inv :: "(bytes \<rightharpoonup> Valuetype) \<Rightarrow> (string \<Rightarrow> (KeyExtractor \<times> bool) option) \<Rightarrow> insertion list \<Rightarrow> IndexedBTree \<Rightarrow> bool" where
  "race_inv m sch gs db \<longleftrightarrow> fresh_insertions m (dom sch) gs \<and> (\<forall>g \<in> set gs. pc_ok (dom sch) (gpc g)) \<and>
     shard_inv (ptree db) \<and> (\<forall>p v. shard_map (ptree db) p = Some v \<longleftrightarrow> m p = Some v \<or> stored gs p v) \<and>
     schema (indexes db) = sch \<and>
     (\<forall>n idx. indexes db n = Some idx \<longrightarrow> idx_inv idx \<and> (\<forall>v. extractor idx v \<noteq> None) \<and>
        (\<forall>b p. p \<in> set (idx_keys idx b) \<longleftrightarrow> stored_key (extractor idx) m p = Some b \<or> listed gs n (extractor idx) b p))"

lemma race_invD:
  assumes "race_inv m sch gs db"
  shows "fresh_insertions m (dom sch) gs" "\<forall>g \<in> set gs. pc_ok (dom sch) (gpc g)" "shard_inv (ptree db)"
    "\<forall>p v. shard_map (ptree db) p = Some v \<longleftrightarrow> m p = Some v \<or> stored gs p v" "schema (indexes db) = sch"
    "\<forall>n idx. indexes db n = Some idx \<longrightarrow> idx_inv idx \<and> (\<forall>v. extractor idx v \<noteq> None) \<and>
        (\<forall>b p. p \<in> set (idx_keys idx b) \<longleftrightarrow> stored_key (extractor idx) m p = Some b \<or> listed gs n (extractor idx) b p)"
  using assms unfolding race_inv_def by - (elim conjE; assumption)+

lemma one_owner:
  assumes "fresh_insertions m names gs" "i < length gs" "g \<in> set gs" "bytes_of (gkey g) = bytes_of (gkey (gs ! i))"
  shows "g = gs ! i"
  using assms by (auto simp: fresh_insertions_def in_set_conv_nth distinct_conv_nth)

lemma stored_at:
  assumes "fresh_insertions m names gs" "i < length gs"
  shows "stored gs (bytes_of (gkey (gs ! i))) v \<longleftrightarrow> in_tree (gpc (gs ! i)) \<and> gval (gs ! i) = v"
  unfolding stored_def using one_owner [OF assms] nth_mem [OF assms(2)] by blast

lemma listed_at:
  assumes "fresh_insertions m names gs" "i < length gs"
  shows "listed gs n e b (bytes_of (gkey (gs ! i))) \<longleftrightarrow> n \<in> set (dones (gpc (gs ! i))) \<and> index_of e (gval (gs ! i)) = Some b"
  unfolding listed_def using one_owner [OF assms] nth_mem [OF assms(2)] by blast

lemma other_owner:
  assumes "i < length gs" "p \<noteq> bytes_of (gkey (gs ! i))" "gkey g' = gkey (gs ! i)"
  shows "stored (gs[i := g']) p v = stored gs p v" "listed (gs[i := g']) n e b p = listed gs n e b p"
proof -
  have ex: "(\<exists>g \<in> set xs. Q g) \<longleftrightarrow> (\<exists>j < length xs. Q (xs ! j))" for Q and xs :: "insertion list"
    by (metis in_set_conv_nth)
  have "(\<exists>g \<in> set (gs[i := g']). P g \<and> bytes_of (gkey g) = p) \<longleftrightarrow> (\<exists>g \<in> set gs. P g \<and> bytes_of (gkey g) = p)" for P
    unfolding ex length_list_update using assms by (metis nth_list_update)
  from this [of "\<lambda>g. in_tree (gpc g) \<and> gval g = v"] this [of "\<lambda>g. n \<in> set (dones (gpc g)) \<and> index_of e (gval g) = Some b"]
  show "stored (gs[i := g']) p v = stored gs p v" "listed (gs[i := g']) n e b p = listed gs n e b p"
    unfolding stored_def listed_def by blast+
qed

lemma fresh_update:
  assumes "fresh_insertions m names gs" "i < length gs" "gkey g' = gkey (gs ! i)" "gorder g' = gorder (gs ! i)"
  shows "fresh_insertions m names (gs[i := g'])"
proof -
  have "map (\<lambda>g. bytes_of (gkey g)) (gs[i := g']) = map (\<lambda>g. bytes_of (gkey g)) gs"
    using assms(2,3) by (simp add: map_update list_update_same_conv)
  moreover have "\<forall>g \<in> set (gs[i := g']). gkey g \<noteq> NilSlice \<and> length (bytes_of (gkey g)) < 2 ^ 32 \<and> m (bytes_of (gkey g)) = None \<and> distinct (gorder g) \<and> set (gorder g) = names"
    using assms set_update_subset_insert [of gs i g'] nth_mem [OF assms(2)] unfolding fresh_insertions_def by fastforce
  ultimately show ?thesis using assms(1) unfolding fresh_insertions_def by presburger
qed

text \<open>At the key of a goroutine, tree and indexes have what that goroutine has done.\<close>

lemma race_key:
  assumes inv: "race_inv m sch gs db" and i: "i < length gs"
  shows "shard_map (ptree db) (bytes_of (gkey (gs ! i))) = Some v \<longleftrightarrow> in_tree (gpc (gs ! i)) \<and> gval (gs ! i) = v"
    and "indexes db n = Some idx \<Longrightarrow> bytes_of (gkey (gs ! i)) \<in> set (idx_keys idx b) \<longleftrightarrow>
      n \<in> set (dones (gpc (gs ! i))) \<and> index_of (extractor idx) (gval (gs ! i)) = Some b"
proof -
  note D = race_invD [OF inv]
  have mk: "m (bytes_of (gkey (gs ! i))) = None" using D(1) nth_mem [OF i] by (simp add: fresh_insertions_def)
  show "shard_map (ptree db) (bytes_of (gkey (gs ! i))) = Some v \<longleftrightarrow> in_tree (gpc (gs ! i)) \<and> gval (gs ! i) = v"
    using D(4) [rule_format, of "bytes_of (gkey (gs ! i))" v] stored_at [OF D(1) i] mk by simp
  show "bytes_of (gkey (gs ! i)) \<in> set (idx_keys idx b) \<longleftrightarrow> n \<in> set (dones (gpc (gs ! i))) \<and> index_of (extractor idx) (gval (gs ! i)) = Some b"
    if "indexes db n = Some idx"
    using D(6) [rule_format, OF that] listed_at [OF D(1) i, of n "extractor idx" b] mk by (simp add: stored_key_def)
qed

text \<open>One goroutine moves on: what the tree and the indexes must have done at its key.\<close>

lemma race_update:
  assumes inv: "race_inv m sch gs db" and i: "i < length gs" and g': "g' = (gs ! i)\<lparr>gpc := pc'\<rparr>" and pc: "pc_ok (dom sch) pc'"
    and key: "k = bytes_of (gkey (gs ! i))" and db: "shard_inv (ptree db')" "schema (indexes db') = sch"
    and T: "\<And>p v. shard_map (ptree db') p = Some v \<longleftrightarrow> (if p = k then in_tree pc' \<and> gval (gs ! i) = v else shard_map (ptree db) p = Some v)"
    and X: "\<And>n idx'. indexes db' n = Some idx' \<Longrightarrow> \<exists>idx. indexes db n = Some idx \<and> idx_inv idx' \<and> extractor idx' = extractor idx \<and>
      (\<forall>b p. p \<in> set (idx_keys idx' b) \<longleftrightarrow> (if p = k then n \<in> set (dones pc') \<and> index_of (extractor idx) (gval (gs ! i)) = Some b else p \<in> set (idx_keys idx b)))"
  shows "race_inv m sch (gs[i := g']) db'"
proof -
  let ?gs = "gs[i := g']"
  note D = race_invD [OF inv]
  note fr = D(1) and pcs = D(2) and old = D(4) [rule_format]
  have ixs: "(\<forall>v. extractor idx v \<noteq> None)" "p \<in> set (idx_keys idx b) \<longleftrightarrow> stored_key (extractor idx) m p = Some b \<or> listed gs n (extractor idx) b p"
    if "indexes db n = Some idx" for n idx b p
    using D(6) [rule_format, OF that] by simp_all
  have fr': "fresh_insertions m (dom sch) ?gs" by (rule fresh_update [OF fr i]) (simp_all add: g')
  have mk: "m k = None" using fr nth_mem [OF i] by (simp add: fresh_insertions_def key)
  have i': "i < length ?gs" using i by simp
  have "shard_map (ptree db') p = Some v \<longleftrightarrow> m p = Some v \<or> stored ?gs p v" for p v
  proof (cases "p = k")
    case True
    then show ?thesis using T [of p v] stored_at [OF fr' i', of v] mk i by (simp add: g' key)
  next
    case False
    then show ?thesis using T [of p v] old [of p v] other_owner(1) [OF i, of p g' v] by (simp add: key g')
  qed
  moreover have "idx_inv idx' \<and> (\<forall>v. extractor idx' v \<noteq> None) \<and>
      (\<forall>b p. p \<in> set (idx_keys idx' b) \<longleftrightarrow> stored_key (extractor idx') m p = Some b \<or> listed ?gs n (extractor idx') b p)"
    if n: "indexes db' n = Some idx'" for n idx'
  proof -
    obtain idx where x: "indexes db n = Some idx" "idx_inv idx'" "extractor idx' = extractor idx"
      "\<And>b p. p \<in> set (idx_keys idx' b) \<longleftrightarrow> (if p = k then n \<in> set (dones pc') \<and> index_of (extractor idx) (gval (gs ! i)) = Some b else p \<in> set (idx_keys idx b))"
      using X [OF n] by blast
    have "p \<in> set (idx_keys idx' b) \<longleftrightarrow> stored_key (extractor idx') m p = Some b \<or> listed ?gs n (extractor idx') b p" for b p
    proof (cases "p = k")
      case True
      then show ?thesis using x(3) x(4) [of p b] listed_at [OF fr' i', of n "extractor idx" b] mk i by (simp add: g' key stored_key_def)
    next
      case False
      then show ?thesis using x(3) x(4) [of p b] ixs(2) [OF x(1)] other_owner(2) [OF i, of p g' n "extractor idx" b] by (simp add: key g')
    qed
    then show ?thesis using x(2,3) ixs(1) [OF x(1)] by simp
  qed
  moreover have "\<forall>g \<in> set ?gs. pc_ok (dom sch) (gpc g)"
    using set_update_subset_insert [of gs i g'] pcs pc g' by auto
  ultimately show ?thesis using fr' db unfolding race_inv_def by blast
qed

text \<open>A step on one index.\<close>

definition moved :: "string list \<Rightarrow> insertion \<Rightarrow> string \<Rightarrow> SecondaryIndex \<Rightarrow> SecondaryIndex \<Rightarrow> bool" where
  "moved ds g n idx idx' \<longleftrightarrow> idx_inv idx' \<and> extractor idx' = extractor idx \<and> unique idx' = unique idx \<and>
     (\<forall>b p. p \<in> set (idx_keys idx' b) \<longleftrightarrow>
        (if p = bytes_of (gkey g) then n \<in> set ds \<and> index_of (extractor idx) (gval g) = Some b else p \<in> set (idx_keys idx b)))"

lemma moved_same:
  assumes "race_inv m sch gs db" "i < length gs" "indexes db n = Some idx"
  shows "moved (dones (gpc (gs ! i))) (gs ! i) n idx idx"
  using race_invD(6) [OF assms(1), rule_format, OF assms(3)] race_key(2) [OF assms] by (simp add: moved_def)

lemma moved_same_idx: "moved ds g n idx idx \<Longrightarrow> same_idx idx idx' \<Longrightarrow> moved ds g n idx idx'"
  by (simp add: moved_def same_idx_def)

lemma moved_cong: "moved ds g n idx idx' \<Longrightarrow> (n \<in> set ds \<longleftrightarrow> n \<in> set ds') \<Longrightarrow> moved ds' g n idx idx'"
  by (simp add: moved_def)

lemma schema_upd: "ixs n = Some idx \<Longrightarrow> extractor idx' = extractor idx \<Longrightarrow> unique idx' = unique idx \<Longrightarrow> schema (ixs(n \<mapsto> idx')) = schema ixs"
  by (rule ext) (simp add: schema_def)

lemma race_index:
  assumes inv: "race_inv m sch gs db" and i: "i < length gs" and n: "indexes db n = Some idx" and mv: "moved (dones pc') (gs ! i) n idx idx'"
    and pc: "pc_ok (dom sch) pc'" "in_tree pc' = in_tree (gpc (gs ! i))" "\<And>n'. n' \<noteq> n \<Longrightarrow> n' \<in> set (dones pc') \<longleftrightarrow> n' \<in> set (dones (gpc (gs ! i)))"
  shows "race_inv m sch (gs[i := (gs ! i)\<lparr>gpc := pc'\<rparr>]) (db\<lparr>indexes := (indexes db)(n \<mapsto> idx')\<rparr>)"
proof (rule race_update [OF inv i refl pc(1) refl])
  note D = race_invD [OF inv]
  show "shard_inv (ptree (db\<lparr>indexes := (indexes db)(n \<mapsto> idx')\<rparr>))" using D(3) by simp
  show "schema (indexes (db\<lparr>indexes := (indexes db)(n \<mapsto> idx')\<rparr>)) = sch"
    using D(5) schema_upd [of "indexes db" n idx idx'] n mv by (simp add: moved_def)
  show "shard_map (ptree (db\<lparr>indexes := (indexes db)(n \<mapsto> idx')\<rparr>)) p = Some v \<longleftrightarrow>
      (if p = bytes_of (gkey (gs ! i)) then in_tree pc' \<and> gval (gs ! i) = v else shard_map (ptree db) p = Some v)" for p v
    using race_key(1) [OF inv i, of v] pc(2) by simp
  fix n' jdx'
  assume n': "indexes (db\<lparr>indexes := (indexes db)(n \<mapsto> idx')\<rparr>) n' = Some jdx'"
  have "\<exists>jdx. indexes db n' = Some jdx \<and> moved (dones pc') (gs ! i) n' jdx jdx'"
  proof (cases "n' = n")
    case True
    then show ?thesis using n n' mv by simp
  next
    case False
    then show ?thesis using n' moved_cong [OF moved_same [OF inv i]] pc(3) [of n'] by simp
  qed
  then show "\<exists>jdx. indexes db n' = Some jdx \<and> idx_inv jdx' \<and> extractor jdx' = extractor jdx \<and>
      (\<forall>b p. p \<in> set (idx_keys jdx' b) \<longleftrightarrow> (if p = bytes_of (gkey (gs ! i)) then n' \<in> set (dones pc') \<and>
        index_of (extractor jdx) (gval (gs ! i)) = Some b else p \<in> set (idx_keys jdx b)))"
    unfolding moved_def by blast
qed

text \<open>A step on the primary tree, or on nothing.\<close>

lemma race_tree:
  assumes inv: "race_inv m sch gs db" and i: "i < length gs" and pc: "pc_ok (dom sch) pc'" "set (dones pc') = set (dones (gpc (gs ! i)))"
    and t: "shard_inv tree" "shard_map tree = (shard_map (ptree db))(bytes_of (gkey (gs ! i)) := if in_tree pc' then Some (gval (gs ! i)) else None)"
  shows "race_inv m sch (gs[i := (gs ! i)\<lparr>gpc := pc'\<rparr>]) (db\<lparr>ptree := tree\<rparr>)"
proof (rule race_update [OF inv i refl pc(1) refl])
  fix n idx'
  assume n: "indexes (db\<lparr>ptree := tree\<rparr>) n = Some idx'"
  then have "indexes db n = Some idx' \<and> moved (dones pc') (gs ! i) n idx' idx'"
    using moved_cong [OF moved_same [OF inv i]] pc(2) by simp
  then show "\<exists>jdx. indexes db n = Some jdx \<and> idx_inv idx' \<and> extractor idx' = extractor jdx \<and>
      (\<forall>b p. p \<in> set (idx_keys idx' b) \<longleftrightarrow> (if p = bytes_of (gkey (gs ! i)) then n \<in> set (dones pc') \<and>
        index_of (extractor jdx) (gval (gs ! i)) = Some b else p \<in> set (idx_keys jdx b)))"
    unfolding moved_def by blast
qed (use t race_invD(5) [OF inv] in simp_all)

lemma race_quiet:
  assumes inv: "race_inv m sch gs db" and i: "i < length gs" and pc: "pc_ok (dom sch) pc'" "set (dones pc') = set (dones (gpc (gs ! i)))"
    "in_tree pc' = in_tree (gpc (gs ! i))"
  shows "race_inv m sch (gs[i := (gs ! i)\<lparr>gpc := pc'\<rparr>]) db"
proof -
  let ?k = "bytes_of (gkey (gs ! i))"
  have "shard_map (ptree db) ?k = (if in_tree pc' then Some (gval (gs ! i)) else None)"
    using race_key(1) [OF inv i] pc(3) by (cases "shard_map (ptree db) ?k") auto
  then have "shard_map (ptree db) = (shard_map (ptree db))(?k := if in_tree pc' then Some (gval (gs ! i)) else None)" by (simp add: fun_eq_iff)
  from race_tree [OF inv i pc(1,2) race_invD(3) [OF inv] this] show ?thesis by simp
qed

section \<open>Every step keeps the invariant\<close>

text \<open>
  The abstract machine: the next step of a goroutine, from the records and the schema at the start and from what the other
  goroutines have done.  An index key is busy if the index lists a record under it.
\<close>

definition busy :: "(bytes \<rightharpoonup> Valuetype) \<Rightarrow> (string \<Rightarrow> (KeyExtractor \<times> bool) option) \<Rightarrow> insertion list \<Rightarrow> string \<Rightarrow> Valuetype \<Rightarrow> bool" where
  "busy m sch gs n v \<longleftrightarrow> (\<exists>e u b p. sch n = Some (e, u) \<and> index_of e v = Some b \<and> (stored_key e m p = Some b \<or> listed gs n e b p))"

definition next_pc :: "(bytes \<rightharpoonup> Valuetype) \<Rightarrow> (string \<Rightarrow> (KeyExtractor \<times> bool) option) \<Rightarrow> insertion list \<Rightarrow> insertion \<Rightarrow> ipc" where
  "next_pc m sch gs g =
     (case gpc g of
        Checking [] \<Rightarrow> Indexing [] (gorder g)
      | Checking (n # ns) \<Rightarrow> if busy m sch gs n (gval g) then Answered (Inl ErrUniqueViolation) [] else Checking ns
      | Indexing ds [] \<Rightarrow> Answered (Inr ()) ds
      | Indexing ds (n # ns) \<Rightarrow> if busy m sch gs n (gval g) then Undoing ErrDuplicateKey ds else Indexing (ds @ [n]) ns
      | Undoing err ds \<Rightarrow> Answered (Inl err) ds
      | Answered r ds \<Rightarrow> Answered r ds)"

lemma busy_at:
  assumes "race_inv m sch gs db" "indexes db n = Some idx"
  shows "busy m sch gs n v \<longleftrightarrow> (\<exists>b. index_of (extractor idx) v = Some b \<and> idx_keys idx b \<noteq> [])"
proof -
  note D = race_invD [OF assms(1)]
  have "sch n = Some (extractor idx, unique idx)" using schema_at [OF assms(2)] D(5) by simp
  moreover have "idx_keys idx b \<noteq> [] \<longleftrightarrow> (\<exists>p. stored_key (extractor idx) m p = Some b \<or> listed gs n (extractor idx) b p)" for b
    using D(6) [rule_format, OF assms(2)] by (metis list.set_intros(1) list.set_cases neq_Nil_conv)
  ultimately show ?thesis by (auto simp: busy_def)
qed

lemma insertCheck_taken:
  assumes "idx_inv idx" "extractor idx v \<noteq> None" "unique idx"
  shows "\<exists>idx'. insertCheck v idx = Some (if taken v idx then Inl ErrUniqueViolation else Inr (), idx') \<and> same_idx idx idx'"
proof -
  obtain s where s: "extractor idx v = Some s" using assms(2) by blast
  then show ?thesis
    using assms(3) checkTaken_spec [OF assms(1,3)] by (cases s) (simp_all add: insertCheck_def taken_def index_of_def)
qed

lemma Idx_Index_moved:
  assumes inv: "race_inv m sch gs db" and u: "all_unique sch" and i: "i < length gs" and n: "indexes db n = Some idx"
    and ds: "dones (gpc (gs ! i)) = ds" "n \<notin> set ds"
  shows "\<exists>idx'. if busy m sch gs n (gval (gs ! i))
    then Idx_Index (gkey (gs ! i)) (gval (gs ! i)) idx = Some (Inl ErrDuplicateKey, idx') \<and> moved ds (gs ! i) n idx idx'
    else Idx_Index (gkey (gs ! i)) (gval (gs ! i)) idx = Some (Inr (), idx') \<and> moved (ds @ [n]) (gs ! i) n idx idx'"
proof -
  let ?g = "gs ! i"
  note D = race_invD [OF inv]
  have same: "moved ds ?g n idx idx" using moved_same [OF inv i n] ds(1) by simp
  then have ii: "idx_inv idx" by (simp add: moved_def)
  have absent: "bytes_of (gkey ?g) \<notin> set (idx_keys idx b)" for b using race_key(2) [OF inv i n] ds by simp
  have un: "unique idx" using u D(5) n schema_at [of db n idx] by (auto simp: all_unique_def)
  have tot: "extractor idx (gval ?g) \<noteq> None" using D(6) [rule_format, OF n] by blast
  have len: "length (bytes_of (gkey ?g)) < 2 ^ 32" using D(1) nth_mem [OF i] by (simp add: fresh_insertions_def)
  show ?thesis
  proof (cases "index_of (extractor idx) (gval ?g)")
    case None
    then have "extractor idx (gval ?g) = Some NilSlice" using index_of_None [of "extractor idx" "gval ?g"] tot by simp
    then have "Idx_Index (gkey ?g) (gval ?g) idx = Some (Inr (), idx)" using index.skip_law [of idx "gval ?g" "gkey ?g"] by blast
    moreover have "moved (ds @ [n]) ?g n idx idx" using ii absent None by (simp add: moved_def)
    moreover have "\<not> busy m sch gs n (gval ?g)" using busy_at [OF inv n] None by simp
    ultimately show ?thesis by metis
  next
    case (Some b)
    show ?thesis
    proof (cases "idx_keys idx b = []")
      case True
      then have "bytes_of (gkey ?g) \<notin> set (idx_keys idx b)" "idx_grow_ok idx b" by (simp_all add: idx_grow_ok_def)
      from index.add_law [OF ii Some this len] obtain idx' where a: "Idx_Index (gkey ?g) (gval ?g) idx = Some (Inr (), idx')" "idx_inv idx'"
        "idx_keys idx' = (idx_keys idx)(b := idx_keys idx b @ [bytes_of (gkey ?g)])" "extractor idx' = extractor idx" "unique idx' = unique idx" by blast
      have "moved (ds @ [n]) ?g n idx idx'" using a(2-5) absent ds(2) Some True by (auto simp: moved_def)
      moreover have "\<not> busy m sch gs n (gval ?g)" using busy_at [OF inv n] Some True by simp
      ultimately show ?thesis using a(1) by metis
    next
      case False
      from index.dup_law [OF ii un Some this, of "gkey ?g"] obtain idx' where a: "Idx_Index (gkey ?g) (gval ?g) idx = Some (Inl ErrDuplicateKey, idx')"
        "idx_inv idx'" "idx_keys idx' = idx_keys idx" "extractor idx' = extractor idx" "unique idx' = unique idx" by blast
      have "moved ds ?g n idx idx'" using a(2-5) same by (simp add: moved_def)
      moreover have "busy m sch gs n (gval ?g)" using busy_at [OF inv n] Some False by simp
      ultimately show ?thesis using a(1) by metis
    qed
  qed
qed

text \<open>A goroutine that has not answered can go on, without a panic, as the abstract machine does, and the invariant stays.\<close>

lemma race_progress:
  assumes inv: "race_inv m sch gs db" and u: "all_unique sch" and i: "i < length gs" and pc: "\<And>r ds. gpc (gs ! i) \<noteq> Answered r ds"
  shows "\<exists>db'. istep (gs ! i) db = Some ((gs ! i)\<lparr>gpc := next_pc m sch gs (gs ! i)\<rparr>, db') \<and>
    race_inv m sch (gs[i := (gs ! i)\<lparr>gpc := next_pc m sch gs (gs ! i)\<rparr>]) db'"
proof -
  let ?g = "gs ! i" and ?k = "bytes_of (gkey (gs ! i))"
  note D = race_invD [OF inv]
  have ok: "pc_ok (dom sch) (gpc ?g)" using D(2) nth_mem [OF i] by blast
  have g: "gkey ?g \<noteq> NilSlice" "distinct (gorder ?g)" "set (gorder ?g) = dom sch" using D(1) nth_mem [OF i] by (simp_all add: fresh_insertions_def)
  have dom: "dom (indexes db) = dom sch" using D(5) dom_schema [of db] by simp
  show ?thesis
  proof (cases "gpc ?g")
    case (Checking ns)
    show ?thesis
    proof (cases ns)
      case Nil
      have "shard_map (ptree db) ?k = None" using race_key(1) [OF inv i] Checking by (cases "shard_map (ptree db) ?k") auto
      from sharded.insert_fresh [OF D(3) g(1) this, of "gval ?g"] obtain tree where t: "Sharded_Insert (ptree db) (gkey ?g) (gval ?g) = Some tree"
        "shard_inv tree" "shard_map tree = (shard_map (ptree db))(?k \<mapsto> gval ?g)" by blast
      have "race_inv m sch (gs[i := ?g\<lparr>gpc := Indexing [] (gorder ?g)\<rparr>]) (db\<lparr>ptree := tree\<rparr>)"
        by (rule race_tree [OF inv i]) (use g t Checking in \<open>simp_all add: pc_ok_def\<close>)
      then show ?thesis using Checking Nil t(1) by (simp add: istep_def next_pc_def)
    next
      case (Cons n ns')
      show ?thesis
      proof (cases "indexes db n")
        case None
        then have "sch n = None" using dom by blast
        then have "\<not> busy m sch gs n (gval ?g)" by (simp add: busy_def)
        moreover have "race_inv m sch (gs[i := ?g\<lparr>gpc := Checking ns'\<rparr>]) db"
          by (rule race_quiet [OF inv i]) (use Checking in \<open>simp_all add: pc_ok_def\<close>)
        ultimately show ?thesis using Checking Cons None by (simp add: istep_def next_pc_def)
      next
        case (Some idx)
        have x: "idx_inv idx" "extractor idx (gval ?g) \<noteq> None" using D(6) [rule_format, OF Some] by blast+
        have un: "unique idx" using u D(5) Some schema_at [of db n idx] by (auto simp: all_unique_def)
        have "taken (gval ?g) idx \<longleftrightarrow> busy m sch gs n (gval ?g)" using busy_at [OF inv Some] un by (simp add: taken_def)
        then obtain idx' where r: "insertCheck (gval ?g) idx = Some (if busy m sch gs n (gval ?g) then Inl ErrUniqueViolation else Inr (), idx')"
          "same_idx idx idx'" using insertCheck_taken [OF x un] by auto
        let ?pc = "if busy m sch gs n (gval ?g) then Answered (Inl ErrUniqueViolation) [] else Checking ns'"
        have mv: "moved [] ?g n idx idx'" using moved_same_idx [OF moved_same [OF inv i Some] r(2)] Checking by simp
        have "race_inv m sch (gs[i := ?g\<lparr>gpc := ?pc\<rparr>]) (db\<lparr>indexes := (indexes db)(n \<mapsto> idx')\<rparr>)"
          by (rule race_index [OF inv i Some]) (use mv Checking in \<open>simp_all add: pc_ok_def\<close>)
        then show ?thesis using Checking Cons Some r(1) by (simp add: istep_def next_pc_def)
      qed
    qed
  next
    case (Indexing ds ns)
    show ?thesis
    proof (cases ns)
      case Nil
      have "race_inv m sch (gs[i := ?g\<lparr>gpc := Answered (Inr ()) ds\<rparr>]) db"
        by (rule race_quiet [OF inv i]) (use Indexing Nil ok in \<open>simp_all add: pc_ok_def\<close>)
      then show ?thesis using Indexing Nil by (simp add: istep_def next_pc_def)
    next
      case (Cons n ns')
      have "n \<in> dom sch" "n \<notin> set ds" using ok Indexing Cons by (auto simp: pc_ok_def)
      then obtain idx where Some: "indexes db n = Some idx" using dom by blast
      have ds: "dones (gpc ?g) = ds" using Indexing by simp
      show ?thesis
      proof (cases "busy m sch gs n (gval ?g)")
        case True
        with Idx_Index_moved [OF inv u i Some ds \<open>n \<notin> set ds\<close>] obtain idx' where
          r: "Idx_Index (gkey ?g) (gval ?g) idx = Some (Inl ErrDuplicateKey, idx')" and mv: "moved ds ?g n idx idx'" by auto
        have "race_inv m sch (gs[i := ?g\<lparr>gpc := Undoing ErrDuplicateKey ds\<rparr>]) (db\<lparr>indexes := (indexes db)(n \<mapsto> idx')\<rparr>)"
          by (rule race_index [OF inv i Some]) (use mv Indexing in \<open>simp_all add: pc_ok_def\<close>)
        then show ?thesis using Indexing Cons Some r True by (simp add: istep_def next_pc_def)
      next
        case False
        with Idx_Index_moved [OF inv u i Some ds \<open>n \<notin> set ds\<close>] obtain idx' where
          r: "Idx_Index (gkey ?g) (gval ?g) idx = Some (Inr (), idx')" and mv: "moved (ds @ [n]) ?g n idx idx'" by auto
        have "race_inv m sch (gs[i := ?g\<lparr>gpc := Indexing (ds @ [n]) ns'\<rparr>]) (db\<lparr>indexes := (indexes db)(n \<mapsto> idx')\<rparr>)"
          by (rule race_index [OF inv i Some]) (use mv Indexing Cons ok in \<open>simp_all add: pc_ok_def\<close>)
        then show ?thesis using Indexing Cons Some r False by (simp add: istep_def next_pc_def)
      qed
    qed
  next
    case (Undoing err ds)
    obtain b tree where t: "Sharded_Delete (ptree db) (gkey ?g) = Some (b, tree)" "shard_inv tree" "shard_map tree = (shard_map (ptree db))(?k := None)"
      using sharded.delete_law [OF D(3), of "gkey ?g"] by blast
    have "race_inv m sch (gs[i := ?g\<lparr>gpc := Answered (Inl err) ds\<rparr>]) (db\<lparr>ptree := tree\<rparr>)"
      by (rule race_tree [OF inv i]) (use t Undoing in \<open>simp_all add: pc_ok_def\<close>)
    then show ?thesis using Undoing t(1) by (simp add: istep_def next_pc_def)
  qed (use pc in blast)
qed

section \<open>Runs\<close>

definition start :: "(string list \<times> Keytype \<times> Valuetype) list \<Rightarrow> insertion list" where
  "start xs = map (\<lambda>(order, key, val). new_insertion order key val) xs"

definition call_of :: "insertion \<Rightarrow> string list \<times> Keytype \<times> Valuetype" where
  "call_of g = (gorder g, gkey g, gval g)"

definition new_records :: "IndexedBTree \<Rightarrow> (string list \<times> Keytype \<times> Valuetype) list \<Rightarrow> bool" where
  "new_records db xs \<longleftrightarrow> distinct (map (\<lambda>(order, key, val). bytes_of key) xs) \<and>
     (\<forall>(order, key, val) \<in> set xs. valid_order order db \<and> key \<noteq> NilSlice \<and> length (bytes_of key) < 2 ^ 32 \<and>
        shard_map (ptree db) (bytes_of key) = None)"

lemma start_calls: "map call_of (start xs) = xs"
  by (induction xs) (auto simp: start_def call_of_def new_insertion_def)

lemma start_checking: "g \<in> set (start xs) \<Longrightarrow> gpc g = Checking (gorder g)"
  by (auto simp: start_def new_insertion_def)

lemma race_start:
  assumes inv: "indexed_inv db" and new: "new_records db xs"
  shows "race_inv (shard_map (ptree db)) (schema (indexes db)) (start xs) db"
proof -
  have pc: "dones (gpc g) = []" "\<not> in_tree (gpc g)" "pc_ok ns (gpc g)" if "g \<in> set (start xs)" for g ns
    using start_checking [OF that] by (simp_all add: pc_ok_def)
  have "map (\<lambda>g. bytes_of (gkey g)) (start xs) = map (\<lambda>(order, key, val). bytes_of key) xs"
    by (simp add: start_def new_insertion_def case_prod_unfold)
  moreover have "gkey g \<noteq> NilSlice \<and> length (bytes_of (gkey g)) < 2 ^ 32 \<and> shard_map (ptree db) (bytes_of (gkey g)) = None \<and>
      distinct (gorder g) \<and> set (gorder g) = dom (schema (indexes db))" if "g \<in> set (start xs)" for g
    using that new dom_schema [of db] by (fastforce simp: start_def new_insertion_def new_records_def valid_order_def)
  ultimately have "fresh_insertions (shard_map (ptree db)) (dom (schema (indexes db))) (start xs)"
    using new by (simp add: fresh_insertions_def new_records_def)
  moreover have "\<not> stored (start xs) p v" "\<not> listed (start xs) n e b p" for p v n e b using pc by (auto simp: stored_def listed_def)
  moreover have "\<forall>n idx. indexes db n = Some idx \<longrightarrow> idx_inv idx \<and> (\<forall>v. extractor idx v \<noteq> None)"
    using indexed_good [OF inv] by (simp add: idx_good_def)
  ultimately show ?thesis using inv indexed_keys [OF inv] pc(3) by (simp add: race_inv_def indexed_inv_def)
qed

lemma istep_call: "istep g db = Some (g', db') \<Longrightarrow> call_of g' = call_of g"
  by (auto simp: istep_def call_of_def split: ipc.splits list.splits option.splits bind_splits)

lemma istep_answered: "istep g db = Some (g', db') \<Longrightarrow> gpc g \<noteq> Answered r ds"
  by (auto simp: istep_def)

lemma race_calls: "race (gs, db) (gs', db') \<Longrightarrow> map call_of gs' = map call_of gs"
  by (erule raceE) (auto simp: map_update list_update_same_conv dest: istep_call)

lemma race_keeps:
  assumes "race (gs, db) (gs', db')" "race_inv m sch gs db" "all_unique sch"
  shows "race_inv m sch gs' db'"
proof -
  obtain i g' where i: "i < length gs" "istep (gs ! i) db = Some (g', db')" "gs' = gs[i := g']" using assms(1) by (auto elim: raceE)
  obtain db1 where "istep (gs ! i) db = Some ((gs ! i)\<lparr>gpc := next_pc m sch gs (gs ! i)\<rparr>, db1)"
    "race_inv m sch (gs[i := (gs ! i)\<lparr>gpc := next_pc m sch gs (gs ! i)\<rparr>]) db1"
    using race_progress [OF assms(2,3) i(1) istep_answered [OF i(2)]] by blast
  then show ?thesis using i(2,3) by simp
qed

lemma race_run:
  assumes "race\<^sup>*\<^sup>* (gs, db) (gs', db')" "race_inv m sch gs db" "all_unique sch"
  shows "race_inv m sch gs' db' \<and> map call_of gs' = map call_of gs"
  using assms(1)
proof (induction rule: rtranclp_induct2)
  case refl
  show ?case using assms(2) by simp
next
  case (step gs1 db1 gs2 db2)
  then show ?case using race_keeps [OF step.hyps(2) _ assms(3)] race_calls [OF step.hyps(2)] by simp
qed

text \<open>Every run ends: the steps a goroutine has left.\<close>

primrec left :: "nat \<Rightarrow> ipc \<Rightarrow> nat" where
  "left n (Checking ns) = length ns + n + 3"
| "left n (Indexing ds ns) = length ns + 2"
| "left n (Undoing err ds) = 1"
| "left n (Answered r ds) = 0"

definition steps_left :: "insertion list \<Rightarrow> nat" where
  "steps_left gs = (\<Sum>g\<leftarrow>gs. left (length (gorder g)) (gpc g))"

lemma istep_left: "istep g db = Some (g', db') \<Longrightarrow> left (length (gorder g')) (gpc g') < left (length (gorder g)) (gpc g)"
  by (auto simp: istep_def split: ipc.splits list.splits option.splits bind_splits sum.splits)

lemma race_left:
  assumes "race (gs, db) (gs', db')"
  shows "steps_left gs' < steps_left gs"
proof -
  obtain i g' where i: "i < length gs" "istep (gs ! i) db = Some (g', db')" "gs' = gs[i := g']" using assms by (auto elim: raceE)
  let ?f = "\<lambda>g. left (length (gorder g)) (gpc g)"
  have "?f (gs ! i) \<le> sum_list (map ?f gs)" using elem_le_sum_list [of i "map ?f gs"] i(1) by simp
  moreover have "sum_list (map ?f gs') = sum_list (map ?f gs) + ?f g' - ?f (gs ! i)"
    using i(1) by (simp add: i(3) map_update sum_list_update)
  ultimately show ?thesis using istep_left [OF i(2)] by (simp add: steps_left_def)
qed

lemma race_length: "(race ^^ n) (gs, db) (gs', db') \<Longrightarrow> n + steps_left gs' \<le> steps_left gs"
proof (induction n arbitrary: gs' db')
  case (Suc n)
  from Suc.prems obtain st where st: "(race ^^ n) (gs, db) st" "race st (gs', db')" by (auto simp: relcompp_apply)
  obtain gs1 db1 where [simp]: "st = (gs1, db1)" by (cases st)
  show ?case using Suc.IH [of gs1 db1] st race_left [of gs1 db1 gs' db'] by simp
qed simp

lemma start_left: "steps_left (start xs) = (\<Sum>(order, key, val)\<leftarrow>xs. 2 * length order + 3)"
  by (induction xs) (auto simp: start_def steps_left_def new_insertion_def)

definition answered :: "insertion \<Rightarrow> bool" where
  "answered g = (case gpc g of Answered r ds \<Rightarrow> True | _ \<Rightarrow> False)"

lemma answered_iff: "answered g \<longleftrightarrow> (\<exists>r ds. gpc g = Answered r ds)"
  by (auto simp: answered_def split: ipc.splits)

definition accepted :: "insertion \<Rightarrow> bool" where
  "accepted g = (case gpc g of Answered (Inr _) ds \<Rightarrow> True | _ \<Rightarrow> False)"

lemma accepted_in_tree: "answered g \<Longrightarrow> in_tree (gpc g) = accepted g"
  by (auto simp: answered_iff accepted_def split: sum.splits)

text \<open>At the end of a run.\<close>

lemma race_records:
  assumes inv: "race_inv m sch gs db" and don: "\<forall>g \<in> set gs. answered g"
  shows "shard_map (ptree db) p = Some v \<longleftrightarrow> m p = Some v \<or> (\<exists>g \<in> set gs. accepted g \<and> bytes_of (gkey g) = p \<and> gval g = v)"
  using race_invD(4) [OF inv] don accepted_in_tree unfolding stored_def by blast

lemma race_found:
  assumes inv: "race_inv m sch gs db" and don: "\<forall>g \<in> set gs. answered g" and n: "indexes db n = Some idx"
    and p: "stored_key (extractor idx) (shard_map (ptree db)) p = Some b"
  shows "p \<in> set (idx_keys idx b)"
proof -
  note D = race_invD [OF inv]
  obtain v where v: "shard_map (ptree db) p = Some v" "index_of (extractor idx) v = Some b" using p by (auto simp: stored_key_def bind_eq_Some_conv)
  have "n \<in> dom sch" using n dom_schema [of db] D(5) by auto
  then have "n \<in> set (dones (gpc g))" if "g \<in> set gs" "accepted g" for g
    using D(2) that by (auto simp: accepted_def pc_ok_def split: ipc.splits sum.splits)
  then have "stored_key (extractor idx) m p = Some b \<or> listed gs n (extractor idx) b p"
    using v race_records [OF inv don, of p v] by (auto simp: stored_key_def listed_def)
  then show ?thesis using D(6) [rule_format, OF n] by blast
qed

lemma race_one:
  assumes inv: "race_inv m sch gs db" and u: "all_unique sch" and don: "\<forall>g \<in> set gs. answered g" and n: "indexes db n = Some idx"
    and p: "stored_key (extractor idx) (shard_map (ptree db)) p = Some b"
  shows "idx_keys idx b = [p]"
proof -
  note D = race_invD [OF inv]
  have "unique idx" using u D(5) n schema_at [of db n idx] by (auto simp: all_unique_def)
  moreover have "idx_inv idx" using D(6) n by blast
  ultimately have "length (idx_keys idx b) \<le> 1" by (rule index.uniq_law [rotated])
  then show ?thesis using race_found [OF inv don n p] by (cases "idx_keys idx b") auto
qed

lemma FindAllByIndex_keys:
  assumes "indexes db n = Some idx" "idx_inv idx"
  shows "\<exists>db'. FindAllByIndex n (Bytes b) db = Some (if idx_keys idx b = [] then Inl ErrKeyNotFound else Inr (map Bytes (idx_keys idx b)), db')"
  using index.find_law [OF assms(2), of "Bytes b"] assms(1) by (auto simp: FindAllByIndex_def)

section \<open>Schedules\<close>

primrec play :: "(bytes \<rightharpoonup> Valuetype) \<Rightarrow> (string \<Rightarrow> (KeyExtractor \<times> bool) option) \<Rightarrow> nat list \<Rightarrow> insertion list \<Rightarrow> insertion list option" where
  "play m sch [] gs = Some gs"
| "play m sch (i # is) gs =
     (if i < length gs \<and> \<not> answered (gs ! i) then play m sch is (gs[i := (gs ! i)\<lparr>gpc := next_pc m sch gs (gs ! i)\<rparr>]) else None)"

lemma play_race:
  "race_inv m sch gs db \<Longrightarrow> all_unique sch \<Longrightarrow> play m sch is gs = Some gs' \<Longrightarrow> \<exists>db'. race\<^sup>*\<^sup>* (gs, db) (gs', db') \<and> race_inv m sch gs' db'"
proof (induction "is" arbitrary: gs db)
  case (Cons i "is")
  let ?gs = "gs[i := (gs ! i)\<lparr>gpc := next_pc m sch gs (gs ! i)\<rparr>]"
  have i: "i < length gs" "\<not> answered (gs ! i)" "play m sch is ?gs = Some gs'" using Cons.prems(3) by (auto split: if_splits)
  then have "gpc (gs ! i) \<noteq> Answered r ds" for r ds by (auto simp: answered_iff)
  with race_progress [OF Cons.prems(1,2) i(1)] obtain db1 where
    1: "istep (gs ! i) db = Some ((gs ! i)\<lparr>gpc := next_pc m sch gs (gs ! i)\<rparr>, db1)" "race_inv m sch ?gs db1" by blast
  from Cons.IH [OF 1(2) Cons.prems(2) i(3)] obtain db' where "race\<^sup>*\<^sup>* (?gs, db1) (gs', db')" "race_inv m sch gs' db'" by blast
  then show ?case using race_step [OF i(1) 1(1)] by (meson converse_rtranclp_into_rtranclp)
qed auto

lemma busy_empty:
  "busy Map.empty sch gs n v \<longleftrightarrow> (case sch n of None \<Rightarrow> False
     | Some (e, u) \<Rightarrow> list_ex (\<lambda>g. n \<in> set (dones (gpc g)) \<and> index_of e v \<noteq> None \<and> index_of e (gval g) = index_of e v) gs)"
proof (cases "sch n")
  case (Some eu)
  obtain e u where [simp]: "eu = (e, u)" by (cases eu)
  show ?thesis using Some by (cases "index_of e v") (auto simp: busy_def listed_def stored_key_def list_ex_iff)
qed (simp add: busy_def)

section \<open>Two unique indexes\<close>

definition ex_pair :: IndexedBTree where
  "ex_pair = snd (CreateIndex ''two'' (PrefixExtractor 2) True ex_unique)"

lemma ex_pair:
  "indexed_inv ex_pair" "shard_map (ptree ex_pair) = Map.empty"
  "schema (indexes ex_pair) = [''one'' \<mapsto> (PrefixExtractor 1, True), ''two'' \<mapsto> (PrefixExtractor 2, True)]"
proof -
  have tot: "\<forall>v. PrefixExtractor 2 v \<noteq> None" by (rule PrefixExtractor_total) simp
  have "schema (indexes ex_unique) ''two'' = None" by (simp add: ex_unique(3))
  then have "indexes ex_unique ''two'' = None" by (simp add: schema_def)
  from CreateIndex_law [OF ex_unique(1,2) this tot] obtain db where d: "CreateIndex ''two'' (PrefixExtractor 2) True ex_unique = (Inr (), db)"
    "indexed_inv db" "ptree db = ptree ex_unique" "schema (indexes db) = (schema (indexes ex_unique))(''two'' \<mapsto> (PrefixExtractor 2, True))" by blast
  then show "indexed_inv ex_pair" "shard_map (ptree ex_pair) = Map.empty"
    "schema (indexes ex_pair) = [''one'' \<mapsto> (PrefixExtractor 1, True), ''two'' \<mapsto> (PrefixExtractor 2, True)]"
    using ex_unique by (simp_all add: ex_pair_def)
qed

lemma ex_pair_unique: "all_unique (schema (indexes ex_pair))"
  by (auto simp: ex_pair(3) all_unique_def split: if_splits)

lemma index_of_two [simp]: "index_of (PrefixExtractor 2) (Bytes (x # y # xs)) = Some [x, y]"
  by (simp add: index_of_Some PrefixExtractor_def slice_of_def)

definition ex_calls :: "(string list \<times> Keytype \<times> Valuetype) list" where
  "ex_calls = [([''one'', ''two''], Bytes [1], Bytes [7, 8]), ([''two'', ''one''], Bytes [2], Bytes [7, 8])]"

lemma ex_calls: "new_records ex_pair ex_calls"
proof -
  have "dom (indexes ex_pair) = {''one'', ''two''}" unfolding dom_schema ex_pair(3) by auto
  then show ?thesis by (auto simp: new_records_def ex_calls_def valid_order_def ex_pair(2))
qed

lemma ex_race:
  "play Map.empty (schema (indexes ex_pair)) is (start ex_calls) = Some gs \<Longrightarrow>
   \<exists>db'. race\<^sup>*\<^sup>* (start ex_calls, ex_pair) (gs, db') \<and> race_inv Map.empty (schema (indexes ex_pair)) gs db'"
  using play_race [OF race_start [OF ex_pair(1) ex_calls] ex_pair_unique, of "is" gs] by (simp add: ex_pair(2))

text \<open>Both check, both store, each updates another index first: both then find the other one in their second index.\<close>

definition ex_schedule :: "nat list" where
  "ex_schedule = [0, 0, 0, 1, 1, 1, 0, 1, 0, 1, 0, 1]"

definition ex_end :: "insertion list" where
  "ex_end = [(new_insertion [''one'', ''two''] (Bytes [1]) (Bytes [7, 8]))\<lparr>gpc := Answered (Inl ErrDuplicateKey) [''one'']\<rparr>,
     (new_insertion [''two'', ''one''] (Bytes [2]) (Bytes [7, 8]))\<lparr>gpc := Answered (Inl ErrDuplicateKey) [''two'']\<rparr>]"

lemma ex_play: "play Map.empty (schema (indexes ex_pair)) ex_schedule (start ex_calls) = Some ex_end"
  by (simp add: ex_pair(3) ex_schedule_def ex_calls_def ex_end_def start_def new_insertion_def answered_def next_pc_def busy_empty)

lemma ex_stuck:
  assumes inv: "race_inv Map.empty (schema (indexes ex_pair)) ex_end db"
  shows "shard_map (ptree db) = Map.empty"
    and "\<exists>idx. indexes db ''one'' = Some idx \<and> idx_inv idx \<and> extractor idx = PrefixExtractor 1 \<and> unique idx \<and> idx_keys idx [7] = [[1]]"
proof -
  note D = race_invD [OF inv]
  have "shard_map (ptree db) p = None" for p using D(4) [rule_format, of p] by (cases "shard_map (ptree db) p") (auto simp: stored_def ex_end_def)
  then show "shard_map (ptree db) = Map.empty" by blast
  have "schema (indexes db) ''one'' = Some (PrefixExtractor 1, True)" unfolding D(5) ex_pair(3) by simp
  then obtain idx where x: "indexes db ''one'' = Some idx" "extractor idx = PrefixExtractor 1" "unique idx" by (auto simp: schema_def)
  have i: "idx_inv idx" "p \<in> set (idx_keys idx [7]) \<longleftrightarrow> p = [1]" for p
    using D(6) [rule_format, OF x(1)] x(2) by (auto simp: listed_def stored_key_def ex_end_def new_insertion_def)
  then have "idx_keys idx [7] = [[1]]" using index.uniq_law [OF i(1) x(3), of "[7]"] by (cases "idx_keys idx [7]") (auto)
  then show "\<exists>idx. indexes db ''one'' = Some idx \<and> idx_inv idx \<and> extractor idx = PrefixExtractor 1 \<and> unique idx \<and> idx_keys idx [7] = [[1]]"
    using x i(1) by blast
qed

section \<open>Properties\<close>

text \<open>
  C8.  However goroutines interleave that insert new records into a tree with unique indexes, once all have
  their answers the tree holds the old records and exactly those whose \<open>Insert\<close> answered without an error, and each index
  finds exactly one key, the right one, under the index key of every record: no two records share one.
\<close>

theorem Indexed_race_unique:
  assumes "indexed_inv db" "all_unique (schema (indexes db))" "new_records db xs" "race\<^sup>*\<^sup>* (start xs, db) (gs, db')" "\<forall>g \<in> set gs. answered g"
  shows "map call_of gs = xs \<and>
    (\<forall>p v. shard_map (ptree db') p = Some v \<longleftrightarrow>
       shard_map (ptree db) p = Some v \<or> (\<exists>g \<in> set gs. accepted g \<and> bytes_of (gkey g) = p \<and> gval g = v)) \<and>
    (\<forall>n idx p b. indexes db' n = Some idx \<and> stored_key (extractor idx) (shard_map (ptree db')) p = Some b \<longrightarrow>
       (\<exists>db''. FindAllByIndex n (Bytes b) db' = Some (Inr [Bytes p], db'')))"
proof (intro conjI allI impI)
  have r: "race_inv (shard_map (ptree db)) (schema (indexes db)) gs db'" "map call_of gs = xs"
    using race_run [OF assms(4) race_start [OF assms(1,3)] assms(2)] by (simp_all add: start_calls)
  show "map call_of gs = xs" by (rule r(2))
  show "shard_map (ptree db') p = Some v \<longleftrightarrow> shard_map (ptree db) p = Some v \<or> (\<exists>g \<in> set gs. accepted g \<and> bytes_of (gkey g) = p \<and> gval g = v)" for p v
    by (rule race_records [OF r(1) assms(5)])
  show "\<exists>db''. FindAllByIndex n (Bytes b) db' = Some (Inr [Bytes p], db'')"
    if n: "indexes db' n = Some idx \<and> stored_key (extractor idx) (shard_map (ptree db')) p = Some b" for n idx p b
  proof -
    have "idx_inv idx" using race_invD(6) [OF r(1)] n by blast
    then show ?thesis using race_one [OF r(1) assms(2,5) conjunct1 [OF n] conjunct2 [OF n]] FindAllByIndex_keys [of db' n idx b] n by simp
  qed
qed

text \<open>One goroutine is done before the other one starts to check.\<close>

lemma ex_play_one:
  "\<exists>gs. play Map.empty (schema (indexes ex_pair)) [0, 0, 0, 0, 0, 0, 1] (start ex_calls) = Some gs \<and> list_all answered gs \<and> map accepted gs = [True, False]"
  by (simp add: ex_pair(3) ex_calls_def start_def new_insertion_def answered_def accepted_def next_pc_def busy_empty)

theorem Indexed_race_unique_witness:
  "\<exists>gs db'. race\<^sup>*\<^sup>* (start ex_calls, ex_pair) (gs, db') \<and> map accepted gs = [True, False] \<and> shard_map (ptree db') [1] = Some (Bytes [7, 8]) \<and>
     shard_map (ptree db') [2] = None"
proof -
  obtain gs where p: "play Map.empty (schema (indexes ex_pair)) [0, 0, 0, 0, 0, 0, 1] (start ex_calls) = Some gs" "list_all answered gs"
    "map accepted gs = [True, False]" using ex_play_one by (elim exE conjE) (erule (2) that)
  obtain db' where r: "race\<^sup>*\<^sup>* (start ex_calls, ex_pair) (gs, db')"
    using ex_race [OF p(1)] by blast
  note u = Indexed_race_unique [OF ex_pair(1) ex_pair_unique ex_calls r]
  have c: "map call_of gs = ex_calls" and t: "shard_map (ptree db') q = Some v \<longleftrightarrow> (\<exists>g \<in> set gs. accepted g \<and> bytes_of (gkey g) = q \<and> gval g = v)" for q v
    using u p(2) by (simp_all add: list_all_iff ex_pair(2))
  obtain g1 g2 where [simp]: "gs = [g1, g2]" using p(3) by (auto simp: map_eq_Cons_conv)
  have "shard_map (ptree db') [1] = Some (Bytes [7, 8])" using t [of "[1]"] c p(3) by (simp add: ex_calls_def call_of_def)
  moreover have "shard_map (ptree db') [2] = None" using t [of "[2]"] c p(3) by (cases "shard_map (ptree db') [2]") (auto simp: ex_calls_def call_of_def)
  ultimately show ?thesis using r p(3) by (intro exI [of _ gs] exI [of _ db'] conjI)
qed

text \<open>
  C12.  Concurrent inserts of new records, with different keys, into a consistent tree with unique
  indexes all come to an answer: in every state of every interleaving an insert that has no answer yet can take
  its next step without a panic, and no run is longer than three steps and two for each index per
  insert.  (Waiting for the locks inside a step is not part of the model.)
\<close>

theorem Indexed_race_ends:
  assumes "indexed_inv db" "all_unique (schema (indexes db))" "new_records db xs" "(race ^^ n) (start xs, db) (gs, db')"
  shows "n \<le> (\<Sum>(order, key, val)\<leftarrow>xs. 2 * length order + 3) \<and> (\<forall>g \<in> set gs. answered g \<or> istep g db' \<noteq> None)"
proof
  show "n \<le> (\<Sum>(order, key, val)\<leftarrow>xs. 2 * length order + 3)" using race_length [OF assms(4)] start_left [of xs] by linarith
  have "race\<^sup>*\<^sup>* (start xs, db) (gs, db')" using assms(4) by (rule relpowp_imp_rtranclp)
  then have r: "race_inv (shard_map (ptree db)) (schema (indexes db)) gs db'" using race_run race_start [OF assms(1,3)] assms(2) by blast
  have "answered (gs ! i) \<or> istep (gs ! i) db' \<noteq> None" if i: "i < length gs" for i
    using race_progress [OF r assms(2) i] unfolding answered_iff by (metis option.distinct(1))
  then show "\<forall>g \<in> set gs. answered g \<or> istep g db' \<noteq> None" by (metis in_set_conv_nth)
qed

theorem Indexed_race_ends_witness: "istep (start ex_calls ! 0) ex_pair \<noteq> None \<and> istep (start ex_calls ! 1) ex_pair \<noteq> None"
proof -
  have "\<not> answered (start ex_calls ! 0)" "\<not> answered (start ex_calls ! 1)" by (simp_all add: ex_calls_def start_def new_insertion_def answered_def)
  moreover have "start ex_calls ! 0 \<in> set (start ex_calls)" "start ex_calls ! 1 \<in> set (start ex_calls)" by (simp_all add: ex_calls_def start_def)
  ultimately show ?thesis using Indexed_race_ends [OF ex_pair(1) ex_pair_unique ex_calls, of 0 "start ex_calls" ex_pair] by auto
qed

text \<open>
  C34.  Two concurrent inserts of records with the same index keys can both fail, and the tree is then
  damaged: each found the other one in its second index, and the rollback deletes the record but not the entry in the first
  index.  No record is left, a query by index still answers with a key, and every later
  insert of such a value fails.
\<close>

theorem Indexed_race_stale:
  "\<exists>gs db'. race\<^sup>*\<^sup>* (start ex_calls, ex_pair) (gs, db') \<and> list_all (\<lambda>g. answered g \<and> \<not> accepted g) gs \<and> shard_map (ptree db') = Map.empty \<and>
     (\<exists>db''. FindAllByIndex ''one'' (Bytes [7]) db' = Some (Inr [Bytes [1]], db'')) \<and>
     (\<exists>db''. Indexed_Insert [''one'', ''two''] (Bytes [3]) (Bytes [7, 8]) db' = Some (Inl ErrUniqueViolation, db''))"
proof -
  obtain db' where r: "race\<^sup>*\<^sup>* (start ex_calls, ex_pair) (ex_end, db')" "race_inv Map.empty (schema (indexes ex_pair)) ex_end db'"
    using ex_race [OF ex_play] by blast
  obtain idx where x: "indexes db' ''one'' = Some idx" "idx_inv idx" "extractor idx = PrefixExtractor 1" "unique idx" "idx_keys idx [7] = [[1]]"
    using ex_stuck(2) [OF r(2)] by blast
  have "extractor idx (Bytes [7, 8]) \<noteq> None" "taken (Bytes [7, 8]) idx" using PrefixExtractor_total [of 1] x by (simp_all add: taken_def)
  then obtain idx' where c: "insertCheck (Bytes [7, 8]) idx = Some (Inl ErrUniqueViolation, idx')" using insertCheck_taken [OF x(2) _ x(4)] by metis
  have "\<exists>db''. FindAllByIndex ''one'' (Bytes [7]) db' = Some (Inr [Bytes [1]], db'')" using FindAllByIndex_keys [OF x(1,2), of "[7]"] x(5) by simp
  moreover have "\<exists>db''. Indexed_Insert [''one'', ''two''] (Bytes [3]) (Bytes [7, 8]) db' = Some (Inl ErrUniqueViolation, db'')"
    using x(1) c by (simp add: Indexed_Insert_def)
  moreover have "list_all (\<lambda>g. answered g \<and> \<not> accepted g) ex_end" by (simp add: ex_end_def answered_def accepted_def)
  ultimately show ?thesis using r(1) ex_stuck(1) [OF r(2)] by - (rule exI [of _ ex_end], rule exI [of _ db'], intro conjI)
qed

end
