(* ===== verification/Key_Extractors.thy ===== *)
theory Key_Extractors
  imports Index_Store
begin

text \<open>
  The byte formats of \<^verbatim>\<open>src/bptree/secondary_index.go\<close>: the lists of primary keys and the
  composite keys, which are both sequences of length-prefixed parts, and the field that the JSON
  extractor finds.
\<close>

section \<open>Composite keys\<close>

text \<open>The parts that extractors find in a record, none of them nil or too long for its length prefix.\<close>

definition has_parts :: "KeyExtractor list \<Rightarrow> Valuetype \<Rightarrow> slice list \<Rightarrow> bool" where
  "has_parts exts v ps \<longleftrightarrow> map (\<lambda>e. e v) exts = map Some ps \<and> NilSlice \<notin> set ps \<and> (\<forall>p \<in> set ps. length (bytes_of p) < 2 ^ 32)"

lemma compositeLoop_parts:
  "has_parts exts v ps \<Longrightarrow> exts \<noteq> [] \<Longrightarrow>
   compositeLoop exts v r = Some (Bytes (bytes_of r @ concat (map encKey ps)))"
proof (induction exts arbitrary: r ps)
  case (Cons e exts)
  then obtain p ps' where p: "ps = p # ps'" "e v = Some p" "p \<noteq> NilSlice" "has_parts exts v ps'"
    by (cases ps) (auto simp: has_parts_def)
  let ?r = "Bytes (bytes_of r @ encKey p)"
  have "compositeLoop exts v ?r = Some (Bytes (bytes_of ?r @ concat (map encKey ps')))"
  proof (cases "exts = []")
    case True
    then show ?thesis using p(4) by (simp add: has_parts_def)
  qed (use Cons.IH [OF p(4)] in simp)
  then show ?case using p by (simp del: put_le.simps)
qed simp

text \<open>Length-prefixed parts can be read back if their number is known.\<close>

lemma parts_inj:
  assumes "concat (map encKey ps) = concat (map encKey qs)" "length ps = length qs"
    "\<forall>p \<in> set ps. length (bytes_of p) < 2 ^ 32" "\<forall>q \<in> set qs. length (bytes_of q) < 2 ^ 32"
  shows "map slice_copy ps = map slice_copy qs"
  using decodeLoop_enc [OF assms(3), of "[]" "[]"] decodeLoop_enc [OF assms(4), of "[]" "[]"] assms(1,2)
  by (simp del: put_le.simps)

lemma not_nil_copy: "NilSlice \<notin> set ps \<Longrightarrow> map slice_copy ps = ps"
proof (induction ps)
  case (Cons p ps)
  then show ?case by (cases p) (auto simp: slice_copy_def)
qed simp

section \<open>The JSON field\<close>

lemma scanWhile_takeWhile: "scanWhile p v i = i + length (takeWhile p (drop i v))"
proof (induction p v i rule: scanWhile.induct)
  case (1 p v i)
  show ?case
  proof (cases "i < length v \<and> p (v ! i)")
    case True
    then have "scanWhile p v i = Suc i + length (takeWhile p (drop (Suc i) v))" using 1 by (subst scanWhile.simps) simp
    moreover have "drop i v = v ! i # drop (Suc i) v" using True by (simp add: Cons_nth_drop_Suc)
    ultimately show ?thesis using True by simp
  next
    case False
    then have "scanWhile p v i = i" by (subst scanWhile.simps) auto
    moreover have "takeWhile p (drop i v) = []"
      using False by (cases "i < length v") (simp_all add: Cons_nth_drop_Suc [symmetric])
    ultimately show ?thesis by simp
  qed
qed

lemma drop_takeWhile: "drop (length (takeWhile p xs)) xs = dropWhile p xs"
  by (induction xs) auto

lemma slice_takeWhile: "drop i (take (i + length (takeWhile p (drop i v))) v) = takeWhile p (drop i v)"
  by (simp add: drop_take takeWhile_eq_take [symmetric])

lemma bytes_Index_first:
  "(case bytes_Index v pat of
      None \<Rightarrow> \<forall>i \<le> length v. \<not> prefix pat (drop i v)
    | Some i \<Rightarrow> i \<le> length v \<and> prefix pat (drop i v) \<and> (\<forall>j < i. \<not> prefix pat (drop j v)))"
proof (induction v pat rule: bytes_Index.induct)
  case (2 c cs pat)
  show ?case
  proof (cases "prefix pat (c # cs)")
    case False
    have "\<not> prefix pat (drop i (c # cs))" if "\<forall>i \<le> length cs. \<not> prefix pat (drop i cs)" "i \<le> length (c # cs)" for i
      using False that by (cases i) auto
    moreover have "(\<forall>j < Suc i. \<not> prefix pat (drop j (c # cs))) \<longleftrightarrow> (\<forall>j < i. \<not> prefix pat (drop j cs))" for i
      using False by (auto simp: less_Suc_eq_0_disj)
    ultimately show ?thesis using 2 [OF False] False by (cases "bytes_Index cs pat") simp_all
  qed simp
qed simp

text \<open>The reference: the value that the rest of a record starts with.\<close>

definition json_value :: "bytes \<Rightarrow> slice" where
  "json_value r =
     (case dropWhile (\<lambda>c. c = 32 \<or> c = 9) r of
        [] \<Rightarrow> NilSlice
      | c # cs \<Rightarrow>
          let s = (if c = 34 then takeWhile (\<lambda>c. c \<noteq> 34) cs else takeWhile (\<lambda>c. c \<noteq> 44 \<and> c \<noteq> 125 \<and> c \<noteq> 32) (c # cs))
          in if s = [] then NilSlice else Bytes s)"

lemma JSONFieldExtractor_value:
  "JSONFieldExtractor field val =
     Some (case bytes_Index (bytes_of val) (searchPattern field) of
             None \<Rightarrow> NilSlice
           | Some i \<Rightarrow> json_value (drop (i + length (searchPattern field)) (bytes_of val)))"
proof (cases "bytes_Index (bytes_of val) (searchPattern field)")
  case (Some i)
  let ?v = "bytes_of val" and ?k = "i + length (searchPattern field)" and ?blank = "\<lambda>c :: byte. c = 32 \<or> c = 9"
  define start where "start = scanWhile ?blank ?v ?k"
  have d: "drop start ?v = dropWhile ?blank (drop ?k ?v)"
    unfolding start_def scanWhile_takeWhile drop_takeWhile [symmetric] drop_drop by (simp only: add.commute)
  show ?thesis
  proof (cases "start < length ?v")
    case False
    then have e: "dropWhile ?blank (drop ?k ?v) = []" unfolding d [symmetric] by simp
    have "json_value (drop ?k ?v) = NilSlice" unfolding json_value_def e by simp
    then show ?thesis using Some False by (simp add: JSONFieldExtractor_def start_def [symmetric] Let_def)
  next
    case True
    let ?p = "\<lambda>c :: byte. c \<noteq> 44 \<and> c \<noteq> 125 \<and> c \<noteq> 32"
    let ?s = "if ?v ! start = 34 then takeWhile (\<lambda>c. c \<noteq> 34) (drop (Suc start) ?v) else takeWhile ?p (drop start ?v)"
    have c: "drop start ?v = ?v ! start # drop (Suc start) ?v" using True by (simp add: Cons_nth_drop_Suc)
    have "json_value (drop ?k ?v) = (if ?s = [] then NilSlice else Bytes ?s)"
      unfolding json_value_def d [symmetric] unfolding c by (simp add: Let_def)
    moreover have "JSONFieldExtractor field val = Some (if ?s = [] then NilSlice else Bytes ?s)"
      using Some True
      by (simp add: JSONFieldExtractor_def start_def [symmetric] Let_def scanWhile_takeWhile [of _ _ start]
          scanWhile_takeWhile [of _ _ "Suc start"] slice_takeWhile [of start] slice_takeWhile [of "Suc start", simplified])
    ultimately show ?thesis using Some by simp
  qed
qed (simp add: JSONFieldExtractor_def Let_def)

section \<open>Properties\<close>

text \<open>
  C30.  The list of primary keys that a non-unique index stores under an index key reads back as it was
  written, as copies, for any keys and any number of them below the limit of the 32-bit length fields.
\<close>

theorem primaryKeys_roundtrip:
  assumes "small_keys ks"
  shows "decodePrimaryKeys (encodePrimaryKeys ks) = map slice_copy ks"
  using decode_encode [OF assms] .

theorem primaryKeys_roundtrip_witness:
  "small_keys [Bytes [1, 2], NilSlice, Bytes [3]] \<and>
   decodePrimaryKeys (encodePrimaryKeys [Bytes [1, 2], NilSlice, Bytes [3]]) = [Bytes [1, 2], Bytes [], Bytes [3]]"
  using primaryKeys_roundtrip [of "[Bytes [1, 2], NilSlice, Bytes [3]]"] by (simp add: small_keys_def slice_copy_def)

text \<open>
  A composite key tells its parts: two records with the same composite key have the
  same key under each of the extractors.  So a unique composite index rejects only records that agree
  in all parts.
\<close>

lemma CompositeExtractor_injective:
  assumes "has_parts exts v ps" "has_parts exts w qs" "CompositeExtractor exts v = CompositeExtractor exts w"
  shows "map (\<lambda>e. e v) exts = map (\<lambda>e. e w) exts"
proof (cases "exts = []")
  case False
  have "concat (map encKey ps) = concat (map encKey qs)"
    using assms(3) compositeLoop_parts [OF assms(1) False, of NilSlice] compositeLoop_parts [OF assms(2) False, of NilSlice]
    by (simp add: CompositeExtractor_def del: put_le.simps)
  moreover have "length ps = length qs" using assms(1,2) unfolding has_parts_def by (metis length_map)
  ultimately have "map slice_copy ps = map slice_copy qs" using parts_inj assms(1,2) unfolding has_parts_def by blast
  then have "ps = qs" using not_nil_copy assms(1,2) unfolding has_parts_def by metis
  then show ?thesis using assms(1,2) by (simp add: has_parts_def)
qed simp

text \<open>
  C31.  The JSON extractor finds the field: behind the first occurrence of the quoted field
  name and a colon it skips blanks and tabs and answers the contents of a quoted string up to
  the next quote, or an unquoted value up to a comma, a closing brace or a blank; it answers nil if
  that is empty or the field name does not occur.
\<close>

theorem JSONFieldExtractor_finds:
  "(\<exists>i \<le> length (bytes_of val). prefix (searchPattern field) (drop i (bytes_of val)) \<and>
      (\<forall>j < i. \<not> prefix (searchPattern field) (drop j (bytes_of val))) \<and>
      JSONFieldExtractor field val = Some (json_value (drop (i + length (searchPattern field)) (bytes_of val)))) \<or>
   (\<forall>i \<le> length (bytes_of val). \<not> prefix (searchPattern field) (drop i (bytes_of val))) \<and>
      JSONFieldExtractor field val = Some NilSlice"
  using bytes_Index_first [of "bytes_of val" "searchPattern field"] JSONFieldExtractor_value [of field val]
  by (cases "bytes_Index (bytes_of val) (searchPattern field)") auto

definition ex_json :: Valuetype where
  "ex_json = Bytes (map of_char ([CHR 0x7B, CHR 0x22] @ ''age'' @ [CHR 0x22] @ '': 42}''))"

lemma ex_json: "JSONFieldExtractor ''age'' ex_json = Some (Bytes [52, 50])"
  by code_simp

theorem JSONFieldExtractor_finds_witness:
  "\<exists>i \<le> length (bytes_of ex_json). prefix (searchPattern ''age'') (drop i (bytes_of ex_json)) \<and>
     json_value (drop (i + length (searchPattern ''age'')) (bytes_of ex_json)) = Bytes [52, 50]"
  using JSONFieldExtractor_finds [of ex_json "''age''"] ex_json by auto

end
