(* ===== verification/Float64.thy ===== *)
theory Float64
  imports Complex_Main "HOL-Library.Log_Nat"
begin

text \<open>
  Rounding to \<^verbatim>\<open>float64\<close>: the nearest number with a 53-bit significand, ties to even, as IEEE 754
  asks of every single operation.  A \<^verbatim>\<open>float64\<close> is the rational number it stands for.  The exponent is not
  bounded: the program computes with key counts, and no intermediate result is near the
  overflow or the underflow threshold.
\<close>

section \<open>Rounding\<close>

definition nearest :: "rat \<Rightarrow> int" where
  "nearest q = (let n = \<lfloor>q\<rfloor>; r = q - of_int n in if r < 1 / 2 \<or> r = 1 / 2 \<and> even n then n else n + 1)"

text \<open>The position of the leading bit.\<close>

definition leading :: "rat \<Rightarrow> int" where
  "leading x = (let (a, b) = quotient_of \<bar>x\<bar>; e = bitlen a - bitlen b in if 2 powi e \<le> \<bar>x\<bar> then e else e - 1)"

definition fl :: "rat \<Rightarrow> rat" where
  "fl x = (if x = 0 then 0 else let ulp = 2 powi (leading x - 52) in of_int (nearest (x / ulp)) * ulp)"

section \<open>The error\<close>

lemma nearest_error: "\<bar>of_int (nearest q) - q\<bar> \<le> 1 / 2"
proof -
  have "of_int \<lfloor>q\<rfloor> \<le> q" "q < of_int \<lfloor>q\<rfloor> + 1" using floor_correct [of q] by simp_all
  then show ?thesis unfolding nearest_def Let_def abs_le_iff by (simp split: if_split) linarith
qed

lemma nearest_int [simp]: "nearest (of_int n) = n"
  by (simp add: nearest_def)

lemma bitlen_powi:
  assumes "0 < a"
  shows "2 powi (bitlen a - 1) \<le> (of_int a :: rat)" "of_int a < (2 powi bitlen a :: rat)"
proof -
  have p: "0 < bitlen a" using assms bitlen_eq_zero_iff [of a] bitlen_nonneg [of a] by linarith
  have b: "2 ^ nat (bitlen a - 1) \<le> a" "a < 2 ^ nat (bitlen a)" using bitlen_bounds [OF assms] by simp_all
  from b(1) have "(of_int (2 ^ nat (bitlen a - 1)) :: rat) \<le> of_int a" by (rule of_int_le_iff [THEN iffD2])
  then show "2 powi (bitlen a - 1) \<le> (of_int a :: rat)" using p by (simp add: power_int_def)
  from b(2) have "(of_int a :: rat) < of_int (2 ^ nat (bitlen a))" by (rule of_int_less_iff [THEN iffD2])
  then show "of_int a < (2 powi bitlen a :: rat)" using p by (simp add: power_int_def)
qed

lemma leading_bounds:
  assumes "x \<noteq> 0"
  shows "2 powi leading x \<le> \<bar>x\<bar>" "\<bar>x\<bar> < 2 powi (leading x + 1)"
proof -
  obtain a b where q: "quotient_of \<bar>x\<bar> = (a, b)" by fastforce
  then have b: "0 < b" and x: "\<bar>x\<bar> = of_int a / of_int b" using quotient_of_denom_pos quotient_of_div by blast+
  have "0 < \<bar>x\<bar>" using assms by simp
  then have a: "0 < a" using b unfolding x by (simp add: zero_less_divide_iff)
  let ?e = "bitlen a - bitlen b"
  have up: "\<bar>x\<bar> < 2 powi (?e + 1)"
  proof -
    have "\<bar>x\<bar> < 2 powi bitlen a / of_int b" unfolding x using bitlen_powi(2) [OF a] b by (simp add: divide_strict_right_mono)
    also have "\<dots> \<le> 2 powi bitlen a / 2 powi (bitlen b - 1)" using bitlen_powi(1) [OF b] by (simp add: frac_le)
    also have "\<dots> = 2 powi (?e + 1)" by (simp add: power_int_diff [symmetric] algebra_simps)
    finally show ?thesis .
  qed
  have low: "2 powi (?e - 1) \<le> \<bar>x\<bar>"
  proof -
    have "(2 powi (?e - 1) :: rat) = 2 powi (bitlen a - 1) / 2 powi bitlen b" by (simp add: power_int_diff [symmetric] algebra_simps)
    also have "\<dots> \<le> of_int a / of_int b" using bitlen_powi(1) [OF a] bitlen_powi(2) [OF b] b a by (intro frac_le) simp_all
    finally show ?thesis unfolding x .
  qed
  show "2 powi leading x \<le> \<bar>x\<bar>" "\<bar>x\<bar> < 2 powi (leading x + 1)"
    using up low unfolding leading_def q by (simp_all add: Let_def)
qed

text \<open>The unit of rounding.\<close>

definition eps :: rat where
  "eps = 1 / 2 ^ 53"

lemma eps: "0 < eps" "eps < 1 / 1000"
  by (simp_all add: eps_def)

lemma fl_error: "\<bar>fl x - x\<bar> \<le> eps * \<bar>x\<bar>"
proof (cases "x = 0")
  case False
  let ?u = "2 powi (leading x - 52) :: rat"
  have u: "0 < ?u" by simp
  have "fl x - x = (of_int (nearest (x / ?u)) - x / ?u) * ?u" using False by (simp add: fl_def Let_def left_diff_distrib)
  then have "\<bar>fl x - x\<bar> = \<bar>of_int (nearest (x / ?u)) - x / ?u\<bar> * ?u" using u by (simp add: abs_mult)
  also have "\<dots> \<le> 1 / 2 * ?u" using nearest_error u by (intro mult_right_mono) simp_all
  also have "\<dots> = eps * 2 powi leading x" by (simp add: power_int_diff eps_def)
  also have "\<dots> \<le> eps * \<bar>x\<bar>" using leading_bounds(1) [OF False] eps by (simp add: mult_left_mono)
  finally show ?thesis .
qed (simp add: fl_def)

lemma fl_zero [simp]: "fl 0 = 0"
  by (simp add: fl_def)

lemma fl_bounds:
  assumes "0 \<le> x"
  shows "(1 - eps) * x \<le> fl x" "fl x \<le> (1 + eps) * x"
proof -
  have "fl x - x \<le> eps * x" "x - fl x \<le> eps * x" using fl_error [of x] assms by linarith+
  then show "(1 - eps) * x \<le> fl x" "fl x \<le> (1 + eps) * x" by (simp_all add: algebra_simps)
qed

lemma fl_pos:
  assumes "0 < x"
  shows "0 < fl x"
proof -
  have "0 < (1 - eps) * x" using assms eps by simp
  also have "\<dots> \<le> fl x" using fl_bounds(1) assms by simp
  finally show ?thesis .
qed

lemma fl_eq_zero [simp]: "fl x = 0 \<longleftrightarrow> x = 0"
proof
  assume "fl x = 0"
  then have "(1 - eps) * \<bar>x\<bar> \<le> 0" using fl_error [of x] by (simp add: algebra_simps)
  moreover have "0 < 1 - eps" using eps by simp
  ultimately show "x = 0" by (simp add: mult_le_0_iff)
qed simp

lemma fl_nonneg: "0 \<le> x \<Longrightarrow> 0 \<le> fl x"
  using fl_pos [of x] by (cases "x = 0") simp_all

text \<open>An integer of at most 53 bits is exact.\<close>

lemma fl_int:
  assumes "\<bar>n\<bar> < 2 ^ 53"
  shows "fl (of_int n) = of_int n"
proof (cases "n = 0")
  case False
  let ?l = "leading (of_int n)"
  have "2 powi ?l \<le> (of_int \<bar>n\<bar> :: rat)" using leading_bounds(1) [of "of_int n"] False by simp
  also have "(of_int \<bar>n\<bar> :: rat) < of_int (2 ^ 53)" using assms by (rule of_int_less_iff [THEN iffD2])
  also have "\<dots> = 2 powi 53" by simp
  finally have "(2 powi ?l :: rat) < 2 powi 53" .
  then have "?l < 53" using power_int_increasing [of 53 ?l "2 :: rat"] by (meson leD leI one_le_numeral)
  then have "0 \<le> 52 - ?l" by simp
  then obtain j where "52 - ?l = int j" by (rule nonneg_int_cases)
  then have k: "?l - 52 = - int j" by simp
  have q: "(of_int n :: rat) / 2 powi (?l - 52) = of_int (n * 2 ^ j)"
    unfolding k by (simp add: power_int_minus divide_inverse)
  have "fl (of_int n) = of_int (nearest (of_int n / 2 powi (?l - 52))) * 2 powi (?l - 52)" using False by (simp add: fl_def Let_def)
  also have "\<dots> = of_int n / 2 powi (?l - 52) * 2 powi (?l - 52)" unfolding q nearest_int ..
  finally show ?thesis by simp
qed simp

end
