(* ===== verification/Shard_Skew.thy ===== *)
theory Shard_Skew
  imports Complex_Main Float64 Sharded_Store
begin

text \<open>
  The skew statistic of \<open>Stats\<close>, \<^verbatim>\<open>src/bptree/sharded_btree.go\<close>: the coefficient of variation of
  the shards' key counts, with a square root by ten Newton steps.  Every \<^verbatim>\<open>float64\<close> operation and
  conversion rounds by \<open>fl\<close>, one at a time (as on amd64: no fused operations).
\<close>

section \<open>The statistic\<close>

definition newton :: "rat \<Rightarrow> rat \<Rightarrow> rat" where
  "newton x z = fl (z - fl (fl (fl (z * z) - x) / fl (2 * z)))"

definition go_sqrt :: "rat \<Rightarrow> rat" where
  "go_sqrt x = (if x \<le> 0 then 0 else (newton x ^^ 10) (fl (x / 2)))"

definition mean_of :: "ShardStats \<Rightarrow> rat" where
  "mean_of stats = fl (fl (of_int (TotalKeys stats)) / fl (of_nat (stNumShards stats)))"

definition variance_of :: "ShardStats \<Rightarrow> rat" where
  "variance_of stats =
     fl (fold (\<lambda>count variance. let diff = fl (fl (of_int count) - mean_of stats) in fl (variance + fl (diff * diff)))
           (KeysPerShard stats) 0
         / fl (of_nat (stNumShards stats)))"

definition Skew :: "ShardStats \<Rightarrow> rat" where
  "Skew stats =
     (if TotalKeys stats > 0 \<and> stNumShards stats > 1 then
        let stddev = go_sqrt (variance_of stats)
        in if mean_of stats > 0 then fl (stddev / mean_of stats) else 0
      else 0)"

text \<open>What \<open>Stats\<close> guarantees, for less than 2 ^ 53 keys.\<close>

definition stats_ok :: "ShardStats \<Rightarrow> bool" where
  "stats_ok stats \<longleftrightarrow> length (KeysPerShard stats) = stNumShards stats \<and> (\<forall>count \<in> set (KeysPerShard stats). 0 \<le> count) \<and>
     TotalKeys stats = sum_list (KeysPerShard stats) \<and> 0 < TotalKeys stats \<and> TotalKeys stats < 2 ^ 53 \<and>
     1 < stNumShards stats \<and> stNumShards stats < 2 ^ 32"

lemma countKeys_nonneg: "0 \<le> countKeys n"
  by (induction n rule: countKeys.induct) (auto intro!: add_nonneg_nonneg sum_list_nonneg)

lemma Sharded_Stats_ok:
  assumes "shard_frame s" "Sharded_Stats s = Some stats" "1 < length (shards s)" "0 < Sharded_Count s" "Sharded_Count s < 2 ^ 53"
  shows "stats_ok stats"
proof -
  have "length (shards s) < 2 ^ 32" using assms(1) by (auto simp: shard_frame_def)
  moreover have "0 \<le> Btree_countKeys t" for t using countKeys_nonneg by (simp add: Btree_countKeys_def split: option.split)
  moreover obtain sh shs where "shards s = sh # shs" using assms(3) by (cases "shards s") auto
  ultimately show ?thesis
    using assms(2-5) by (auto simp: stats_ok_def Sharded_Stats_def Sharded_Count_def fold_countStep Let_def go_simps)
qed

section \<open>One Newton step\<close>

text \<open>Without rounding a step gives the mean of \<open>z\<close> and \<open>x / z\<close>, which is never below the root.\<close>

definition middle :: "rat \<Rightarrow> rat \<Rightarrow> rat" where
  "middle x z = (z + x / z) / 2"

lemma middle_facts:
  assumes "0 < x" "0 < z"
  shows "0 < middle x z" "z / 2 \<le> middle x z" "x \<le> middle x z * middle x z" "z * z + x = 2 * z * middle x z"
    "z - (z * z - x) / (2 * z) = middle x z"
proof -
  show "0 < middle x z" "z / 2 \<le> middle x z" using assms by (simp_all add: middle_def add_pos_pos)
  have "middle x z * middle x z - x = ((z - x / z) / 2) * ((z - x / z) / 2)"
    using assms(2) by (simp add: middle_def field_simps)
  also have "\<dots> \<ge> 0" by simp
  finally show "x \<le> middle x z * middle x z" by simp
  show "z * z + x = 2 * z * middle x z" "z - (z * z - x) / (2 * z) = middle x z"
    using assms(2) by (simp_all add: middle_def field_simps)
qed

lemma newton_numerator:
  assumes "0 < x" "0 < z"
  shows "\<bar>fl (fl (z * z) - x) - (z * z - x)\<bar> \<le> 3 * eps * (z * z + x)"
proof -
  let ?y = "fl (z * z)"
  have zz: "0 < z * z" using assms by simp
  have y: "\<bar>?y - z * z\<bar> \<le> eps * (z * z)" using fl_error [of "z * z"] zz by simp
  have "eps * (z * z) \<le> 1 * (z * z)" using eps zz by (intro mult_right_mono) simp_all
  then have "\<bar>?y - x\<bar> \<le> 2 * (z * z) + x" using y assms(1) by linarith
  then have "eps * \<bar>?y - x\<bar> \<le> eps * (2 * (z * z) + x)" using eps by (intro mult_left_mono) simp_all
  then have d: "\<bar>fl (?y - x) - (?y - x)\<bar> \<le> eps * (2 * (z * z) + x)" using fl_error [of "?y - x"] by linarith
  have "\<bar>fl (?y - x) - (z * z - x)\<bar> \<le> eps * (2 * (z * z) + x) + eps * (z * z)" using d y by linarith
  also have "\<dots> = 3 * eps * (z * z) + eps * x" by (simp add: algebra_simps)
  also have "\<dots> \<le> 3 * eps * (z * z + x)" using eps assms(1) by (simp add: algebra_simps)
  finally show ?thesis .
qed

lemma newton_quotient:
  assumes "0 < x" "0 < z"
  shows "\<bar>fl (fl (z * z) - x) / fl (2 * z) - (z * z - x) / (2 * z)\<bar> \<le> 5 * eps * middle x z"
proof -
  let ?d = "fl (fl (z * z) - x)" and ?w = "fl (2 * z)" and ?a = "z * z - x" and ?m = "z * z + x"
  have z2: "0 < 2 * z" using assms(2) by simp
  have w: "\<bar>?w - 2 * z\<bar> \<le> eps * (2 * z)" "(1 - eps) * (2 * z) \<le> ?w" "0 < ?w"
    using fl_error [of "2 * z"] fl_bounds(1) [of "2 * z"] fl_pos [OF z2] z2 by simp_all
  have a: "\<bar>?a\<bar> \<le> ?m" using assms by (simp add: abs_le_iff)
  have eq: "?d / ?w - ?a / (2 * z) = ((?d - ?a) * (2 * z) + ?a * (2 * z - ?w)) / (?w * (2 * z))"
    using z2 w(3) by (simp add: field_simps)
  have "\<bar>(?d - ?a) * (2 * z) + ?a * (2 * z - ?w)\<bar> \<le> \<bar>?d - ?a\<bar> * (2 * z) + \<bar>?a\<bar> * \<bar>2 * z - ?w\<bar>"
    using z2 by (intro order_trans [OF abs_triangle_ineq]) (simp add: abs_mult)
  also have "\<dots> \<le> 3 * eps * ?m * (2 * z) + ?m * (eps * (2 * z))"
    using newton_numerator [OF assms] a w(1) z2 assms by (intro add_mono mult_mono mult_right_mono) (simp_all add: abs_minus_commute)
  also have "\<dots> = 4 * eps * ?m * (2 * z)" by simp
  finally have num: "\<bar>(?d - ?a) * (2 * z) + ?a * (2 * z - ?w)\<bar> \<le> 4 * eps * ?m * (2 * z)" .
  have "\<bar>?d / ?w - ?a / (2 * z)\<bar> \<le> 4 * eps * ?m * (2 * z) / (?w * (2 * z))"
    unfolding eq abs_divide using divide_right_mono [OF num, of "?w * (2 * z)"] z2 w(3) by (simp only: abs_of_pos mult_pos_pos order_less_imp_le)
  also have "\<dots> = 4 * eps * ?m / ?w" using z2 by simp
  also have "\<dots> \<le> 5 * eps * middle x z"
  proof -
    have "4 * eps * ?m = 4 * eps * (2 * z) * middle x z" using middle_facts(4) [OF assms] by simp
    also have "\<dots> \<le> 5 * eps * ((1 - eps) * (2 * z)) * middle x z"
      using eps z2 middle_facts(1) [OF assms] by (intro mult_right_mono) (simp_all add: mult_le_cancel_left)
    also have "\<dots> \<le> 5 * eps * ?w * middle x z"
      using eps w(2) middle_facts(1) [OF assms] by (intro mult_right_mono mult_left_mono) simp_all
    finally show ?thesis using w(3) by (simp add: divide_le_eq mult.commute mult.left_commute)
  qed
  finally show ?thesis .
qed

lemma newton_middle:
  assumes "0 < x" "0 < z"
  shows "(1 - 8 * eps) * middle x z \<le> newton x z"
proof -
  let ?p = "fl (fl (z * z) - x) / fl (2 * z)" and ?a = "(z * z - x) / (2 * z)" and ?m = "middle x z"
  note m = middle_facts [OF assms]
  have p: "\<bar>?p - ?a\<bar> \<le> 5 * eps * ?m" by (rule newton_quotient [OF assms])
  have "0 < z * z" using assms(2) by simp
  then have "\<bar>z * z - x\<bar> \<le> ?m * (2 * z)" using m(4) assms(1) by (simp add: mult.commute abs_le_iff)
  then have "\<bar>?a\<bar> \<le> ?m" using assms(2) by (simp add: abs_divide pos_divide_le_eq)
  moreover have "5 * eps * ?m \<le> ?m" using eps m(1) by (simp add: mult_le_cancel_right1)
  ultimately have "\<bar>?p\<bar> \<le> 2 * ?m" using p by linarith
  then have "eps * \<bar>?p\<bar> \<le> eps * (2 * ?m)" using eps by (intro mult_left_mono) simp_all
  then have q: "\<bar>fl ?p - ?p\<bar> \<le> eps * (2 * ?m)" using fl_error [of ?p] by linarith
  have "fl ?p - ?a \<le> 7 * eps * ?m" using p q by (simp add: algebra_simps)
  then have r: "(1 - 7 * eps) * ?m \<le> z - fl ?p" using m(5) by (simp add: algebra_simps)
  have pos: "0 < (1 - 7 * eps) * ?m" using eps m(1) by simp
  have "(1 - 8 * eps) * ?m \<le> (1 - eps) * ((1 - 7 * eps) * ?m)" using eps m(1) by (simp add: algebra_simps)
  also have "\<dots> \<le> (1 - eps) * (z - fl ?p)" using r eps by (intro mult_left_mono) simp_all
  also have "\<dots> \<le> newton x z" unfolding newton_def using r pos by (intro fl_bounds(1)) linarith
  finally show ?thesis .
qed

section \<open>The square root\<close>

lemma newton_step:
  assumes "0 < x" "0 < z"
  shows "(1 - 8 * eps) / 2 * z \<le> newton x z" "0 < newton x z" "(1 - 16 * eps) * x \<le> newton x z * newton x z"
proof -
  note m = middle_facts [OF assms] and n = newton_middle [OF assms]
  have e: "0 < 1 - 8 * eps" using eps by simp
  have "(1 - 8 * eps) / 2 * z = (1 - 8 * eps) * (z / 2)" by simp
  also have "\<dots> \<le> (1 - 8 * eps) * middle x z" using m(2) e by (intro mult_left_mono) simp_all
  finally show "(1 - 8 * eps) / 2 * z \<le> newton x z" using n by linarith
  have p: "0 < (1 - 8 * eps) * middle x z" using e m(1) by simp
  then show "0 < newton x z" using n by linarith
  have "(1 - 16 * eps) * x \<le> (1 - 8 * eps) * (1 - 8 * eps) * x"
    using assms(1) by (intro mult_right_mono) (simp_all add: algebra_simps)
  also have "\<dots> \<le> (1 - 8 * eps) * (1 - 8 * eps) * (middle x z * middle x z)" using m(3) by (intro mult_left_mono) simp_all
  also have "\<dots> = ((1 - 8 * eps) * middle x z) * ((1 - 8 * eps) * middle x z)" by simp
  also have "\<dots> \<le> newton x z * newton x z" using n p by (intro mult_mono) simp_all
  finally show "(1 - 16 * eps) * x \<le> newton x z * newton x z" .
qed

lemma newton_steps:
  assumes "0 < x" "0 < z"
  shows "0 < (newton x ^^ n) z \<and> ((1 - 8 * eps) / 2) ^ n * z \<le> (newton x ^^ n) z"
proof (induction n)
  case (Suc n)
  let ?z = "(newton x ^^ n) z" and ?c = "(1 - 8 * eps) / 2"
  have "?c ^ Suc n * z = ?c * (?c ^ n * z)" by simp
  also have "\<dots> \<le> ?c * ?z" using Suc eps by (intro mult_left_mono) simp_all
  also have "\<dots> \<le> newton x ?z" using newton_step(1) assms Suc by blast
  finally show ?case using newton_step(2) [of x ?z] assms Suc by simp
qed (use assms in simp)

lemma go_sqrt_bounds:
  assumes "0 < x"
  shows "0 < go_sqrt x" "(1 - 16 * eps) * x \<le> go_sqrt x * go_sqrt x" "x / 2049 \<le> go_sqrt x"
proof -
  let ?s = "fl (x / 2)"
  have s: "0 < ?s" "(1 - eps) * (x / 2) \<le> ?s" using assms fl_pos [of "x / 2"] fl_bounds(1) [of "x / 2"] by simp_all
  have e: "go_sqrt x = newton x ((newton x ^^ 9) ?s)" using assms by (simp add: go_sqrt_def numeral_eq_Suc)
  have "0 < (newton x ^^ 9) ?s" using newton_steps [OF assms s(1)] by blast
  then show "0 < go_sqrt x" "(1 - 16 * eps) * x \<le> go_sqrt x * go_sqrt x" using newton_step(2,3) assms unfolding e by blast+
  have "x / 2049 \<le> ((1 - 8 * eps) / 2) ^ 10 * ((1 - eps) * (x / 2))" using assms by (simp add: eps_def power_divide)
  also have "\<dots> \<le> ((1 - 8 * eps) / 2) ^ 10 * ?s" using s(2) by (intro mult_left_mono) simp_all
  also have "\<dots> \<le> (newton x ^^ 10) ?s" using newton_steps [OF assms s(1)] by blast
  finally show "x / 2049 \<le> go_sqrt x" using assms by (simp add: go_sqrt_def)
qed

section \<open>Mean and variance\<close>

lemma mean_pos: "0 < TotalKeys stats \<Longrightarrow> 0 < stNumShards stats \<Longrightarrow> 0 < mean_of stats"
  by (simp add: mean_of_def fl_pos)

lemma squares_zero:
  "0 \<le> v \<Longrightarrow> 0 \<le> fold (\<lambda>c v. let d = fl (fl (of_int c) - m) in fl (v + fl (d * d))) cs v \<and>
   (fold (\<lambda>c v. let d = fl (fl (of_int c) - m) in fl (v + fl (d * d))) cs v = 0 \<longleftrightarrow> v = 0 \<and> (\<forall>c \<in> set cs. fl (of_int c) = m))"
proof (induction cs arbitrary: v)
  case (Cons c cs)
  let ?d = "fl (fl (of_int c) - m)"
  have q: "0 \<le> fl (?d * ?d)" by (rule fl_nonneg) simp
  have "0 \<le> fl (v + fl (?d * ?d))" using Cons.prems q by (intro fl_nonneg) simp
  moreover have "fl (v + fl (?d * ?d)) = 0 \<longleftrightarrow> v = 0 \<and> fl (of_int c) = m" using Cons.prems q by (simp add: add_nonneg_eq_0_iff)
  ultimately show ?case using Cons.IH [of "fl (v + fl (?d * ?d))"] by (simp add: Let_def)
qed simp

lemma variance_zero:
  assumes "0 < stNumShards stats"
  shows "0 \<le> variance_of stats" "variance_of stats = 0 \<longleftrightarrow> (\<forall>c \<in> set (KeysPerShard stats). fl (of_int c) = mean_of stats)"
proof -
  let ?v = "fold (\<lambda>c v. let d = fl (fl (of_int c) - mean_of stats) in fl (v + fl (d * d))) (KeysPerShard stats) 0"
  have n: "0 < fl (of_nat (stNumShards stats))" using assms by (simp add: fl_pos)
  have z: "0 \<le> ?v" "?v = 0 \<longleftrightarrow> (\<forall>c \<in> set (KeysPerShard stats). fl (of_int c) = mean_of stats)"
    using squares_zero [of 0 "mean_of stats" "KeysPerShard stats"] by simp_all
  show "variance_of stats = 0 \<longleftrightarrow> (\<forall>c \<in> set (KeysPerShard stats). fl (of_int c) = mean_of stats)"
    using z(2) assms by (simp add: variance_of_def)
  have "0 \<le> ?v / fl (of_nat (stNumShards stats))" using z(1) n by simp
  then show "0 \<le> variance_of stats" unfolding variance_of_def by (rule fl_nonneg)
qed

lemma equal_counts:
  assumes "stats_ok stats"
  shows "(\<forall>c \<in> set (KeysPerShard stats). fl (of_int c) = mean_of stats) \<longleftrightarrow>
    (\<forall>c \<in> set (KeysPerShard stats). \<forall>d \<in> set (KeysPerShard stats). c = d)"
proof -
  let ?cs = "KeysPerShard stats"
  have ok: "length ?cs = stNumShards stats" "\<forall>c \<in> set ?cs. 0 \<le> c" "TotalKeys stats = sum_list ?cs" "sum_list ?cs < 2 ^ 53"
    "1 < stNumShards stats" "stNumShards stats < 2 ^ 32" using assms by (auto simp: stats_ok_def)
  have c: "fl (of_int c) = of_int c" if "c \<in> set ?cs" for c
    using member_le_sum_list [OF that] ok(2,4) that by (intro fl_int) auto
  show ?thesis
  proof
    assume "\<forall>c \<in> set ?cs. fl (of_int c) = mean_of stats"
    then show "\<forall>c \<in> set ?cs. \<forall>d \<in> set ?cs. c = d" using c by (metis of_int_eq_iff)
  next
    assume eq: "\<forall>c \<in> set ?cs. \<forall>d \<in> set ?cs. c = d"
    show "\<forall>c \<in> set ?cs. fl (of_int c) = mean_of stats"
    proof
      fix a
      assume a: "a \<in> set ?cs"
      then have "?cs = replicate (length ?cs) a" using eq by (metis replicate_eqI)
      then have t: "TotalKeys stats = int (stNumShards stats) * a" using ok(1,3) sum_list_replicate by metis
      have "fl (of_int (TotalKeys stats)) = of_int (TotalKeys stats)" using assms by (intro fl_int) (auto simp: stats_ok_def)
      moreover have "fl (of_nat (stNumShards stats)) = of_nat (stNumShards stats)"
        using fl_int [of "int (stNumShards stats)"] ok(6) by simp
      ultimately have "mean_of stats = fl (of_int a)" using t ok(5) by (simp add: mean_of_def)
      then show "fl (of_int a) = mean_of stats" by simp
    qed
  qed
qed

section \<open>Properties\<close>

text \<open>
  C32.  \<open>Skew\<close> of the statistics that \<open>Stats\<close> collects (for a number of keys below 2 ^ 53), rounding included: it
  is 0 if and only if all shards have the same number of keys; times the mean, it is below the root
  of the variance by no more than rounding.  But the ten Newton steps start at half of the variance
  and can at most halve it each time: times the mean, \<open>Skew\<close> is at least the variance over 2050, which is
  above the standard deviation as soon as that exceeds 2050 keys, and arbitrarily far above it.
\<close>

theorem Skew_overestimates:
  assumes "stats_ok stats"
  shows "(Skew stats = 0 \<longleftrightarrow> (\<forall>c \<in> set (KeysPerShard stats). \<forall>d \<in> set (KeysPerShard stats). c = d)) \<and>
    (1 - 1 / 2 ^ 48) * variance_of stats \<le> (Skew stats * mean_of stats) ^ 2 \<and>
    variance_of stats / 2050 \<le> Skew stats * mean_of stats"
proof -
  let ?v = "variance_of stats" and ?m = "mean_of stats"
  have n: "0 < TotalKeys stats" "1 < stNumShards stats" using assms by (simp_all add: stats_ok_def)
  then have m: "0 < ?m" by (simp add: mean_pos)
  then have k: "Skew stats = fl (go_sqrt ?v / ?m)" using n by (simp add: Skew_def Let_def)
  have z: "0 \<le> ?v" "?v = 0 \<longleftrightarrow> (\<forall>c \<in> set (KeysPerShard stats). \<forall>d \<in> set (KeysPerShard stats). c = d)"
    using variance_zero [of stats] n equal_counts [OF assms] by simp_all
  show ?thesis
  proof (cases "?v = 0")
    case True
    then show ?thesis using k z m by (simp add: go_sqrt_def)
  next
    case False
    then have v: "0 < ?v" using z(1) by simp
    note g = go_sqrt_bounds [OF v]
    have q: "0 < go_sqrt ?v / ?m" using g(1) m by simp
    then have "Skew stats \<noteq> 0" using fl_pos k by fastforce
    have "(1 - eps) * (go_sqrt ?v / ?m) \<le> Skew stats" unfolding k using q by (intro fl_bounds(1)) simp
    then have s: "(1 - eps) * go_sqrt ?v \<le> Skew stats * ?m" using m by (simp add: divide_le_eq)
    have p: "0 < (1 - eps) * go_sqrt ?v" using g(1) eps by simp
    have "?v / 2050 \<le> (1 - eps) * (?v / 2049)" using v by (simp add: eps_def)
    also have "\<dots> \<le> (1 - eps) * go_sqrt ?v" using g(3) eps by (intro mult_left_mono) simp_all
    finally have low: "?v / 2050 \<le> Skew stats * ?m" using s by linarith
    have "(1 - 1 / 2 ^ 48) * ?v \<le> (1 - eps) * (1 - eps) * ((1 - 16 * eps) * ?v)" using v by (simp add: eps_def)
    also have "\<dots> \<le> (1 - eps) * (1 - eps) * (go_sqrt ?v * go_sqrt ?v)" using g(2) by (intro mult_left_mono) simp_all
    also have "\<dots> = ((1 - eps) * go_sqrt ?v) ^ 2" by (simp add: power2_eq_square)
    also have "\<dots> \<le> (Skew stats * ?m) ^ 2" using s p by (intro power_mono) simp_all
    finally show ?thesis using low False z(2) \<open>Skew stats \<noteq> 0\<close> by simp
  qed
qed

text \<open>Two shards with no and with 20000 keys: the coefficient of variation is 1.\<close>

definition ex_stats :: ShardStats where
  "ex_stats = \<lparr>stNumShards = 2, TotalKeys = 20000, KeysPerShard = [0, 20000], MinShardKeys = 0, MaxShardKeys = 20000,
     stTotalInserts = 20000, stTotalDeletes = 0, stTotalFinds = 0\<rparr>"

theorem Skew_overestimates_witness:
  "stats_ok ex_stats \<and> variance_of ex_stats / mean_of ex_stats ^ 2 = 1 \<and> 4 < Skew ex_stats"
proof -
  have f: "fl 20000 = 20000" "fl 2 = 2" "fl 10000 = 10000" "fl 100000000 = 100000000" "fl 200000000 = 200000000" "fl (- 10000) = - 10000"
    using fl_int [of 20000] fl_int [of 2] fl_int [of 10000] fl_int [of 100000000] fl_int [of 200000000] fl_int [of "- 10000"] by simp_all
  have m: "mean_of ex_stats = 10000" using f by (simp add: mean_of_def ex_stats_def)
  have v: "variance_of ex_stats = 10000 ^ 2" unfolding variance_of_def m using f by (simp add: ex_stats_def Let_def)
  have "stats_ok ex_stats" by (simp add: stats_ok_def ex_stats_def)
  then show ?thesis using Skew_overestimates [of ex_stats] m v by simp
qed

end
