(* ===== verification/Rw_Lock.thy ===== *)
theory Rw_Lock
  imports Go_Prelude "HOL-Library.Sublist"
begin

text \<open>
  An object behind a \<^verbatim>\<open>sync.RWMutex\<close>, as \<^verbatim>\<open>src/bptree/btree.go\<close> has it: every
  operation of the tree runs between \<^verbatim>\<open>Lock\<close> and the deferred \<^verbatim>\<open>Unlock\<close>, or between
  \<^verbatim>\<open>RLock\<close> and \<^verbatim>\<open>RUnlock\<close>.

  Goroutines interleave.  The body of an operation is not one step: it loads the state and
  later stores the new one, so that two bodies at a time would lose an update.  The lock is the
  standard library's: a writer first takes the mutex among writers, which also
  stops new readers, and then waits until the readers inside have left.  The ghost component
  \<open>lin\<close> records the operations in the order in which their bodies finish.
\<close>

section \<open>The machine\<close>

datatype ('a, 's) pc = Idle | Waiting | Locked | Loaded 's | Returned 'a

record ('c, 'a, 's) thread =
  calls :: "'c list"
  pc :: "('a, 's) pc"
  answers :: "'a list"

record ('c, 'a, 's) conf =
  mem :: 's
  writer :: bool
  readers :: nat
  threads :: "('c, 'a, 's) thread list"
  lin :: "(nat \<times> 'c \<times> 'a) list"

definition start :: "'s \<Rightarrow> 'c list list \<Rightarrow> ('c, 'a, 's) conf" where
  "start s progs = \<lparr>mem = s, writer = False, readers = 0, threads = map (\<lambda>p. \<lparr>calls = p, pc = Idle, answers = []\<rparr>) progs, lin = []\<rparr>"

definition set_thread :: "nat \<Rightarrow> ('c, 'a, 's) thread \<Rightarrow> ('c, 'a, 's) conf \<Rightarrow> ('c, 'a, 's) conf" where
  "set_thread i th c = c\<lparr>threads := (threads c)[i := th]\<rparr>"

text \<open>\<open>running c i th x xs\<close>: goroutine \<open>i\<close> is in state \<open>th\<close>, its current call is \<open>x\<close>.\<close>

definition running :: "('c, 'a, 's) conf \<Rightarrow> nat \<Rightarrow> ('c, 'a, 's) thread \<Rightarrow> 'c \<Rightarrow> 'c list \<Rightarrow> bool" where
  "running c i th x xs \<longleftrightarrow> i < length (threads c) \<and> threads c ! i = th \<and> calls th = x # xs"

inductive step ::
  "('c \<Rightarrow> 's \<Rightarrow> ('a \<times> 's) option) \<Rightarrow> ('c \<Rightarrow> bool) \<Rightarrow> ('c, 'a, 's) conf \<Rightarrow> ('c, 'a, 's) conf \<Rightarrow> bool"
  for app :: "'c \<Rightarrow> 's \<Rightarrow> ('a \<times> 's) option" and reads :: "'c \<Rightarrow> bool" where
  rlock: "running c i th x xs \<Longrightarrow> pc th = Idle \<Longrightarrow> reads x \<Longrightarrow> \<not> writer c \<Longrightarrow>
    step app reads c (set_thread i (th\<lparr>pc := Locked\<rparr>) (c\<lparr>readers := readers c + 1\<rparr>))"
| announce: "running c i th x xs \<Longrightarrow> pc th = Idle \<Longrightarrow> \<not> reads x \<Longrightarrow> \<not> writer c \<Longrightarrow>
    step app reads c (set_thread i (th\<lparr>pc := Waiting\<rparr>) (c\<lparr>writer := True\<rparr>))"
| lock: "running c i th x xs \<Longrightarrow> pc th = Waiting \<Longrightarrow> readers c = 0 \<Longrightarrow>
    step app reads c (set_thread i (th\<lparr>pc := Locked\<rparr>) c)"
| load: "running c i th x xs \<Longrightarrow> pc th = Locked \<Longrightarrow>
    step app reads c (set_thread i (th\<lparr>pc := Loaded (mem c)\<rparr>) c)"
| store: "running c i th x xs \<Longrightarrow> pc th = Loaded s \<Longrightarrow> app x s = Some (a, s') \<Longrightarrow>
    step app reads c (set_thread i (th\<lparr>pc := Returned a\<rparr>) (c\<lparr>mem := if reads x then mem c else s', lin := lin c @ [(i, x, a)]\<rparr>))"
| unlock: "running c i th x xs \<Longrightarrow> pc th = Returned a \<Longrightarrow>
    step app reads c (set_thread i (th\<lparr>calls := xs, pc := Idle, answers := answers th @ [a]\<rparr>)
      (if reads x then c\<lparr>readers := readers c - 1\<rparr> else c\<lparr>writer := False\<rparr>))"

inductive_cases stepE: "step app reads c c'"

definition finished :: "('c, 'a, 's) conf \<Rightarrow> bool" where
  "finished c \<longleftrightarrow> (\<forall>th \<in> set (threads c). calls th = [])"

text \<open>The reference: the calls one after the other.\<close>

primrec seq_run :: "('c \<Rightarrow> 's \<Rightarrow> ('a \<times> 's) option) \<Rightarrow> 'c list \<Rightarrow> 's \<Rightarrow> ('a list \<times> 's) option" where
  "seq_run app [] s = Some ([], s)"
| "seq_run app (x # xs) s =
     do {
       (a, s1) \<leftarrow> app x s;
       (as, s2) \<leftarrow> seq_run app xs s1;
       Some (a # as, s2)
     }"

section \<open>Counting goroutines\<close>

definition cnt :: "('t \<Rightarrow> bool) \<Rightarrow> 't list \<Rightarrow> nat" where
  "cnt P xs = length (filter P xs)"

lemma cnt_update:
  "i < length xs \<Longrightarrow> cnt P (xs[i := x]) + of_bool (P (xs ! i)) = cnt P xs + of_bool (P x)"
proof (induction xs arbitrary: i)
  case (Cons y ys)
  then show ?case by (cases i) (auto simp: cnt_def)
qed simp

lemma cnt_pos: "i < length xs \<Longrightarrow> P (xs ! i) \<Longrightarrow> 0 < cnt P xs"
  by (auto simp: cnt_def filter_empty_conv)

lemma cnt_two:
  assumes "i < length xs" "j < length xs" "i \<noteq> j" "P (xs ! i)" "P (xs ! j)"
  shows "2 \<le> cnt P xs"
proof -
  have "card {i, j} \<le> card {k. k < length xs \<and> P (xs ! k)}" by (rule card_mono) (use assms in auto)
  then show ?thesis using assms(3) by (simp add: cnt_def length_filter_conv_card)
qed

lemma cnt_ex: "0 < cnt P xs \<Longrightarrow> \<exists>i < length xs. P (xs ! i)"
  by (auto simp: cnt_def filter_empty_conv in_set_conv_nth)

section \<open>Invariants\<close>

primrec inside :: "('a, 's) pc \<Rightarrow> bool" where
  "inside Idle = False"
| "inside Waiting = False"
| "inside Locked = True"
| "inside (Loaded s) = True"
| "inside (Returned a) = True"

definition cur :: "('c \<Rightarrow> bool) \<Rightarrow> ('c, 'a, 's) thread \<Rightarrow> bool" where
  "cur reads th \<longleftrightarrow> calls th \<noteq> [] \<and> reads (hd (calls th))"

definition reading :: "('c \<Rightarrow> bool) \<Rightarrow> ('c, 'a, 's) thread \<Rightarrow> bool" where
  "reading reads th \<longleftrightarrow> inside (pc th) \<and> cur reads th"

definition writing :: "('c \<Rightarrow> bool) \<Rightarrow> ('c, 'a, 's) thread \<Rightarrow> bool" where
  "writing reads th \<longleftrightarrow> inside (pc th) \<and> \<not> cur reads th"

definition holding :: "('c \<Rightarrow> bool) \<Rightarrow> ('c, 'a, 's) thread \<Rightarrow> bool" where
  "holding reads th \<longleftrightarrow> pc th = Waiting \<or> writing reads th"

lemmas role_defs = reading_def writing_def holding_def cur_def

text \<open>The lock counts what is inside, and a writer inside is alone.\<close>

definition lock_inv :: "('c \<Rightarrow> bool) \<Rightarrow> ('c, 'a, 's) conf \<Rightarrow> bool" where
  "lock_inv reads c \<longleftrightarrow> readers c = cnt (reading reads) (threads c) \<and> cnt (holding reads) (threads c) = of_bool (writer c) \<and>
     (\<forall>th \<in> set (threads c). writing reads th \<longrightarrow> readers c = 0) \<and>
     (\<forall>th \<in> set (threads c). pc th \<noteq> Idle \<longrightarrow> calls th \<noteq> []) \<and> (\<forall>th \<in> set (threads c). pc th = Waiting \<longrightarrow> \<not> cur reads th)"

lemma set_thread_simps [simp]:
  "threads (set_thread i th c) = (threads c)[i := th]" "mem (set_thread i th c) = mem c" "writer (set_thread i th c) = writer c"
  "readers (set_thread i th c) = readers c" "lin (set_thread i th c) = lin c"
  by (simp_all add: set_thread_def)

lemma all_update: "(\<forall>y \<in> set xs. Q y) \<Longrightarrow> Q x \<Longrightarrow> \<forall>y \<in> set (xs[i := x]). Q y"
  using set_update_subset_insert [of xs i x] by blast

lemma lock_inv_start: "lock_inv reads (start s progs)"
  by (auto simp: lock_inv_def start_def cnt_def role_defs filter_empty_conv)

lemma lock_inv_update:
  assumes inv: "lock_inv reads c" and i: "i < length (threads c)" "threads c ! i = th" and c': "threads c' = (threads c)[i := th']"
    and r: "readers c' + of_bool (reading reads th) = readers c + of_bool (reading reads th')"
    and w: "of_bool (writer c') + of_bool (holding reads th) = (of_bool (writer c) + of_bool (holding reads th') :: nat)"
    and wf: "pc th' \<noteq> Idle \<Longrightarrow> calls th' \<noteq> []" "pc th' = Waiting \<Longrightarrow> \<not> cur reads th'"
    and excl: "writing reads th' \<Longrightarrow> readers c' = 0"
      "\<And>t. t \<in> set (threads c) \<Longrightarrow> writing reads t \<Longrightarrow> readers c = 0 \<Longrightarrow> readers c' = 0"
  shows "lock_inv reads c'"
proof -
  have c: "readers c = cnt (reading reads) (threads c)" "cnt (holding reads) (threads c) = of_bool (writer c)"
    "\<forall>t \<in> set (threads c). writing reads t \<longrightarrow> readers c = 0"
    "\<forall>t \<in> set (threads c). pc t \<noteq> Idle \<longrightarrow> calls t \<noteq> []" "\<forall>t \<in> set (threads c). pc t = Waiting \<longrightarrow> \<not> cur reads t"
    using inv unfolding lock_inv_def by blast+
  have "readers c' = cnt (reading reads) (threads c')" using cnt_update [OF i(1), of "reading reads" th'] c(1) r i(2) c' by simp
  moreover have "cnt (holding reads) (threads c') = of_bool (writer c')"
    using cnt_update [OF i(1), of "holding reads" th'] c(2) w i(2) c' by simp
  moreover have "\<forall>t \<in> set (threads c'). writing reads t \<longrightarrow> readers c' = 0"
    unfolding c' by (rule all_update) (use c(3) excl in blast)+
  moreover have "\<forall>t \<in> set (threads c'). pc t \<noteq> Idle \<longrightarrow> calls t \<noteq> []" unfolding c' by (rule all_update) (use c(4) wf(1) in blast)+
  moreover have "\<forall>t \<in> set (threads c'). pc t = Waiting \<longrightarrow> \<not> cur reads t" unfolding c' by (rule all_update) (use c(5) wf(2) in blast)+
  ultimately show ?thesis unfolding lock_inv_def by blast
qed

lemma no_writer:
  assumes "lock_inv reads c" "\<not> writer c" "t \<in> set (threads c)"
  shows "\<not> holding reads t"
  using assms cnt_pos [of _ "threads c" "holding reads"] by (auto simp: lock_inv_def in_set_conv_nth)

lemma writing_readers: "lock_inv reads c \<Longrightarrow> i < length (threads c) \<Longrightarrow> writing reads (threads c ! i) \<Longrightarrow> readers c = 0"
  unfolding lock_inv_def by (meson nth_mem)

lemma lock_inv_step:
  assumes "step app reads c c'" "lock_inv reads c"
  shows "lock_inv reads c'"
  using assms(1)
proof cases
  case (rlock i th x xs)
  show ?thesis
    by (rule lock_inv_update [OF assms(2), of i th _ "th\<lparr>pc := Locked\<rparr>"])
      (use rlock no_writer [OF assms(2)] in \<open>auto simp: running_def role_defs\<close>)
next
  case (announce i th x xs)
  show ?thesis
    by (rule lock_inv_update [OF assms(2), of i th _ "th\<lparr>pc := Waiting\<rparr>"])
      (use announce in \<open>auto simp: running_def role_defs\<close>)
next
  case (lock i th x xs)
  then have "\<not> cur reads th" using assms(2) unfolding running_def lock_inv_def by (meson nth_mem)
  then show ?thesis
    by (intro lock_inv_update [OF assms(2), of i th _ "th\<lparr>pc := Locked\<rparr>"])
      (use lock in \<open>auto simp: running_def role_defs\<close>)
next
  case (load i th x xs)
  show ?thesis
    by (rule lock_inv_update [OF assms(2), of i th _ "th\<lparr>pc := Loaded (mem c)\<rparr>"])
      (use load writing_readers [OF assms(2), of i] in \<open>auto simp: running_def role_defs\<close>)
next
  case (store i th x xs s a s')
  show ?thesis
    by (rule lock_inv_update [OF assms(2), of i th _ "th\<lparr>pc := Returned a\<rparr>"])
      (use store writing_readers [OF assms(2), of i] in \<open>auto simp: running_def role_defs\<close>)
next
  case (unlock i th x xs a)
  have i: "i < length (threads c)" "threads c ! i = th" "calls th = x # xs" using unlock by (simp_all add: running_def)
  have pos: "0 < readers c" if "reads x"
    using cnt_pos [OF i(1), of "reading reads"] that unlock i assms(2) by (auto simp: role_defs lock_inv_def)
  have held: "writer c" if "\<not> reads x"
    using cnt_pos [OF i(1), of "holding reads"] that unlock i assms(2) by (auto simp: role_defs lock_inv_def)
  show ?thesis
    by (rule lock_inv_update [OF assms(2) i(1,2), of _ "th\<lparr>calls := xs, pc := Idle, answers := answers th @ [a]\<rparr>"])
      (use unlock i pos held in \<open>auto simp: role_defs\<close>)
qed

text \<open>A goroutine inside a write is the only one inside.\<close>

lemma writer_alone:
  assumes "lock_inv reads c" "i < length (threads c)" "j < length (threads c)" "i \<noteq> j" "writing reads (threads c ! i)"
  shows "\<not> inside (pc (threads c ! j))"
proof
  assume j: "inside (pc (threads c ! j))"
  have "readers c = 0" using assms(1,2,5) by (auto simp: lock_inv_def)
  then have "\<not> reading reads (threads c ! j)" using cnt_pos [OF assms(3), of "reading reads"] assms(1) by (auto simp: lock_inv_def)
  then have "holding reads (threads c ! j)" using j by (simp add: role_defs)
  moreover have "holding reads (threads c ! i)" using assms(5) by (simp add: holding_def)
  ultimately have "2 \<le> cnt (holding reads) (threads c)" using cnt_two assms(2,3,4) by blast
  then show False using assms(1) by (cases "writer c") (auto simp: lock_inv_def)
qed

section \<open>Order\<close>

text \<open>What \<open>lin\<close> has of goroutine \<open>i\<close>, and what of its calls is answered and left.\<close>

definition ops_of :: "nat \<Rightarrow> (nat \<times> 'c \<times> 'a) list \<Rightarrow> ('c \<times> 'a) list" where
  "ops_of i l = map snd (filter (\<lambda>e. fst e = i) l)"

definition given :: "('c, 'a, 's) thread \<Rightarrow> 'a list" where
  "given th = answers th @ (case pc th of Returned a \<Rightarrow> [a] | _ \<Rightarrow> [])"

definition left :: "('c, 'a, 's) thread \<Rightarrow> 'c list" where
  "left th = (case pc th of Returned a \<Rightarrow> tl (calls th) | _ \<Rightarrow> calls th)"

definition order_inv :: "'c list list \<Rightarrow> ('c, 'a, 's) conf \<Rightarrow> bool" where
  "order_inv progs c \<longleftrightarrow> length (threads c) = length progs \<and>
     (\<forall>i < length progs. map snd (ops_of i (lin c)) = given (threads c ! i) \<and>
        map fst (ops_of i (lin c)) @ left (threads c ! i) = progs ! i)"

lemma order_inv_start: "order_inv progs (start s progs)"
  by (simp add: order_inv_def start_def ops_of_def given_def left_def)

lemma order_inv_update:
  assumes inv: "order_inv progs c" and i: "i < length (threads c)" "threads c ! i = th" and c': "threads c' = (threads c)[i := th']"
    and l: "lin c' = lin c @ map (Pair i) l" "given th' = given th @ map snd l" "map fst l @ left th' = left th"
  shows "order_inv progs c'"
proof -
  have "ops_of j (lin c') = ops_of j (lin c) @ (if j = i then l else [])" for j
    unfolding l(1) by (simp add: ops_of_def filter_map comp_def)
  then show ?thesis using inv i c' l(2,3) by (auto simp: order_inv_def nth_list_update)
qed

lemmas order_defs = running_def given_def left_def

lemma order_inv_step:
  assumes "step app reads c c'" "order_inv progs c"
  shows "order_inv progs c'"
  using assms(1)
proof cases
  case (rlock i th x xs)
  then show ?thesis by (intro order_inv_update [OF assms(2), of i th _ "th\<lparr>pc := Locked\<rparr>" "[]"]) (simp_all add: order_defs)
next
  case (announce i th x xs)
  then show ?thesis by (intro order_inv_update [OF assms(2), of i th _ "th\<lparr>pc := Waiting\<rparr>" "[]"]) (simp_all add: order_defs)
next
  case (lock i th x xs)
  then show ?thesis by (intro order_inv_update [OF assms(2), of i th _ "th\<lparr>pc := Locked\<rparr>" "[]"]) (simp_all add: order_defs)
next
  case (load i th x xs)
  then show ?thesis by (intro order_inv_update [OF assms(2), of i th _ "th\<lparr>pc := Loaded (mem c)\<rparr>" "[]"]) (simp_all add: order_defs)
next
  case (store i th x xs s a s')
  then show ?thesis by (intro order_inv_update [OF assms(2), of i th _ "th\<lparr>pc := Returned a\<rparr>" "[(x, a)]"]) (simp_all add: order_defs)
next
  case (unlock i th x xs a)
  then show ?thesis
    by (intro order_inv_update [OF assms(2), of i th _ "th\<lparr>calls := xs, pc := Idle, answers := answers th @ [a]\<rparr>" "[]"])
      (simp_all add: order_defs)
qed

text \<open>At the end every call has its answer.\<close>

lemma finished_answers:
  assumes "order_inv progs c" "lock_inv reads c" "finished c" "i < length progs"
  shows "length (answers (threads c ! i)) = length (progs ! i)"
proof -
  have o: "length (threads c) = length progs" "map snd (ops_of i (lin c)) = given (threads c ! i)"
    "map fst (ops_of i (lin c)) @ left (threads c ! i) = progs ! i"
    using assms(1,4) by (simp_all add: order_inv_def)
  have th: "threads c ! i \<in> set (threads c)" using assms(4) o(1) by simp
  then have "calls (threads c ! i) = []" using assms(3) by (simp add: finished_def)
  moreover then have "pc (threads c ! i) = Idle" using assms(2) th unfolding lock_inv_def by blast
  ultimately have "map fst (ops_of i (lin c)) = progs ! i" "map snd (ops_of i (lin c)) = answers (threads c ! i)"
    using o(2,3) by (simp_all add: given_def left_def)
  then show ?thesis by (metis length_map)
qed

lemma lin_grows: "step app reads c c' \<Longrightarrow> prefix (lin c) (lin c')"
  by (elim stepE) auto

section \<open>Work\<close>

definition work :: "('c, 'a, 's) thread \<Rightarrow> nat" where
  "work th = 5 * length (calls th) - (case pc th of Idle \<Rightarrow> 0 | Waiting \<Rightarrow> 1 | Locked \<Rightarrow> 2 | Loaded _ \<Rightarrow> 3 | Returned _ \<Rightarrow> 4)"

definition total_work :: "('c, 'a, 's) conf \<Rightarrow> nat" where
  "total_work c = sum_list (map work (threads c))"

lemma work_update:
  assumes "i < length ths" "work th' < work (ths ! i)"
  shows "sum_list (map work (ths[i := th'])) < sum_list (map work ths)"
proof -
  have "work (ths ! i) \<le> sum_list (map work ths)" by (rule member_le_sum_list) (use assms(1) in simp_all)
  then show ?thesis using assms sum_list_update [of i "map work ths" "work th'"] by (simp add: map_update)
qed

lemma step_work: "step app reads c c' \<Longrightarrow> total_work c' < total_work c"
  by (elim stepE) (auto simp: total_work_def running_def work_def intro!: work_update)

lemma steps_work: "(step app reads ^^ k) c c' \<Longrightarrow> k + total_work c' \<le> total_work c"
proof (induction k arbitrary: c')
  case (Suc k)
  then obtain c1 where "(step app reads ^^ k) c c1" "step app reads c1 c'" by auto
  then show ?case using Suc.IH [of c1] step_work [of app reads c1 c'] by simp
qed simp

section \<open>Objects\<close>

lemma seq_run_snoc:
  "seq_run app xs s = Some (as, s1) \<Longrightarrow> app x s1 = Some (a, s2) \<Longrightarrow> seq_run app (xs @ [x]) s = Some (as @ [a], s2)"
  by (induction xs arbitrary: s as) (auto split: bind_splits)

locale rw_object =
  fixes inv :: "'s \<Rightarrow> bool"
    and app :: "'c \<Rightarrow> 's \<Rightarrow> ('a \<times> 's) option"
    and reads :: "'c \<Rightarrow> bool"
    and ok :: "'c \<Rightarrow> bool"
  assumes app_total: "inv s \<Longrightarrow> ok x \<Longrightarrow> \<exists>a s'. app x s = Some (a, s') \<and> inv s'"
    and read_law: "reads x \<Longrightarrow> app x s = Some (a, s') \<Longrightarrow> s' = s"
begin

definition data_inv :: "'s \<Rightarrow> ('c, 'a, 's) conf \<Rightarrow> bool" where
  "data_inv s0 c \<longleftrightarrow> inv (mem c) \<and> (\<forall>th \<in> set (threads c). \<forall>s. pc th = Loaded s \<longrightarrow> s = mem c) \<and>
     (\<forall>th \<in> set (threads c). \<forall>x \<in> set (calls th). ok x) \<and>
     seq_run app (map (\<lambda>e. fst (snd e)) (lin c)) s0 = Some (map (\<lambda>e. snd (snd e)) (lin c), mem c)"

lemma data_inv_start: "inv s0 \<Longrightarrow> \<forall>p \<in> set progs. \<forall>x \<in> set p. ok x \<Longrightarrow> data_inv s0 (start s0 progs)"
  by (auto simp: data_inv_def start_def)

lemma data_inv_quiet:
  assumes "data_inv s0 c" "threads c' = (threads c)[i := th']" "mem c' = mem c" "lin c' = lin c" "i < length (threads c)"
    "set (calls th') \<subseteq> set (calls (threads c ! i))" "\<And>s. pc th' = Loaded s \<Longrightarrow> s = mem c"
  shows "data_inv s0 c'"
proof -
  have "\<forall>x \<in> set (calls th'). ok x" using assms(1,5,6) unfolding data_inv_def by (meson nth_mem subsetD)
  then have "\<forall>th \<in> set (threads c'). \<forall>x \<in> set (calls th). ok x"
    unfolding assms(2) by (intro all_update) (use assms(1) in \<open>auto simp: data_inv_def\<close>)
  moreover have "\<forall>th \<in> set (threads c'). \<forall>s. pc th = Loaded s \<longrightarrow> s = mem c"
    unfolding assms(2) by (intro all_update) (use assms(1,7) in \<open>auto simp: data_inv_def\<close>)
  ultimately show ?thesis using assms(1,3,4) by (simp add: data_inv_def)
qed

lemma data_inv_step:
  assumes "step app reads c c'" "lock_inv reads c" "data_inv s0 c"
  shows "data_inv s0 c'"
  using assms(1)
proof cases
  case (store i th x xs s a s')
  have i: "i < length (threads c)" "threads c ! i = th" "calls th = x # xs" using store by (simp_all add: running_def)
  have d: "inv (mem c)" "\<forall>th \<in> set (threads c). \<forall>s. pc th = Loaded s \<longrightarrow> s = mem c" "\<forall>th \<in> set (threads c). \<forall>x \<in> set (calls th). ok x"
    "seq_run app (map (\<lambda>e. fst (snd e)) (lin c)) s0 = Some (map (\<lambda>e. snd (snd e)) (lin c), mem c)"
    using assms(3) unfolding data_inv_def by blast+
  have s: "s = mem c" using d(2) i store nth_mem by blast
  have "ok x" using d(3) i nth_mem by fastforce
  then have inv': "inv s'" using app_total [OF d(1), of x] store s by auto
  have mem: "mem c' = s'" using store read_law s by auto
  have "\<forall>th \<in> set (threads c'). \<forall>t. pc th = Loaded t \<longrightarrow> t = mem c'"
  proof (intro ballI allI impI)
    fix th1 t
    assume t: "th1 \<in> set (threads c')" "pc th1 = Loaded t"
    then obtain j where j: "j < length (threads c)" "th1 = (threads c)[i := th\<lparr>pc := Returned a\<rparr>] ! j" using store by (auto simp: in_set_conv_nth)
    then have ne: "j \<noteq> i" "th1 = threads c ! j" using t i by (auto simp: nth_list_update split: if_splits)
    have "\<not> writing reads th" using writer_alone [OF assms(2) i(1) j(1)] ne t i(2) by auto
    then have "reads x" using store i by (simp add: role_defs)
    then show "t = mem c'" using d(2) t ne(2) j(1) store by auto
  qed
  moreover have "\<forall>y \<in> set ((threads c)[i := th\<lparr>pc := Returned a\<rparr>]). \<forall>x \<in> set (calls y). ok x"
  proof (rule all_update [OF d(3)])
    show "\<forall>x \<in> set (calls (th\<lparr>pc := Returned a\<rparr>)). ok x" using d(3) nth_mem [OF i(1)] i(2) by simp
  qed
  then have "\<forall>th \<in> set (threads c'). \<forall>x \<in> set (calls th). ok x" using store by simp
  moreover have "seq_run app (map (\<lambda>e. fst (snd e)) (lin c')) s0 = Some (map (\<lambda>e. snd (snd e)) (lin c'), mem c')"
    using seq_run_snoc [OF d(4), of x a s'] store s mem by simp
  ultimately show ?thesis using inv' mem unfolding data_inv_def by blast
next
  case (unlock i th x xs a)
  then show ?thesis
    by (intro data_inv_quiet [OF assms(3), of _ i "th\<lparr>calls := xs, pc := Idle, answers := answers th @ [a]\<rparr>"]) (auto simp: running_def)
next
  case (rlock i th x xs)
  then show ?thesis by (intro data_inv_quiet [OF assms(3), of _ i "th\<lparr>pc := Locked\<rparr>"]) (simp_all add: running_def)
next
  case (announce i th x xs)
  then show ?thesis by (intro data_inv_quiet [OF assms(3), of _ i "th\<lparr>pc := Waiting\<rparr>"]) (simp_all add: running_def)
next
  case (lock i th x xs)
  then show ?thesis by (intro data_inv_quiet [OF assms(3), of _ i "th\<lparr>pc := Locked\<rparr>"]) (simp_all add: running_def)
next
  case (load i th x xs)
  then show ?thesis by (intro data_inv_quiet [OF assms(3), of _ i "th\<lparr>pc := Loaded (mem c)\<rparr>"]) (simp_all add: running_def)
qed

text \<open>No deadlock: as long as a call is left, some goroutine can go on.\<close>

lemma progress:
  assumes "lock_inv reads c" "data_inv s0 c" "\<not> finished c"
  shows "\<exists>c'. step app reads c c'"
proof -
  consider (inside) i where "i < length (threads c)" "inside (pc (threads c ! i))"
    | (waiting) i where "i < length (threads c)" "pc (threads c ! i) = Waiting" "\<forall>j < length (threads c). \<not> inside (pc (threads c ! j))"
    | (idle) "\<forall>j < length (threads c). pc (threads c ! j) = Idle"
    by (metis inside.simps(3-5) pc.exhaust)
  then show ?thesis
  proof cases
    case inside
    then obtain x xs where x: "running c i (threads c ! i) x xs"
      using assms(1) by (cases "calls (threads c ! i)") (force simp: running_def lock_inv_def)+
    then have "ok x" using assms(2) nth_mem by (fastforce simp: running_def data_inv_def)
    then have "\<exists>a s'. app x (mem c) = Some (a, s')" using app_total assms(2) unfolding data_inv_def by blast
    moreover have "s = mem c" if "pc (threads c ! i) = Loaded s" for s using assms(2) that inside(1) unfolding data_inv_def by (meson nth_mem)
    ultimately show ?thesis using x inside(2) by (cases "pc (threads c ! i)") (auto intro: step.intros)
  next
    case waiting
    then obtain x xs where x: "running c i (threads c ! i) x xs"
      using assms(1) by (cases "calls (threads c ! i)") (force simp: running_def lock_inv_def)+
    have "cnt (reading reads) (threads c) = 0" using waiting(3) cnt_ex [of "reading reads" "threads c"] by (auto simp: reading_def)
    then have "readers c = 0" using assms(1) by (simp add: lock_inv_def)
    then show ?thesis using step.lock [OF x waiting(2)] by blast
  next
    case idle
    obtain i where i: "i < length (threads c)" "calls (threads c ! i) \<noteq> []" using assms(3) by (auto simp: finished_def in_set_conv_nth)
    then obtain x xs where x: "running c i (threads c ! i) x xs" by (cases "calls (threads c ! i)") (auto simp: running_def)
    have "\<not> holding reads (threads c ! j)" if "j < length (threads c)" for j using idle that by (simp add: role_defs)
    then have "cnt (holding reads) (threads c) = 0" using cnt_ex [of "holding reads" "threads c"] by blast
    then have "\<not> writer c" using assms(1) by (auto simp: lock_inv_def)
    then show ?thesis using x idle i(1) by (cases "reads x") (blast intro: step.rlock step.announce)+
  qed
qed

lemma reachable_inv:
  assumes "(step app reads)\<^sup>*\<^sup>* (start s0 progs) c" "inv s0" "\<forall>p \<in> set progs. \<forall>x \<in> set p. ok x"
  shows "lock_inv reads c \<and> data_inv s0 c \<and> order_inv progs c"
  using assms(1)
proof (induction rule: rtranclp_induct)
  case base
  then show ?case using data_inv_start [OF assms(2,3)] by (simp add: lock_inv_start order_inv_start)
next
  case (step c c')
  then show ?case using lock_inv_step order_inv_step data_inv_step by blast
qed

lemma completes:
  assumes "lock_inv reads c" "data_inv s0 c"
  shows "\<exists>c'. (step app reads)\<^sup>*\<^sup>* c c' \<and> finished c'"
  using assms
proof (induction "total_work c" arbitrary: c rule: less_induct)
  case less
  show ?case
  proof (cases "finished c")
    case False
    then obtain c1 where c1: "step app reads c c1" using progress less.prems by blast
    then obtain c' where "(step app reads)\<^sup>*\<^sup>* c1 c'" "finished c'"
      using less.hyps [OF step_work [OF c1]] lock_inv_step data_inv_step less.prems by blast
    then show ?thesis using c1 by (meson converse_rtranclp_into_rtranclp)
  qed blast
qed

end

end
