(* ===== verification/Tree_Lock.thy ===== *)
theory Tree_Lock
  imports Rw_Lock Btree_Store
begin

text \<open>
  The concurrency of the B-tree, \<^verbatim>\<open>src/bptree/btree.go\<close>: its operations as the calls of an
  object behind \<open>treeLock\<close>, and what the lock gives for every interleaving of goroutines.
\<close>

section \<open>Calls\<close>

datatype tcall = TInsert Keytype Valuetype | TDelete slice | TFind slice | TGetRange slice slice | TCount

datatype tans = ADone | ADeleted bool | AFound "go_error + slice" | ARange "go_error + Keytype list \<times> Valuetype list" | ACount int

primrec tree_app :: "tcall \<Rightarrow> Btree \<Rightarrow> (tans \<times> Btree) option" where
  "tree_app (TInsert k v) t = map_option (Pair ADone) (Btree_Insert t k v)"
| "tree_app (TDelete k) t = map_option (\<lambda>(deleted, t'). (ADeleted deleted, t')) (Btree_Delete t k)"
| "tree_app (TFind k) t = map_option (\<lambda>r. (AFound r, t)) (Btree_Find t k)"
| "tree_app (TGetRange lo hi) t = map_option (\<lambda>r. (ARange r, t)) (Btree_GetRange t lo hi)"
| "tree_app TCount t = Some (ACount (Btree_countKeys t), t)"

text \<open>The operations that take the lock with \<^verbatim>\<open>RLock\<close>.\<close>

primrec tree_reads :: "tcall \<Rightarrow> bool" where
  "tree_reads (TInsert k v) = False"
| "tree_reads (TDelete k) = False"
| "tree_reads (TFind k) = True"
| "tree_reads (TGetRange lo hi) = True"
| "tree_reads TCount = True"

primrec tree_ok :: "tcall \<Rightarrow> bool" where
  "tree_ok (TInsert k v) = (k \<noteq> NilSlice)"
| "tree_ok (TDelete k) = True"
| "tree_ok (TFind k) = True"
| "tree_ok (TGetRange lo hi) = True"
| "tree_ok TCount = True"

section \<open>No operation panics\<close>

lemma leafRange_total: "length ks \<le> length vs \<Longrightarrow> \<exists>r. leafRange e ks vs acc = Some r"
  by (induction e ks vs acc rule: leafRange.induct) (auto split: list.split)

lemma getRangeLoop_total:
  assumes "length ks \<le> length vs" "\<And>c acc. c \<in> set cs \<Longrightarrow> \<exists>r. getRange s e c acc = Some r"
  shows "\<exists>r. getRangeLoop s e ks vs cs acc = Some r"
  using assms
proof (induction ks arbitrary: vs cs acc)
  case (Cons k ks)
  obtain v vs' where vs: "vs = v # vs'" using Cons.prems(1) by (cases vs) auto
  show ?case
  proof (cases cs)
    case Nil
    then show ?thesis using Cons.IH [of vs' "[]"] Cons.prems(1) vs by simp
  next
    case cs: (Cons c cs')
    obtain acc1 where "getRange s e c (emit acc k v) = Some acc1" using Cons.prems(2) [of c "emit acc k v"] cs by auto
    moreover have "\<exists>r. getRangeLoop s e ks vs' cs' acc1 = Some r"
      by (rule Cons.IH) (use Cons.prems cs vs in auto)
    ultimately show ?thesis using cs vs by simp
  qed
qed simp

lemma getRange_total: "shape h lo n \<Longrightarrow> \<exists>r. getRange s e n acc = Some r"
proof (induction h arbitrary: lo n acc)
  case 0
  then show ?case using leafRange_total by (subst getRange_unfold) (simp add: Let_def)
next
  case (Suc h)
  let ?i = "findindex n s"
  have c: "\<exists>r. getRange s e c acc = Some r" if "c \<in> set (children n)" for c acc
    by (rule Suc.IH [of MinKeys]) (use Suc.prems that in simp)
  have i: "?i < length (children n)" using Suc.prems by (simp add: le_imp_less_Suc)
  then obtain acc1 where 1: "getRange s e (children n ! ?i) acc = Some acc1" using c nth_mem by blast
  have "\<exists>r. getRangeLoop s e (drop ?i (keys n)) (drop ?i (vals n)) (drop (?i + 1) (children n)) acc1 = Some r"
    by (rule getRangeLoop_total) (use Suc.prems c in \<open>auto dest: in_set_dropD\<close>)
  then show ?case using Suc.prems i 1 by (subst getRange_unfold) (simp add: Let_def)
qed

lemma Btree_GetRange_total: "tree_shape t \<Longrightarrow> \<exists>r. Btree_GetRange t lo hi = Some r"
  using getRange_total by (fastforce simp: Btree_GetRange_def tree_shape_def split: option.split)

lemma tree_app_total:
  assumes "reach t" "tree_ok x"
  shows "\<exists>a t'. tree_app x t = Some (a, t') \<and> reach t'"
proof -
  have s: "tree_shape t" "no_nil (tree_entries t)" using reach_shape [OF assms(1)] by simp_all
  show ?thesis
  proof (cases x)
    case (TInsert k v)
    then obtain t' where "Btree_Insert t k v = Some t'" using Btree_Insert_shape [OF s(1)] by blast
    then show ?thesis using TInsert reach_insert [OF assms(1)] assms(2) by simp
  next
    case (TDelete k)
    then obtain b t' where "Btree_Delete t k = Some (b, t')" using Btree_Delete_shape [OF s] by blast
    then show ?thesis using TDelete reach_delete [OF assms(1)] by auto
  next
    case (TFind k)
    then show ?thesis using Btree_Find_total [OF s(1), of k] assms(1) by auto
  next
    case (TGetRange lo hi)
    then show ?thesis using Btree_GetRange_total [OF s(1), of lo hi] assms(1) by auto
  qed (use assms(1) in simp)
qed

interpretation tree_object: rw_object reach tree_app tree_reads tree_ok
proof
  show "t' = t" if "tree_reads x" "tree_app x t = Some (a, t')" for x t a t'
    using that by (cases x) auto
qed (rule tree_app_total)

text \<open>
  While one goroutine is inside \<open>Insert\<close> or \<open>Delete\<close>, no other one is inside any
  operation of the tree.
\<close>

lemma tree_lock_exclusive:
  assumes "reach t" "\<forall>p \<in> set progs. \<forall>x \<in> set p. tree_ok x" "(step tree_app tree_reads)\<^sup>*\<^sup>* (start t progs) c"
    "i < length (threads c)" "j < length (threads c)" "i \<noteq> j" "writing tree_reads (threads c ! i)"
  shows "\<not> inside (pc (threads c ! j))"
  using tree_object.reachable_inv [OF assms(3,1,2)] writer_alone assms(4-7) by blast

text \<open>Two goroutines: one inserts and counts, one inserts, looks up and deletes.\<close>

definition ex_progs :: "tcall list list" where
  "ex_progs = [[TInsert (Bytes [1]) (Bytes [7]), TCount], [TInsert (Bytes [2]) (Bytes [8]), TFind (Bytes [1]), TDelete (Bytes [2])]]"

lemma ex_progs_ok: "\<forall>p \<in> set ex_progs. \<forall>x \<in> set p. tree_ok x"
  by (simp add: ex_progs_def)

definition ex_writing :: "(tcall, tans, Btree) conf" where
  "ex_writing = \<lparr>mem = empty_Btree, writer = True, readers = 0,
     threads = [\<lparr>calls = ex_progs ! 0, pc = Locked, answers = []\<rparr>, \<lparr>calls = ex_progs ! 1, pc = Idle, answers = []\<rparr>], lin = []\<rparr>"

lemma ex_writing: "(step tree_app tree_reads)\<^sup>*\<^sup>* (start empty_Btree ex_progs) ex_writing"
proof -
  let ?th = "\<lparr>calls = ex_progs ! 0, pc = Idle, answers = []\<rparr> :: (tcall, tans, Btree) thread"
  let ?c = "set_thread 0 (?th\<lparr>pc := Waiting\<rparr>) ((start empty_Btree ex_progs)\<lparr>writer := True\<rparr>)"
  have "step tree_app tree_reads (start empty_Btree ex_progs) ?c"
    by (rule step.announce [of _ 0 ?th "TInsert (Bytes [1]) (Bytes [7])" "[TCount]"])
      (simp_all add: running_def start_def ex_progs_def)
  moreover have "step tree_app tree_reads ?c (set_thread 0 (?th\<lparr>pc := Locked\<rparr>) ?c)"
    using step.lock [of ?c 0 "?th\<lparr>pc := Waiting\<rparr>" "TInsert (Bytes [1]) (Bytes [7])" "[TCount]" tree_app tree_reads]
    by (simp add: running_def start_def ex_progs_def)
  moreover have "set_thread 0 (?th\<lparr>pc := Locked\<rparr>) ?c = ex_writing"
    by (simp add: set_thread_def start_def ex_writing_def ex_progs_def)
  ultimately show ?thesis by (metis converse_rtranclp_into_rtranclp rtranclp.rtrancl_refl)
qed

section \<open>Properties\<close>

text \<open>
  C3.  The tree is linearizable: in every state that goroutines reach, in any interleaving,
  the tree and the answers are those of the calls executed one after the other in the order
  \<open>lin\<close>.  \<open>lin\<close> has the calls of each goroutine in program order, those it has
  answers for and no others, so a call that returns before another one starts comes first;
  and \<open>lin\<close> only grows.
\<close>

theorem tree_lock_linearizable:
  assumes "reach t" "\<forall>p \<in> set progs. \<forall>x \<in> set p. tree_ok x" "(step tree_app tree_reads)\<^sup>*\<^sup>* (start t progs) c"
  shows "seq_run tree_app (map (\<lambda>e. fst (snd e)) (lin c)) t = Some (map (\<lambda>e. snd (snd e)) (lin c), mem c) \<and>
    (\<forall>i < length progs. map snd (ops_of i (lin c)) = given (threads c ! i) \<and>
       map fst (ops_of i (lin c)) @ left (threads c ! i) = progs ! i) \<and>
    (\<forall>c'. (step tree_app tree_reads)\<^sup>*\<^sup>* c c' \<longrightarrow> prefix (lin c) (lin c'))"
proof -
  have "prefix (lin c) (lin c')" if "(step tree_app tree_reads)\<^sup>*\<^sup>* c c'" for c'
    using that by (induction rule: rtranclp_induct) (auto dest: lin_grows prefix_order.trans)
  then show ?thesis
    using tree_object.reachable_inv [OF assms(3,1,2)] by (simp add: tree_object.data_inv_def order_inv_def)
qed

theorem tree_lock_linearizable_witness:
  "\<exists>c. (step tree_app tree_reads)\<^sup>*\<^sup>* (start empty_Btree ex_progs) c \<and> finished c \<and>
     seq_run tree_app (map (\<lambda>e. fst (snd e)) (lin c)) empty_Btree = Some (map (\<lambda>e. snd (snd e)) (lin c), mem c) \<and>
     map fst (ops_of 0 (lin c)) @ left (threads c ! 0) = [TInsert (Bytes [1]) (Bytes [7]), TCount]"
proof -
  have "lock_inv tree_reads ex_writing \<and> tree_object.data_inv empty_Btree ex_writing"
    using tree_object.reachable_inv [OF ex_writing reach_new ex_progs_ok] by blast
  then obtain c where "(step tree_app tree_reads)\<^sup>*\<^sup>* ex_writing c" "finished c" using tree_object.completes by blast
  then have c: "(step tree_app tree_reads)\<^sup>*\<^sup>* (start empty_Btree ex_progs) c" "finished c" using ex_writing by auto
  then show ?thesis
    using tree_lock_linearizable [OF reach_new ex_progs_ok c(1)] by (auto simp: ex_progs_def)
qed

text \<open>
  C11.  No deadlock and no livelock: a run of the goroutines takes at most five steps a call,
  it can always go on until every call is answered, and it stops only then.
\<close>

theorem tree_lock_live:
  assumes "reach t" "\<forall>p \<in> set progs. \<forall>x \<in> set p. tree_ok x" "(step tree_app tree_reads ^^ k) (start t progs) c"
  shows "k \<le> 5 * sum_list (map length progs) \<and> (\<exists>c'. (step tree_app tree_reads)\<^sup>*\<^sup>* c c' \<and> finished c') \<and>
    ((\<nexists>c'. step tree_app tree_reads c c') \<longrightarrow> (\<forall>i < length progs. length (answers (threads c ! i)) = length (progs ! i)))"
proof -
  have r: "(step tree_app tree_reads)\<^sup>*\<^sup>* (start t progs) c" using assms(3) by (simp add: relpowp_imp_rtranclp)
  note inv = tree_object.reachable_inv [OF r assms(1,2)]
  have "total_work (start t progs :: (tcall, tans, Btree) conf) = 5 * sum_list (map length progs)"
    by (simp add: total_work_def start_def work_def comp_def sum_list_const_mult)
  then have "k \<le> 5 * sum_list (map length progs)" using steps_work [OF assms(3)] by simp
  moreover have "\<exists>c'. (step tree_app tree_reads)\<^sup>*\<^sup>* c c' \<and> finished c'" using tree_object.completes inv by blast
  moreover have "length (answers (threads c ! i)) = length (progs ! i)" if "\<nexists>c'. step tree_app tree_reads c c'" "i < length progs" for i
    using finished_answers [of progs c tree_reads i] tree_object.progress inv that by blast
  ultimately show ?thesis by blast
qed

theorem tree_lock_live_witness:
  "\<exists>c. (step tree_app tree_reads)\<^sup>*\<^sup>* (start empty_Btree ex_progs) c \<and> finished c"
  using tree_lock_live [OF reach_new ex_progs_ok, of 0 "start empty_Btree ex_progs"] by auto

end
