(* ===== verification/Spec2Isabelle.thy ===== *)
theory Spec2Isabelle
  imports Durable_Recovery Indexed_Race Key_Extractors Shard_Skew Tree_Lock
begin

text \<open>
  StunDB, an in-memory B-tree key-value store in Go with a write-ahead log and secondary indexes,
  is modelled and verified here.  The sources are \<^verbatim>\<open>src/bptree/*.go\<close>; \<^verbatim>\<open>src/cmd/main.go\<close> is an
  empty main function.

  \<^bold>\<open>The program.\<close>  A \<^verbatim>\<open>Btree\<close> (\<^verbatim>\<open>btree.go\<close>, with the nodes of \<^verbatim>\<open>node.go\<close> and the
  range queries of \<^verbatim>\<open>iterator.go\<close>) maps byte keys to byte values under one read-write lock.  A
  \<^verbatim>\<open>ShardedBTree\<close> (\<^verbatim>\<open>sharded_btree.go\<close>) spreads keys over trees by a hash.  A \<^verbatim>\<open>DurableBTree\<close>
  (\<^verbatim>\<open>durable_btree.go\<close>) puts a \<^verbatim>\<open>WAL\<close> (\<^verbatim>\<open>wal.go\<close>) before a sharded tree: it logs an operation and
  then applies it, and replays the log when it is opened.  An \<^verbatim>\<open>IndexedBTree\<close>
  (\<^verbatim>\<open>indexed_btree.go\<close>) keeps \<^verbatim>\<open>SecondaryIndex\<close> values (\<^verbatim>\<open>secondary_index.go\<close>), each
  of which is a sharded tree from index keys to primary keys, beside a primary sharded tree.

  \<^bold>\<open>How Go is modelled.\<close>  \<^verbatim>\<open>Go_Prelude.thy\<close> fixes it: a \<^verbatim>\<open>[]byte\<close> is a \<open>slice\<close> that is
  nil or has bytes, a panic is \<open>None\<close>, an \<^verbatim>\<open>error\<close> is the left side of a sum, machine words
  keep their width.  A method that changes its receiver returns the new one.  Nodes are values: every
  node has one owner, and no source line keeps a second reference to one.  Keys compare as byte lists in
  the lexicographic order, which is that of \<^verbatim>\<open>bytes.Compare\<close>.

  \<^bold>\<open>The theories, by component.\<close>

  \<^item> B-tree.  \<^verbatim>\<open>Node_Ops.thy\<close> has the operations of \<^verbatim>\<open>node.go\<close>, \<^verbatim>\<open>Btree_Model.thy\<close> those of
    \<^verbatim>\<open>btree.go\<close>, \<^verbatim>\<open>Btree_Range.thy\<close> those of \<^verbatim>\<open>iterator.go\<close> and the walks \<open>countKeys\<close> and
    \<open>forEach\<close>.  \<^verbatim>\<open>Btree_Shape\<close>, \<^verbatim>\<open>Btree_Find\<close>, \<^verbatim>\<open>Btree_Insert\<close>, \<^verbatim>\<open>Btree_Fill\<close>,
    \<^verbatim>\<open>Btree_Delete\<close> and \<^verbatim>\<open>Btree_Shadow\<close> prove what one operation does to shape and content.
    \<^verbatim>\<open>Btree_Store.thy\<close> collects it: the tree is a finite map for histories of inserts of new keys
    and deletes; after any inserts of non-nil keys and deletes it is balanced and filled, and nothing
    panics; its height is logarithmic; an insert at a key that an internal node holds stores a second copy.

  \<^item> Lock.  \<^verbatim>\<open>Rw_Lock.thy\<close> has goroutines on an object behind a \<^verbatim>\<open>sync.RWMutex\<close> as a step
    relation, with bodies that load and store in separate steps; \<^verbatim>\<open>Tree_Lock.thy\<close> makes the
    B-tree such an object: linearizability, and that every run ends with all calls answered.

  \<^item> Sharded tree.  \<^verbatim>\<open>Sharded_Btree.thy\<close> has \<^verbatim>\<open>sharded_btree.go\<close>, with bulk insertion under an
    arbitrary schedule of its goroutines; \<^verbatim>\<open>Sharded_Store.thy\<close> proves that it is a finite map, that range
    queries merge the shards, that the schedule does not matter, and the counts of \<open>Stats\<close>.
    \<^verbatim>\<open>Float64.thy\<close> has the rounding of \<^verbatim>\<open>float64\<close> with its relative error, \<^verbatim>\<open>Shard_Skew.thy\<close> the
    skew statistic, rounded operation by operation, and the error of its square root.

  \<^item> Log.  \<^verbatim>\<open>Byte_Codec.thy\<close> and \<^verbatim>\<open>Wal_Codec.thy\<close> have the format and \<open>readEntry\<close>, with
    torn tails, bit errors and the bound on a scan; \<^verbatim>\<open>Os_File.thy\<close> has files and the buffered writer, with
    system calls that fail as a list of outcomes tells and data that is lost unless synced;
    \<^verbatim>\<open>Wal_Log.thy\<close> has every operation of \<^verbatim>\<open>wal.go\<close>.  \<^verbatim>\<open>Wal_History.thy\<close> and \<^verbatim>\<open>Wal_Recovery.thy\<close>
    show what an acknowledged append means under any faults, and what reopening, replay, checkpoint
    and rotation do.

  \<^item> Durable tree.  \<^verbatim>\<open>Durable_Btree.thy\<close> has \<^verbatim>\<open>durable_btree.go\<close>; \<^verbatim>\<open>Durable_Recovery.thy\<close> shows
    which operations a reopened store has applied, under any faults, and that a restart without
    faults loses nothing except after a checkpoint.

  \<^item> Indexes.  \<^verbatim>\<open>Secondary_Index.thy\<close> has \<^verbatim>\<open>secondary_index.go\<close> with the key extractors,
    \<^verbatim>\<open>Key_Extractors.thy\<close> the properties of its formats, \<^verbatim>\<open>Index_Store.thy\<close> the contract of an index.
    \<^verbatim>\<open>Indexed_Btree.thy\<close> has \<^verbatim>\<open>indexed_btree.go\<close>; \<^verbatim>\<open>Indexed_Store.thy\<close> and
    \<^verbatim>\<open>Indexed_History.thy\<close> show what an insert of a new record does to every index (the lists of
    non-unique indexes lose it at a separator of the index tree), which writes keep the indexes
    consistent with the records (\<open>indexed_reach\<close>), that queries then agree with a scan, and that an
    insert over a record does not keep them.  \<^verbatim>\<open>Indexed_Race.thy\<close>
    interleaves the steps of concurrent inserts, which hold no lock together: a step relation that
    refines an abstract machine over records, unique index keys are never shared at the end, every
    run ends, and two inserts that fail against each other leave entries of no record behind.

  \<^bold>\<open>Interfaces.\<close>  \<open>kv_store\<close> and \<open>range_store\<close> (\<^verbatim>\<open>Store_Interface.thy\<close>) are the contract of a
    map with range queries, provided by the B-tree (\<open>tree\<close>) and the sharded tree (\<open>sharded\<close>);
    \<open>stream_codec\<close> is that of a self-delimiting encoding, provided by log entries (\<open>wal\<close>);
    \<open>index_store\<close> is that of an index, provided by \<open>SecondaryIndex\<close> (\<open>index\<close>);
    \<open>rw_object\<close> is that of an object behind a lock, provided by the B-tree (\<open>tree_object\<close>).

  \<^bold>\<open>Parameters and bounds.\<close>  \<^verbatim>\<open>runtime.NumCPU\<close>, the order in which Go ranges over a map, the
  schedule of goroutines, the outcomes of system calls and user functions (callbacks, extractors) are
  arguments.  There is no fuel: every loop is a recursion with a termination proof.  Hypotheses like
  \<open>length key < 2 ^ 32\<close> are the limits of the 32-bit length fields.  \<open>tree_upd_ok\<close>,
  \<open>shard_upd_ok\<close>, \<open>room\<close> and \<open>shrink_room\<close> exclude the updates at separators that the B-tree's
  insert gets wrong.

  \<^bold>\<open>Not modelled.\<close>  The interleaving of operations of the sharded and durable trees and of the
  log, apart from the bulk insertion: each operation is one step there.  Of the indexed tree only inserts
  interleave, with unique indexes that stay the same; its lock guards only its map of indexes, so updates,
  deletes and queries are not atomic against each other either.
  Callbacks that call back into the tree they walk.  The exponent range of \<^verbatim>\<open>float64\<close> and fused
  multiply-add in \<open>Skew\<close>.  The overflow of \<^verbatim>\<open>int\<close> in lengths and counts, and running out of memory.  Times, directory
  creation beyond its success or failure, and the text of error messages.  The per-node mutex
  and \<^verbatim>\<open>rightSibling\<close>, which no operation uses.
\<close>

end
